(* ===== verification/TS_Prelude.thy ===== *)
theory TS_Prelude
  imports Main "HOL-Library.Word" "HOL-Library.AList"
begin

text \<open>
  Shared vocabulary of the development: the machine integers of the Rust sources, byte strings,
  the little-endian integer codecs that every on-device and on-wire format is built from, slice
  access with the bounds written out, and checked arithmetic.  The \<open>codec\<close> collection holds
  the rewrite rules of the byte codecs.
\<close>

unbundle bit_operations_syntax

type_synonym u8 = "8 word"
type_synonym u16 = "16 word"
type_synonym u32 = "32 word"
type_synonym u64 = "64 word"
type_synonym bytes = "u8 list"

named_theorems codec \<open>rewrite rules for byte codecs\<close>

section \<open>Little-endian integers\<close>

fun le_bytes :: "nat \<Rightarrow> 'a::len word \<Rightarrow> bytes" where
  "le_bytes 0 w = []"
| "le_bytes (Suc n) w = ucast w # le_bytes n (drop_bit 8 w)"

fun le_val :: "bytes \<Rightarrow> 'a::len word" where
  "le_val [] = 0"
| "le_val (b # bs) = ucast b OR push_bit 8 (le_val bs)"

abbreviation u16_le :: "u16 \<Rightarrow> bytes" where "u16_le \<equiv> le_bytes 2"
abbreviation u32_le :: "u32 \<Rightarrow> bytes" where "u32_le \<equiv> le_bytes 4"
abbreviation u64_le :: "u64 \<Rightarrow> bytes" where "u64_le \<equiv> le_bytes 8"

lemma length_le_bytes [simp]: "length (le_bytes n w) = n"
  by (induction n arbitrary: w) simp_all

lemma bit_le_val:
  "bit (le_val bs :: 'a::len word) i \<longleftrightarrow>
    i < LENGTH('a) \<and> i div 8 < length bs \<and> bit (bs ! (i div 8)) (i mod 8)"
proof (induction bs arbitrary: i)
  case (Cons b bs)
  show ?case
  proof (cases "i < 8")
    case True
    then show ?thesis by (auto simp: bit_or_iff bit_push_bit_iff bit_ucast_iff)
  next
    case False
    then obtain k where k: "i = 8 + k" using le_Suc_ex not_less by blast
    have nb: "\<not> bit b (8 + k)" using bit_imp_le_length [of b "8 + k"] by auto
    have d: "(8 + k) div 8 = Suc (k div 8)" "(8 + k) mod 8 = k mod 8" by simp_all
    show ?thesis
      unfolding k d using nb by (auto simp: bit_or_iff bit_push_bit_iff bit_ucast_iff Cons.IH)
  qed
qed simp

lemma nth_le_bytes: "k < n \<Longrightarrow> le_bytes n w ! k = ucast (drop_bit (8 * k) w)"
proof (induction n arbitrary: w k)
  case (Suc n)
  then show ?case by (cases k) (simp_all add: drop_bit_drop_bit add.commute)
qed simp

lemma le_val_le_bytes [codec]:
  assumes "8 * n = LENGTH('a)"
  shows "le_val (le_bytes n w) = (w :: 'a::len word)"
proof (rule bit_word_eqI)
  fix i assume i: "i < LENGTH('a)"
  then have "i div 8 < n" using assms by linarith
  moreover have "8 * (i div 8) + i mod 8 = i" by simp
  moreover have "i mod 8 < 8" by simp
  ultimately show "bit (le_val (le_bytes n w) :: 'a word) i = bit w i"
    using i by (simp add: bit_le_val nth_le_bytes bit_ucast_iff bit_drop_bit_eq)
qed

lemma le_bytes_le_val:
  assumes "length bs = n" "8 * n \<le> LENGTH('a::len)"
  shows "le_bytes n (le_val bs :: 'a word) = bs"
proof (rule nth_equalityI)
  fix k assume k: "k < length (le_bytes n (le_val bs :: 'a word))"
  then have kn: "k < n" by simp
  show "le_bytes n (le_val bs :: 'a word) ! k = bs ! k"
  proof (rule bit_word_eqI)
    fix i assume i: "i < LENGTH(8)"
    then have i8: "i < 8" by simp
    have "(8 * k + i) div 8 = k" "(8 * k + i) mod 8 = i" using i8 by simp_all
    moreover have "8 * k + i < LENGTH('a)" using assms(2) kn i8 by linarith
    ultimately show "bit (le_bytes n (le_val bs :: 'a word) ! k) i = bit (bs ! k) i"
      using kn i8 assms(1)
      by (simp add: nth_le_bytes bit_ucast_iff bit_drop_bit_eq bit_le_val)
  qed
qed (simp add: assms(1))

lemma le_bytes_le_val_u16 [simp, codec]: "length bs = 2 \<Longrightarrow> u16_le (le_val bs) = bs"
  by (simp add: le_bytes_le_val)

lemma le_bytes_le_val_u32 [simp, codec]: "length bs = 4 \<Longrightarrow> u32_le (le_val bs) = bs"
  by (simp add: le_bytes_le_val)

lemma le_bytes_le_val_u64 [simp, codec]: "length bs = 8 \<Longrightarrow> u64_le (le_val bs) = bs"
  by (simp add: le_bytes_le_val)

lemma le_bytes_inj:
  assumes "8 * n = LENGTH('a::len)" "le_bytes n v = le_bytes n (w :: 'a word)"
  shows "v = w"
  using assms le_val_le_bytes by metis

lemma le_val_u16 [simp, codec]: "le_val (u16_le w) = w" by (simp add: le_val_le_bytes)
lemma le_val_u32 [simp, codec]: "le_val (u32_le w) = w" by (simp add: le_val_le_bytes)
lemma le_val_u64 [simp, codec]: "le_val (u64_le w) = w" by (simp add: le_val_le_bytes)

lemma unat_inj [simp]: "unat x = unat y \<longleftrightarrow> x = y"
  by (rule word_unat_eq_iff [symmetric])

section \<open>Slices\<close>

text \<open>\<open>slice off n bs\<close> is the Rust slice \<open>bs[off..off + n]\<close>; it has length \<open>n\<close> exactly when
  the slice is in bounds.\<close>

definition slice :: "nat \<Rightarrow> nat \<Rightarrow> 'a list \<Rightarrow> 'a list" where
  "slice off n xs = take n (drop off xs)"

definition overwrite :: "nat \<Rightarrow> 'a list \<Rightarrow> 'a list \<Rightarrow> 'a list" where
  "overwrite off ys xs = take off xs @ ys @ drop (off + length ys) xs"

lemma length_slice [simp]: "length (slice off n xs) = min n (length xs - off)"
  by (simp add: slice_def min.commute)

lemma length_overwrite [simp]:
  "off + length ys \<le> length xs \<Longrightarrow> length (overwrite off ys xs) = length xs"
  by (simp add: overwrite_def)

lemma slice_append_right [codec]:
  "length xs \<le> off \<Longrightarrow> slice off n (xs @ ys) = slice (off - length xs) n ys"
  by (simp add: slice_def)

lemma slice_append_here [codec]: "length xs = n \<Longrightarrow> slice 0 n (xs @ ys) = xs"
  by (simp add: slice_def)

lemma slice_all [codec]: "length xs = n \<Longrightarrow> slice 0 n xs = xs"
  by (simp add: slice_def)

lemma slice_Cons [codec]: "0 < off \<Longrightarrow> slice off n (x # xs) = slice (off - 1) n xs"
  by (cases off) (simp_all add: slice_def)

lemma slice_overwrite_same:
  "off + length ys \<le> length xs \<Longrightarrow> slice off (length ys) (overwrite off ys xs) = ys"
  by (simp add: slice_def overwrite_def)

lemma slice_overwrite_before:
  "a + n \<le> off \<Longrightarrow> off + length ys \<le> length xs \<Longrightarrow> slice a n (overwrite off ys xs) = slice a n xs"
  by (simp add: slice_def overwrite_def take_drop min_def)

lemma slice_overwrite_after:
  "off + length ys \<le> a \<Longrightarrow> off + length ys \<le> length xs \<Longrightarrow>
    slice a n (overwrite off ys xs) = slice a n xs"
  by (simp add: slice_def overwrite_def)

lemma overwrite_overwrite_same:
  "length ys = length zs \<Longrightarrow> off + length ys \<le> length xs \<Longrightarrow>
    overwrite off ys (overwrite off zs xs) = overwrite off ys xs"
  by (simp add: overwrite_def)

lemma overwrite_slice_id:
  "off + n \<le> length xs \<Longrightarrow> overwrite off (slice off n xs) xs = xs"
  by (simp add: overwrite_def slice_def min_def)
    (metis add.commute append_take_drop_id drop_drop)

lemma slice_join [codec]: "a + n = c \<Longrightarrow> slice a n xs @ slice c m xs = slice a (n + m) xs"
  by (auto simp: slice_def take_add add.commute [of n a])

lemma slice_singleton: "a < length xs \<Longrightarrow> [xs ! a] = slice a 1 xs"
  by (simp add: slice_def take_Suc_conv_app_nth hd_drop_conv_nth take_Suc)

lemma slice_take: "off + n \<le> k \<Longrightarrow> slice off n (take k xs) = slice off n xs"
  by (simp add: slice_def take_drop min_def)

lemma slice_append_left: "off + n \<le> length xs \<Longrightarrow> slice off n (xs @ ys) = slice off n xs"
  by (simp add: slice_def)

lemma slice_slice: "b + m \<le> n \<Longrightarrow> slice b m (slice a n xs) = slice (a + b) m xs"
  by (simp add: slice_def drop_take min_def add.commute)

lemma overwrite_append_right [codec]:
  "length xs \<le> off \<Longrightarrow> overwrite off ys (xs @ zs) = xs @ overwrite (off - length xs) ys zs"
  by (simp add: overwrite_def)

lemma overwrite_append_here [codec]:
  "length xs = length ys \<Longrightarrow> overwrite 0 ys (xs @ zs) = ys @ zs"
  by (simp add: overwrite_def)

lemma overwrite_Cons [codec]:
  "0 < off \<Longrightarrow> overwrite off ys (x # zs) = x # overwrite (off - 1) ys zs"
  by (cases off) (simp_all add: overwrite_def)

lemma overwrite_all [codec]: "length xs = length ys \<Longrightarrow> overwrite 0 ys xs = ys"
  by (simp add: overwrite_def)

lemma le_bytes_0 [simp]: "le_bytes n (0 :: 'a::len word) = replicate n 0"
  by (induction n) simp_all

lemma le_val_replicate_0 [simp]: "le_val (replicate n 0) = 0"
  by (induction n) simp_all

section \<open>Hash maps\<close>

text \<open>A Rust hash map is an association list; its lookup, insert and remove are \<open>map_of\<close>,
  \<open>AList.update\<close> and \<open>AList.delete\<close>.\<close>

type_synonym ('k, 'v) hashmap = "('k \<times> 'v) list"

lemma map_of_insert [simp]: "map_of (AList.update k v m) = (map_of m)(k \<mapsto> v)"
  by (rule update_conv')

lemma map_of_remove [simp]: "map_of (AList.delete k m) = (map_of m)(k := None)"
  by (rule delete_conv')

section \<open>Checked arithmetic\<close>

text \<open>\<open>u32::checked_add\<close> and friends: \<open>None\<close> on overflow.\<close>

definition checked_add :: "'a::len word \<Rightarrow> 'a word \<Rightarrow> 'a word option" where
  "checked_add x y = (if unat x + unat y < 2 ^ LENGTH('a) then Some (x + y) else None)"

lemma checked_add_Some_iff:
  "checked_add x y = Some z \<longleftrightarrow> unat x + unat y < 2 ^ LENGTH('a) \<and> z = x + (y :: 'a::len word)"
  by (auto simp: checked_add_def)

lemma checked_add_unat: "checked_add x y = Some (z :: 'a::len word) \<Longrightarrow> unat z = unat x + unat y"
  by (simp add: checked_add_Some_iff unat_word_ariths)

lemma checked_add_None_iff:
  "checked_add x (y :: 'a::len word) = None \<longleftrightarrow> 2 ^ LENGTH('a) \<le> unat x + unat y"
  by (auto simp: checked_add_def)

end
