(* ===== verification/Tx_Record.thy ===== *)
theory Tx_Record
  imports TS_Prelude
begin

text \<open>
  The on-device record format of \<open>src/src/record.rs\<close>: UTXO slots, the 256-byte metadata header,
  the deleted-record marker, and the wrapping order on record generations.  The checksum
  \<open>crc32fast::hash\<close> is third-party code; it is the parameter \<open>crc\<close> of every definition that uses
  it, and no law is assumed of it.
\<close>

section \<open>Constants and errors\<close>

definition UTXO_SLOT_PAYLOAD_SIZE :: nat where "UTXO_SLOT_PAYLOAD_SIZE = 69"
definition UTXO_SLOT_SIZE :: nat where "UTXO_SLOT_SIZE = UTXO_SLOT_PAYLOAD_SIZE + 4"
definition METADATA_MAGIC :: u32 where "METADATA_MAGIC = 0x534C4142"
definition METADATA_VERSION :: u32 where "METADATA_VERSION = 3"
definition METADATA_SIZE :: nat where "METADATA_SIZE = 256"
definition METADATA_PADDING :: nat where "METADATA_PADDING = 31"
definition CRC32_OFFSET :: nat where "CRC32_OFFSET = 221"
definition IDENTITY_CRC_OFFSET :: nat where "IDENTITY_CRC_OFFSET = 56"
definition IDENTITY_PREFIX_LEN :: nat where "IDENTITY_PREFIX_LEN = IDENTITY_CRC_OFFSET"

definition UTXO_UNSPENT :: u8 where "UTXO_UNSPENT = 0"
definition UTXO_SPENT :: u8 where "UTXO_SPENT = 1"
definition UTXO_PRUNED :: u8 where "UTXO_PRUNED = 2"
definition UTXO_FROZEN :: u8 where "UTXO_FROZEN = 0xFF"
definition FROZEN_BYTE :: u8 where "FROZEN_BYTE = 0xFF"

lemmas record_consts = UTXO_SLOT_PAYLOAD_SIZE_def UTXO_SLOT_SIZE_def METADATA_MAGIC_def
  METADATA_VERSION_def METADATA_SIZE_def METADATA_PADDING_def CRC32_OFFSET_def
  IDENTITY_CRC_OFFSET_def IDENTITY_PREFIX_LEN_def

lemmas status_consts = UTXO_UNSPENT_def UTXO_SPENT_def UTXO_PRUNED_def UTXO_FROZEN_def

text \<open>\<open>SlicePanic\<close> stands for the out-of-bounds slice panic of a decoder that only debug-asserts
  the length of its input.\<close>

datatype record_error = CrcMismatch u32 u32 | TooShort nat nat | SlicePanic

section \<open>UTXO slots\<close>

record utxo_slot =
  slot_hash :: bytes
  status :: u8
  spending_data :: bytes

definition wf_slot :: "utxo_slot \<Rightarrow> bool" where
  "wf_slot s \<longleftrightarrow> length (slot_hash s) = 32 \<and> length (spending_data s) = 36"

definition new_unspent :: "bytes \<Rightarrow> utxo_slot" where
  "new_unspent h = \<lparr>slot_hash = h, status = UTXO_UNSPENT, spending_data = replicate 36 0\<rparr>"

definition new_frozen :: "bytes \<Rightarrow> utxo_slot" where
  "new_frozen h = \<lparr>slot_hash = h, status = UTXO_FROZEN, spending_data = replicate 36 FROZEN_BYTE\<rparr>"

definition new_frozen_with_cooldown :: "bytes \<Rightarrow> u32 \<Rightarrow> utxo_slot" where
  "new_frozen_with_cooldown h cooldown =
    \<lparr>slot_hash = h, status = UTXO_FROZEN,
     spending_data = overwrite 0 (u32_le cooldown) (replicate 36 FROZEN_BYTE)\<rparr>"

definition new_unspent_with_cooldown :: "bytes \<Rightarrow> u32 \<Rightarrow> utxo_slot" where
  "new_unspent_with_cooldown h cooldown =
    \<lparr>slot_hash = h, status = UTXO_UNSPENT,
     spending_data = overwrite 0 (u32_le cooldown) (replicate 36 0)\<rparr>"

definition reassignment_cooldown :: "utxo_slot \<Rightarrow> u32" where
  "reassignment_cooldown s = le_val (slice 0 4 (spending_data s))"

definition new_spent :: "bytes \<Rightarrow> bytes \<Rightarrow> utxo_slot" where
  "new_spent h sd = \<lparr>slot_hash = h, status = UTXO_SPENT, spending_data = sd\<rparr>"

definition is_frozen :: "utxo_slot \<Rightarrow> bool" where "is_frozen s \<longleftrightarrow> status s = UTXO_FROZEN"
definition is_unspent :: "utxo_slot \<Rightarrow> bool" where "is_unspent s \<longleftrightarrow> status s = UTXO_UNSPENT"
definition is_spent :: "utxo_slot \<Rightarrow> bool" where "is_spent s \<longleftrightarrow> status s = UTXO_SPENT"
definition is_pruned :: "utxo_slot \<Rightarrow> bool" where "is_pruned s \<longleftrightarrow> status s = UTXO_PRUNED"

lemmas slot_defs = new_unspent_def new_frozen_def new_frozen_with_cooldown_def
  new_unspent_with_cooldown_def new_spent_def

definition slot_payload :: "utxo_slot \<Rightarrow> bytes" where
  "slot_payload s = slot_hash s @ status s # spending_data s"

definition slot_to_bytes :: "(bytes \<Rightarrow> u32) \<Rightarrow> utxo_slot \<Rightarrow> bytes" where
  "slot_to_bytes crc s = slot_payload s @ u32_le (crc (slot_payload s))"

definition slot_from_bytes :: "(bytes \<Rightarrow> u32) \<Rightarrow> bytes \<Rightarrow> record_error + utxo_slot" where
  "slot_from_bytes crc src =
    (if length src < UTXO_SLOT_SIZE then Inl SlicePanic
     else
       let expected = le_val (slice UTXO_SLOT_PAYLOAD_SIZE 4 src);
           actual = crc (slice 0 UTXO_SLOT_PAYLOAD_SIZE src)
       in if actual \<noteq> expected then Inl (CrcMismatch expected actual)
          else Inr \<lparr>slot_hash = slice 0 32 src, status = src ! 32, spending_data = slice 33 36 src\<rparr>)"

section \<open>Block entries\<close>

record block_entry =
  be_block_id :: u32
  be_block_height :: u32
  be_subtree_idx :: u32

definition block_entry_to_bytes :: "block_entry \<Rightarrow> bytes" where
  "block_entry_to_bytes e =
    u32_le (be_block_id e) @ u32_le (be_block_height e) @ u32_le (be_subtree_idx e)"

definition block_entry_from_bytes :: "bytes \<Rightarrow> block_entry" where
  "block_entry_from_bytes src = \<lparr>be_block_id = le_val (slice 0 4 src),
    be_block_height = le_val (slice 4 4 src), be_subtree_idx = le_val (slice 8 4 src)\<rparr>"

section \<open>External references and flags\<close>

record external_ref =
  store_type :: u8
  content_hash :: bytes
  total_size :: u64
  input_count :: u32
  output_count :: u32
  inputs_offset :: u64
  outputs_offset :: u64

definition external_ref_zeroed :: external_ref where
  "external_ref_zeroed = \<lparr>store_type = 0, content_hash = replicate 32 0, total_size = 0,
    input_count = 0, output_count = 0, inputs_offset = 0, outputs_offset = 0\<rparr>"

definition external_ref_raw :: "external_ref \<Rightarrow> bytes" where
  "external_ref_raw r = [store_type r] @ content_hash r @ u64_le (total_size r) @
    u32_le (input_count r) @ u32_le (output_count r) @ u64_le (inputs_offset r) @
    u64_le (outputs_offset r)"

definition external_ref_parse :: "bytes \<Rightarrow> external_ref" where
  "external_ref_parse b = \<lparr>store_type = b ! 0, content_hash = slice 1 32 b,
    total_size = le_val (slice 33 8 b), input_count = le_val (slice 41 4 b),
    output_count = le_val (slice 45 4 b), inputs_offset = le_val (slice 49 8 b),
    outputs_offset = le_val (slice 57 8 b)\<rparr>"

definition IS_COINBASE :: u8 where "IS_COINBASE = 0x01"
definition CONFLICTING :: u8 where "CONFLICTING = 0x02"
definition LOCKED :: u8 where "LOCKED = 0x04"
definition EXTERNAL :: u8 where "EXTERNAL = 0x08"
definition LAST_SPENT_ALL :: u8 where "LAST_SPENT_ALL = 0x10"
definition HAS_PRESERVE_UNTIL :: u8 where "HAS_PRESERVE_UNTIL = 0x20"
definition REASSIGNED :: u8 where "REASSIGNED = 0x40"

lemmas flag_consts = IS_COINBASE_def CONFLICTING_def LOCKED_def EXTERNAL_def LAST_SPENT_ALL_def
  HAS_PRESERVE_UNTIL_def REASSIGNED_def

text \<open>The \<open>bitflags\<close> operations \<open>contains\<close>, \<open>insert\<close>, \<open>remove\<close> and \<open>set\<close> on the flag byte.\<close>

definition flag_contains :: "u8 \<Rightarrow> u8 \<Rightarrow> bool" where "flag_contains f g \<longleftrightarrow> f AND g = g"
definition flag_insert :: "u8 \<Rightarrow> u8 \<Rightarrow> u8" where "flag_insert f g = f OR g"
definition flag_remove :: "u8 \<Rightarrow> u8 \<Rightarrow> u8" where "flag_remove f g = f AND NOT g"
definition flag_set :: "u8 \<Rightarrow> u8 \<Rightarrow> bool \<Rightarrow> u8" where
  "flag_set f g v = (if v then flag_insert f g else flag_remove f g)"

section \<open>Transaction metadata\<close>

record tx_metadata =
  magic :: u32
  schema_version :: u32
  record_size :: u32
  utxo_count :: u32
  tx_id :: bytes
  tx_version :: u32
  locktime :: u32
  identity_crc :: u32
  fee :: u64
  size_in_bytes :: u64
  extended_size :: u64
  flags :: u8
  spending_height :: u32
  created_at :: u64
  spent_utxos :: u32
  pruned_utxos :: u32
  generation :: u32
  updated_at :: u64
  reassignment_offset :: u64
  reassignment_count :: u8
  unmined_since :: u32
  delete_at_height :: u32
  preserve_until :: u32
  external_ref :: external_ref
  conflicting_children_count :: u8
  conflicting_children_offset :: u64
  deleted_children_count :: u8
  deleted_children_offset :: u64
  crc32 :: u32
  padding :: bytes

definition wf_meta :: "tx_metadata \<Rightarrow> bool" where
  "wf_meta m \<longleftrightarrow> length (tx_id m) = 32 \<and> length (content_hash (external_ref m)) = 32 \<and>
    length (padding m) = METADATA_PADDING"

definition new_metadata :: "u32 \<Rightarrow> tx_metadata" where
  "new_metadata n = \<lparr>magic = METADATA_MAGIC, schema_version = METADATA_VERSION,
    record_size = of_nat METADATA_SIZE + n * of_nat UTXO_SLOT_SIZE, utxo_count = n,
    tx_id = replicate 32 0, tx_version = 0, locktime = 0, identity_crc = 0, fee = 0,
    size_in_bytes = 0, extended_size = 0, flags = 0, spending_height = 0, created_at = 0,
    spent_utxos = 0, pruned_utxos = 0, generation = 0, updated_at = 0, reassignment_offset = 0,
    reassignment_count = 0, unmined_since = 0, delete_at_height = 0, preserve_until = 0,
    external_ref = external_ref_zeroed, conflicting_children_count = 0,
    conflicting_children_offset = 0, deleted_children_count = 0, deleted_children_offset = 0,
    crc32 = 0, padding = replicate METADATA_PADDING 0\<rparr>"

definition utxo_slot_offset :: "u32 \<Rightarrow> u64" where
  "utxo_slot_offset i = of_nat METADATA_SIZE + ucast i * of_nat UTXO_SLOT_SIZE"

definition record_size_for :: "u32 \<Rightarrow> u64" where
  "record_size_for n = of_nat METADATA_SIZE + ucast n * of_nat UTXO_SLOT_SIZE"

text \<open>The \<open>repr(C, packed)\<close> image of the header: the fields in declaration order, little-endian.\<close>

definition meta_raw :: "tx_metadata \<Rightarrow> bytes" where
  "meta_raw m =
    u32_le (magic m) @ u32_le (schema_version m) @ u32_le (record_size m) @ u32_le (utxo_count m) @
    tx_id m @ u32_le (tx_version m) @ u32_le (locktime m) @ u32_le (identity_crc m) @
    u64_le (fee m) @ u64_le (size_in_bytes m) @ u64_le (extended_size m) @ [flags m] @
    u32_le (spending_height m) @ u64_le (created_at m) @ u32_le (spent_utxos m) @
    u32_le (pruned_utxos m) @ u32_le (generation m) @ u64_le (updated_at m) @
    u64_le (reassignment_offset m) @ [reassignment_count m] @ u32_le (unmined_since m) @
    u32_le (delete_at_height m) @ u32_le (preserve_until m) @ external_ref_raw (external_ref m) @
    [conflicting_children_count m] @ u64_le (conflicting_children_offset m) @
    [deleted_children_count m] @ u64_le (deleted_children_offset m) @ u32_le (crc32 m) @ padding m"

definition meta_parse :: "bytes \<Rightarrow> tx_metadata" where
  "meta_parse b = \<lparr>magic = le_val (slice 0 4 b), schema_version = le_val (slice 4 4 b),
    record_size = le_val (slice 8 4 b), utxo_count = le_val (slice 12 4 b),
    tx_id = slice 16 32 b, tx_version = le_val (slice 48 4 b), locktime = le_val (slice 52 4 b),
    identity_crc = le_val (slice 56 4 b), fee = le_val (slice 60 8 b),
    size_in_bytes = le_val (slice 68 8 b), extended_size = le_val (slice 76 8 b), flags = b ! 84,
    spending_height = le_val (slice 85 4 b), created_at = le_val (slice 89 8 b),
    spent_utxos = le_val (slice 97 4 b), pruned_utxos = le_val (slice 101 4 b),
    generation = le_val (slice 105 4 b), updated_at = le_val (slice 109 8 b),
    reassignment_offset = le_val (slice 117 8 b), reassignment_count = b ! 125,
    unmined_since = le_val (slice 126 4 b), delete_at_height = le_val (slice 130 4 b),
    preserve_until = le_val (slice 134 4 b), external_ref = external_ref_parse (slice 138 65 b),
    conflicting_children_count = b ! 203, conflicting_children_offset = le_val (slice 204 8 b),
    deleted_children_count = b ! 212, deleted_children_offset = le_val (slice 213 8 b),
    crc32 = le_val (slice 221 4 b), padding = slice 225 31 b\<rparr>"

definition meta_to_bytes :: "(bytes \<Rightarrow> u32) \<Rightarrow> tx_metadata \<Rightarrow> bytes" where
  "meta_to_bytes crc m =
    (let b = meta_raw m;
         b = overwrite IDENTITY_CRC_OFFSET (u32_le (crc (take IDENTITY_PREFIX_LEN b))) b;
         b = overwrite CRC32_OFFSET (replicate 4 0) b
     in overwrite CRC32_OFFSET (u32_le (crc b)) b)"

definition meta_from_bytes :: "(bytes \<Rightarrow> u32) \<Rightarrow> bytes \<Rightarrow> record_error + tx_metadata" where
  "meta_from_bytes crc src =
    (if length src < METADATA_SIZE then Inl (TooShort (length src) METADATA_SIZE)
     else
       let expected = le_val (slice CRC32_OFFSET 4 src);
           buf = overwrite CRC32_OFFSET (replicate 4 0) (take METADATA_SIZE src);
           actual = crc buf
       in if actual \<noteq> expected then Inl (CrcMismatch expected actual)
          else Inr (meta_parse (take METADATA_SIZE src)))"

record tx_identity =
  ti_tx_id :: bytes
  ti_utxo_count :: u32
  ti_locktime :: u32

definition read_identity_from :: "(bytes \<Rightarrow> u32) \<Rightarrow> bytes \<Rightarrow> record_error + tx_identity" where
  "read_identity_from crc src =
    (if length src < IDENTITY_CRC_OFFSET + 4 then Inl SlicePanic
     else
       let expected = le_val (slice IDENTITY_CRC_OFFSET 4 src);
           actual = crc (take IDENTITY_PREFIX_LEN src)
       in if actual \<noteq> expected then Inl (CrcMismatch expected actual)
          else Inr \<lparr>ti_tx_id = slice 16 32 src, ti_utxo_count = le_val (slice 12 4 src),
                    ti_locktime = le_val (slice 52 4 src)\<rparr>)"

definition compute_crc :: "(bytes \<Rightarrow> u32) \<Rightarrow> tx_metadata \<Rightarrow> u32" where
  "compute_crc crc m =
    (let b = meta_raw m;
         b = overwrite IDENTITY_CRC_OFFSET (u32_le (crc (take IDENTITY_PREFIX_LEN b))) b
     in crc (overwrite CRC32_OFFSET (replicate 4 0) b))"

text \<open>The header as it stands on the device: both checksums stamped.\<close>

definition stamped :: "(bytes \<Rightarrow> u32) \<Rightarrow> tx_metadata \<Rightarrow> tx_metadata" where
  "stamped crc m = m\<lparr>identity_crc := crc (take IDENTITY_PREFIX_LEN (meta_raw m)),
                     crc32 := compute_crc crc m\<rparr>"

section \<open>Deleted-record marker\<close>

definition DELETED_RECORD_MAGIC :: u32 where "DELETED_RECORD_MAGIC = 0x444C4544"
definition DELETED_RECORD_MARKER_SIZE :: nat where "DELETED_RECORD_MARKER_SIZE = 16"
definition DELETED_RECORD_MARKER_CRC_OFFSET :: nat where "DELETED_RECORD_MARKER_CRC_OFFSET = 12"

lemmas marker_consts = DELETED_RECORD_MAGIC_def DELETED_RECORD_MARKER_SIZE_def
  DELETED_RECORD_MARKER_CRC_OFFSET_def

record deleted_record_marker =
  marker_magic :: u32
  marker_record_size :: u64
  marker_crc32 :: u32

definition new_marker :: "u64 \<Rightarrow> deleted_record_marker" where
  "new_marker n = \<lparr>marker_magic = DELETED_RECORD_MAGIC, marker_record_size = n, marker_crc32 = 0\<rparr>"

definition marker_raw :: "deleted_record_marker \<Rightarrow> bytes" where
  "marker_raw k = u32_le (marker_magic k) @ u64_le (marker_record_size k) @ u32_le (marker_crc32 k)"

definition marker_to_bytes :: "(bytes \<Rightarrow> u32) \<Rightarrow> deleted_record_marker \<Rightarrow> bytes" where
  "marker_to_bytes crc k =
    (let b = overwrite DELETED_RECORD_MARKER_CRC_OFFSET (replicate 4 0) (marker_raw k)
     in overwrite DELETED_RECORD_MARKER_CRC_OFFSET (u32_le (crc b)) b)"

definition marker_try_parse :: "(bytes \<Rightarrow> u32) \<Rightarrow> bytes \<Rightarrow> deleted_record_marker option" where
  "marker_try_parse crc src =
    (if length src < DELETED_RECORD_MARKER_SIZE then None
     else if le_val (slice 0 4 src) \<noteq> DELETED_RECORD_MAGIC then None
     else
       let expected = le_val (slice DELETED_RECORD_MARKER_CRC_OFFSET 4 src);
           buf = overwrite DELETED_RECORD_MARKER_CRC_OFFSET (replicate 4 0)
                   (take DELETED_RECORD_MARKER_SIZE src)
       in if crc buf \<noteq> expected then None
          else Some \<lparr>marker_magic = le_val (slice 0 4 src),
                     marker_record_size = le_val (slice 4 8 src),
                     marker_crc32 = le_val (slice 12 4 src)\<rparr>)"

section \<open>Generation order\<close>

definition GENERATION_ORDER_WINDOW :: u32 where "GENERATION_ORDER_WINDOW = 0x80000000"

definition generation_target_ahead :: "u32 \<Rightarrow> u32 \<Rightarrow> bool" where
  "generation_target_ahead local target =
    (let delta = target - local in delta \<noteq> 0 \<and> delta < GENERATION_ORDER_WINDOW)"

definition generation_at_or_ahead :: "u32 \<Rightarrow> u32 \<Rightarrow> bool" where
  "generation_at_or_ahead local target \<longleftrightarrow> \<not> generation_target_ahead local target"

section \<open>Slot lemmas\<close>

lemma status_distinct [simp]:
  "UTXO_UNSPENT \<noteq> UTXO_SPENT" "UTXO_SPENT \<noteq> UTXO_UNSPENT"
  "UTXO_UNSPENT \<noteq> UTXO_PRUNED" "UTXO_PRUNED \<noteq> UTXO_UNSPENT"
  "UTXO_UNSPENT \<noteq> UTXO_FROZEN" "UTXO_FROZEN \<noteq> UTXO_UNSPENT"
  "UTXO_SPENT \<noteq> UTXO_PRUNED" "UTXO_PRUNED \<noteq> UTXO_SPENT"
  "UTXO_SPENT \<noteq> UTXO_FROZEN" "UTXO_FROZEN \<noteq> UTXO_SPENT"
  "UTXO_PRUNED \<noteq> UTXO_FROZEN" "UTXO_FROZEN \<noteq> UTXO_PRUNED"
  by (simp_all add: status_consts)

lemma slot_constructors [simp]:
  "slot_hash (new_unspent h) = h" "status (new_unspent h) = UTXO_UNSPENT"
  "slot_hash (new_frozen h) = h" "status (new_frozen h) = UTXO_FROZEN"
  "slot_hash (new_frozen_with_cooldown h c) = h" "status (new_frozen_with_cooldown h c) = UTXO_FROZEN"
  "slot_hash (new_unspent_with_cooldown h c) = h"
  "status (new_unspent_with_cooldown h c) = UTXO_UNSPENT"
  "slot_hash (new_spent h d) = h" "status (new_spent h d) = UTXO_SPENT"
  "spending_data (new_spent h d) = d" "spending_data (new_unspent h) = replicate 36 0"
  "spending_data (new_frozen h) = replicate 36 FROZEN_BYTE"
  by (simp_all add: slot_defs)

lemma wf_slot_constructors [simp]:
  "wf_slot (new_unspent h) \<longleftrightarrow> length h = 32"
  "wf_slot (new_frozen h) \<longleftrightarrow> length h = 32"
  "wf_slot (new_frozen_with_cooldown h c) \<longleftrightarrow> length h = 32"
  "wf_slot (new_unspent_with_cooldown h c) \<longleftrightarrow> length h = 32"
  "wf_slot (new_spent h d) \<longleftrightarrow> length h = 32 \<and> length d = 36"
  by (simp_all add: wf_slot_def slot_defs)

lemma cooldown_simps [simp]:
  "reassignment_cooldown (new_unspent h) = 0"
  "reassignment_cooldown (new_frozen_with_cooldown h c) = c"
  "reassignment_cooldown (new_unspent_with_cooldown h c) = c"
  by (simp_all add: reassignment_cooldown_def slot_defs slice_def overwrite_def)

lemma new_unspent_with_cooldown_0: "new_unspent_with_cooldown h 0 = new_unspent h"
  by (simp add: slot_defs overwrite_def flip: replicate_add)

lemma new_frozen_cooldown: "reassignment_cooldown (new_frozen h) = 0xFFFFFFFF"
proof -
  have "replicate 4 x = [x, x, x, x]" for x :: u8 by (simp add: eval_nat_numeral)
  then show ?thesis by (simp add: reassignment_cooldown_def slot_defs slice_def FROZEN_BYTE_def)
qed

lemma length_slot_to_bytes [simp]: "wf_slot s \<Longrightarrow> length (slot_to_bytes crc s) = UTXO_SLOT_SIZE"
  by (simp add: wf_slot_def slot_to_bytes_def slot_payload_def record_consts)

lemma slot_roundtrip_rest:
  assumes "wf_slot s"
  shows "slot_from_bytes crc (slot_to_bytes crc s @ rest) = Inr s"
proof -
  have p: "length (slot_payload s) = 69" using assms by (simp add: wf_slot_def slot_payload_def)
  have "slice 0 32 (slot_payload s @ xs) = slot_hash s" "(slot_payload s @ xs) ! 32 = status s"
    "slice 33 36 (slot_payload s @ xs) = spending_data s" for xs
    using assms by (simp_all add: wf_slot_def slot_payload_def slice_def nth_append)
  moreover have "slice 69 4 (slot_payload s @ u32_le c @ rest) = u32_le c" for c
    using p by (simp add: slice_def)
  moreover have "slice 0 69 (slot_payload s @ xs) = slot_payload s" for xs
    using p by (simp add: slice_def)
  ultimately show ?thesis
    using p by (simp add: slot_from_bytes_def slot_to_bytes_def record_consts)
qed

lemma slot_payload_parse:
  assumes "73 \<le> length src"
  shows "slot_payload \<lparr>slot_hash = slice 0 32 src, status = src ! 32, spending_data = slice 33 36 src\<rparr>
    = slice 0 69 src"
proof -
  have "[src ! 32] = slice 32 1 src" using assms by (intro slice_singleton) simp
  then have "slice 0 32 src @ [src ! 32] @ slice 33 36 src = slice 0 69 src"
    using assms by (simp add: slice_join)
  then show ?thesis by (simp add: slot_payload_def)
qed

lemma slot_from_bytes_image:
  assumes "slot_from_bytes crc src = Inr s"
  shows "wf_slot s \<and> UTXO_SLOT_SIZE \<le> length src \<and> take UTXO_SLOT_SIZE src = slot_to_bytes crc s"
proof -
  let ?s = "\<lparr>slot_hash = slice 0 32 src, status = src ! 32, spending_data = slice 33 36 src\<rparr>"
  have len: "73 \<le> length src" and s: "s = ?s"
    and crc: "crc (slice 0 69 src) = le_val (slice 69 4 src)"
    using assms by (auto simp: slot_from_bytes_def record_consts Let_def split: if_splits)
  have "slot_to_bytes crc s = slice 0 69 src @ slice 69 4 src"
    unfolding s slot_to_bytes_def slot_payload_parse [OF len] using crc len by simp
  then have "slot_to_bytes crc s = take 73 src" by (simp add: slice_join) (simp add: slice_def)
  then show ?thesis using len by (simp add: s wf_slot_def record_consts)
qed

section \<open>Flag lemmas\<close>

lemma and_bit_eq: "n < 8 \<Longrightarrow> f AND 2 ^ n = 2 ^ n \<longleftrightarrow> bit (f :: u8) n"
proof -
  assume n: "n < 8"
  have "f AND 2 ^ n = (if bit f n then 2 ^ n else 0)" by (rule bit_word_eqI) (auto simp: bit_and_iff bit_exp_iff)
  moreover have "(2 :: u8) ^ n \<noteq> 0" using n by (simp add: exp_eq_zero_iff)
  ultimately show ?thesis by simp
qed

lemma flag_bits:
  "flag_contains f IS_COINBASE \<longleftrightarrow> bit f 0" "flag_contains f CONFLICTING \<longleftrightarrow> bit f 1"
  "flag_contains f LOCKED \<longleftrightarrow> bit f 2" "flag_contains f EXTERNAL \<longleftrightarrow> bit f 3"
  "flag_contains f LAST_SPENT_ALL \<longleftrightarrow> bit f 4"
  "flag_contains f HAS_PRESERVE_UNTIL \<longleftrightarrow> bit f 5" "flag_contains f REASSIGNED \<longleftrightarrow> bit f 6"
  using and_bit_eq [of 0 f] and_bit_eq [of 1 f] and_bit_eq [of 2 f] and_bit_eq [of 3 f]
    and_bit_eq [of 4 f] and_bit_eq [of 5 f] and_bit_eq [of 6 f]
  by (simp_all add: flag_contains_def flag_consts)

lemma bit_pow_u8: "n < 8 \<Longrightarrow> bit ((2 :: u8) ^ n) i \<longleftrightarrow> i = n"
  by (auto simp: bit_exp_iff)

lemma flag_pow:
  "IS_COINBASE = 2 ^ 0" "CONFLICTING = 2 ^ 1" "LOCKED = 2 ^ 2" "EXTERNAL = 2 ^ 3"
  "LAST_SPENT_ALL = 2 ^ 4" "HAS_PRESERVE_UNTIL = 2 ^ 5" "REASSIGNED = 2 ^ 6"
  by (simp_all add: flag_consts)

lemma bit_flag_consts:
  "bit IS_COINBASE i \<longleftrightarrow> i = 0" "bit CONFLICTING i \<longleftrightarrow> i = 1" "bit LOCKED i \<longleftrightarrow> i = 2"
  "bit EXTERNAL i \<longleftrightarrow> i = 3" "bit LAST_SPENT_ALL i \<longleftrightarrow> i = 4"
  "bit HAS_PRESERVE_UNTIL i \<longleftrightarrow> i = 5" "bit REASSIGNED i \<longleftrightarrow> i = 6"
  unfolding flag_pow by (rule bit_pow_u8; simp)+

lemma bit_flag_ops:
  "bit (flag_insert f g) i \<longleftrightarrow> bit f i \<or> bit g i"
  "bit (flag_remove f g) i \<longleftrightarrow> bit f i \<and> \<not> bit g i"
  "bit (flag_set f g v) i \<longleftrightarrow> (if bit g i then v \<and> bit g i else bit f i)"
  by (auto simp: flag_insert_def flag_remove_def flag_set_def bit_or_iff bit_and_iff bit_not_iff
      possible_bit_def dest: bit_imp_le_length)

lemmas flag_simps = flag_bits bit_flag_ops bit_flag_consts

section \<open>Header lemmas\<close>

lemma length_external_ref_raw [simp]:
  "length (content_hash r) = 32 \<Longrightarrow> length (external_ref_raw r) = 65"
  by (simp add: external_ref_raw_def)

lemma external_ref_parse_raw [codec]:
  "length (content_hash r) = 32 \<Longrightarrow> external_ref_parse (external_ref_raw r) = r"
  by (simp add: external_ref_parse_def external_ref_raw_def codec nth_append slice_Cons)

lemma length_meta_raw [simp]: "wf_meta m \<Longrightarrow> length (meta_raw m) = METADATA_SIZE"
  by (simp add: wf_meta_def meta_raw_def record_consts)

lemma meta_parse_raw [codec]: "wf_meta m \<Longrightarrow> meta_parse (meta_raw m) = m"
  by (simp add: wf_meta_def meta_parse_def meta_raw_def codec nth_append slice_Cons record_consts)

lemma external_ref_raw_parse [codec]:
  assumes "length b = 65"
  shows "external_ref_raw (external_ref_parse b) = b"
proof -
  have "0 < length b" using assms by linarith
  then have "[b ! 0] = slice 0 1 b" by (rule slice_singleton)
  then show ?thesis
    using assms
    by (simp add: external_ref_parse_def external_ref_raw_def slice_join slice_all
        del: append_Cons append.simps)
qed

lemma meta_raw_parse [codec]:
  assumes "length b = 256"
  shows "meta_raw (meta_parse b) = b"
proof -
  have "[b ! 84] = slice 84 1 b" "[b ! 125] = slice 125 1 b" "[b ! 203] = slice 203 1 b"
    "[b ! 212] = slice 212 1 b" using assms by (simp_all add: slice_singleton)
  then show ?thesis
    using assms
    by (simp add: meta_parse_def meta_raw_def external_ref_raw_parse slice_join slice_all
        del: append_Cons append.simps)
qed

lemma wf_meta_parse: "length b = 256 \<Longrightarrow> wf_meta (meta_parse b)"
  by (simp add: wf_meta_def meta_parse_def external_ref_parse_def slice_slice METADATA_PADDING_def)

lemma meta_stamp_identity [codec]:
  "wf_meta m \<Longrightarrow> overwrite 56 (u32_le c) (meta_raw m) = meta_raw (m\<lparr>identity_crc := c\<rparr>)"
  by (simp add: wf_meta_def meta_raw_def codec)

lemma meta_stamp_crc [codec]:
  "wf_meta m \<Longrightarrow> overwrite 221 (u32_le c) (meta_raw m) = meta_raw (m\<lparr>crc32 := c\<rparr>)"
  by (simp add: wf_meta_def meta_raw_def codec)

lemma meta_zero_crc [codec]:
  "wf_meta m \<Longrightarrow> overwrite 221 (replicate 4 0) (meta_raw m) = meta_raw (m\<lparr>crc32 := 0\<rparr>)"
  using meta_stamp_crc [of m 0] by simp

lemma meta_prefix_update [simp]:
  "wf_meta m \<Longrightarrow> take 56 (meta_raw (m\<lparr>identity_crc := c\<rparr>)) = take 56 (meta_raw m)"
  "wf_meta m \<Longrightarrow> take 56 (meta_raw (m\<lparr>crc32 := c\<rparr>)) = take 56 (meta_raw m)"
  by (simp_all add: wf_meta_def meta_raw_def)

lemma wf_meta_update [simp]:
  "wf_meta (m\<lparr>identity_crc := c\<rparr>) = wf_meta m" "wf_meta (m\<lparr>crc32 := c\<rparr>) = wf_meta m"
  by (simp_all add: wf_meta_def)

lemma wf_stamped [simp]: "wf_meta (stamped crc m) = wf_meta m"
  by (simp add: wf_meta_def stamped_def)

lemma meta_to_bytes_raw: "wf_meta m \<Longrightarrow> meta_to_bytes crc m = meta_raw (stamped crc m)"
  by (simp add: meta_to_bytes_def stamped_def compute_crc_def record_consts Let_def codec)

lemma meta_raw_fields [simp]:
  assumes "wf_meta m"
  shows "slice 221 4 (meta_raw m) = u32_le (crc32 m)"
    "slice 56 4 (meta_raw m) = u32_le (identity_crc m)"
    "slice 16 32 (meta_raw m) = tx_id m"
    "slice 12 4 (meta_raw m) = u32_le (utxo_count m)"
    "slice 52 4 (meta_raw m) = u32_le (locktime m)"
    "slice 0 4 (meta_raw m) = u32_le (magic m)"
  using assms by (simp_all add: wf_meta_def meta_raw_def codec)

lemma meta_roundtrip_rest:
  assumes "wf_meta m"
  shows "meta_from_bytes crc (meta_to_bytes crc m @ rest) = Inr (stamped crc m)"
proof -
  let ?s = "stamped crc m"
  have len: "length (meta_raw ?s) = 256" using assms by (simp add: METADATA_SIZE_def)
  have "overwrite 221 (replicate 4 0) (meta_raw ?s) =
      meta_raw (m\<lparr>identity_crc := crc (take 56 (meta_raw m)), crc32 := 0\<rparr>)"
    using assms by (simp add: meta_zero_crc stamped_def record_consts)
  then have "crc (overwrite 221 (replicate 4 0) (meta_raw ?s)) = crc32 ?s"
    using assms by (simp add: stamped_def compute_crc_def record_consts codec)
  then show ?thesis
    using assms len
    by (simp add: meta_from_bytes_def meta_to_bytes_raw record_consts slice_append_left
        meta_parse_raw)
qed

lemma meta_from_bytes_image:
  assumes "meta_from_bytes crc src = Inr m"
  shows "wf_meta m \<and> METADATA_SIZE \<le> length src \<and> take METADATA_SIZE src = meta_raw m \<and>
    crc32 m = crc (meta_raw (m\<lparr>crc32 := 0\<rparr>))"
proof -
  have len: "256 \<le> length src" and m: "m = meta_parse (take 256 src)"
    and c: "crc (overwrite 221 (replicate 4 0) (take 256 src)) = le_val (slice 221 4 src)"
    using assms by (auto simp: meta_from_bytes_def record_consts Let_def split: if_splits)
  have raw: "meta_raw m = take 256 src" unfolding m using len by (simp add: meta_raw_parse)
  have wf: "wf_meta m" unfolding m using len by (simp add: wf_meta_parse)
  have "crc32 m = le_val (slice 221 4 src)" by (simp add: m meta_parse_def slice_take)
  then show ?thesis
    using raw wf len c meta_zero_crc [OF wf] by (simp add: METADATA_SIZE_def)
qed

lemma meta_from_bytes_crc:
  assumes "wf_meta m" "crc32 m = crc (meta_raw (m\<lparr>crc32 := 0\<rparr>))"
  shows "meta_from_bytes crc (meta_raw m @ rest) = Inr m"
  using assms
  by (simp add: meta_from_bytes_def record_consts slice_append_left meta_parse_raw meta_zero_crc
      length_meta_raw [unfolded METADATA_SIZE_def])

lemma compute_crc_is_stored:
  "wf_meta m \<Longrightarrow> le_val (slice CRC32_OFFSET 4 (meta_to_bytes crc m)) = compute_crc crc m"
  by (simp add: meta_to_bytes_raw record_consts stamped_def)

lemma identity_of_header:
  assumes "wf_meta m" "n \<ge> IDENTITY_CRC_OFFSET + 4"
  shows "read_identity_from crc (take n (meta_to_bytes crc m)) =
    Inr \<lparr>ti_tx_id = tx_id m, ti_utxo_count = utxo_count m, ti_locktime = locktime m\<rparr>"
proof -
  have "length (meta_raw (stamped crc m)) = 256" using assms by (simp add: METADATA_SIZE_def)
  moreover have "60 \<le> n" using assms(2) by (simp add: record_consts)
  moreover have "take 56 (meta_raw (stamped crc m)) = take 56 (meta_raw m)"
    using assms by (simp add: stamped_def)
  ultimately show ?thesis
    using assms(1)
    by (simp add: read_identity_from_def meta_to_bytes_raw record_consts slice_take min_def)
      (simp add: stamped_def record_consts Let_def slice_take)
qed

section \<open>Marker lemmas\<close>

lemma marker_to_bytes_raw:
  "marker_to_bytes crc k = marker_raw (k\<lparr>marker_crc32 := crc (marker_raw (k\<lparr>marker_crc32 := 0\<rparr>))\<rparr>)"
  by (simp add: marker_to_bytes_def marker_raw_def marker_consts codec)

lemma length_marker_raw [simp]: "length (marker_raw k) = 16"
  by (simp add: marker_raw_def)

lemma marker_fields [simp]:
  "slice 0 4 (marker_raw k) = u32_le (marker_magic k)"
  "slice 4 8 (marker_raw k) = u64_le (marker_record_size k)"
  "slice 12 4 (marker_raw k) = u32_le (marker_crc32 k)"
  "overwrite 12 (replicate 4 0) (marker_raw k) = marker_raw (k\<lparr>marker_crc32 := 0\<rparr>)"
  by (simp_all add: marker_raw_def codec)

lemma marker_roundtrip_rest:
  "map_option marker_record_size (marker_try_parse crc (marker_to_bytes crc (new_marker n) @ rest)) = Some n"
  by (simp add: marker_try_parse_def marker_to_bytes_raw marker_consts slice_append_left
      new_marker_def Let_def)

lemma marker_rejects_header:
  "wf_meta m \<Longrightarrow> magic m = METADATA_MAGIC \<Longrightarrow> marker_try_parse crc (meta_to_bytes crc m @ rest) = None"
  by (simp add: marker_try_parse_def meta_to_bytes_raw slice_append_left stamped_def record_consts
      marker_consts)

lemma header_rejects_marker:
  assumes "meta_from_bytes crc (marker_to_bytes crc (new_marker n) @ rest) = Inr m"
  shows "magic m = DELETED_RECORD_MAGIC"
  using assms
  by (auto simp: meta_from_bytes_def meta_parse_def marker_to_bytes_raw slice_append_left
      new_marker_def record_consts Let_def slice_take split: if_splits)

section \<open>Generation-order lemmas\<close>

lemma generation_antisym:
  "generation_target_ahead a b \<Longrightarrow> \<not> generation_target_ahead b a"
proof -
  have "\<not> - d < 0x80000000" if "d \<noteq> 0" "d < 0x80000000" for d :: u32
  proof
    assume "- d < 0x80000000"
    then have "(unat d + unat (- d)) mod 2 ^ 32 = unat d + unat (- d)"
      using that by (simp add: word_less_nat_alt)
    moreover have "unat (d + (- d)) = (unat d + unat (- d)) mod 2 ^ 32"
      by (subst unat_word_ariths(1)) simp
    ultimately show False using that by (simp add: unat_eq_zero)
  qed
  from this [of "b - a"] show "generation_target_ahead a b \<Longrightarrow> \<not> generation_target_ahead b a"
    by (simp add: generation_target_ahead_def GENERATION_ORDER_WINDOW_def)
qed

lemma generation_step_ahead:
  assumes "0 < k" "k < 2 ^ 31"
  shows "generation_target_ahead g (g + of_nat k)"
proof -
  have "unat (of_nat k :: u32) = k" using assms by (simp add: unat_of_nat)
  then show ?thesis
    using assms
    by (simp add: generation_target_ahead_def GENERATION_ORDER_WINDOW_def word_less_nat_alt
        unat_eq_zero [symmetric] del: unat_eq_zero)
qed

section \<open>Properties\<close>

text \<open>C8: a 73-byte slot image is accepted exactly when it is the serialisation of a well-formed
  slot, and the decoded slot is that slot: encoding round-trips, and no torn or foreign image whose
  checksum disagrees is ever decoded.\<close>
theorem slot_codec_exact:
  "slot_from_bytes crc src = Inr s \<longleftrightarrow>
    wf_slot s \<and> UTXO_SLOT_SIZE \<le> length src \<and> take UTXO_SLOT_SIZE src = slot_to_bytes crc s"
proof
  assume "wf_slot s \<and> UTXO_SLOT_SIZE \<le> length src \<and> take UTXO_SLOT_SIZE src = slot_to_bytes crc s"
  then show "slot_from_bytes crc src = Inr s"
    using slot_roundtrip_rest [of s crc "drop UTXO_SLOT_SIZE src"]
    by (metis append_take_drop_id)
qed (rule slot_from_bytes_image)

text \<open>C9: writing a header and reading it back yields the same header with its two checksums
  stamped; the stored checksum is the one that the targeted-write path recomputes with
  \<open>compute_crc\<close>; and the first cache line alone yields the immutable identity.\<close>
theorem header_roundtrip:
  assumes "wf_meta m" "IDENTITY_CRC_OFFSET + 4 \<le> n"
  shows "meta_from_bytes crc (meta_to_bytes crc m @ rest) = Inr (stamped crc m) \<and>
    le_val (slice CRC32_OFFSET 4 (meta_to_bytes crc m)) = compute_crc crc m \<and>
    read_identity_from crc (take n (meta_to_bytes crc m)) =
      Inr \<lparr>ti_tx_id = tx_id m, ti_utxo_count = utxo_count m, ti_locktime = locktime m\<rparr>"
  using assms by (simp add: meta_roundtrip_rest compute_crc_is_stored identity_of_header)

theorem header_roundtrip_witness:
  "meta_from_bytes (\<lambda>b. of_nat (length b)) (meta_to_bytes (\<lambda>b. of_nat (length b)) (new_metadata 2) @ [7])
    = Inr (stamped (\<lambda>b. of_nat (length b)) (new_metadata 2))"
  by (rule header_roundtrip [THEN conjunct1, of "new_metadata 2" 60])
    (simp_all add: wf_meta_def new_metadata_def external_ref_zeroed_def record_consts)

text \<open>C10: a header image is accepted exactly when it is the packed image of a well-formed header
  whose checksum field covers the image with that field zeroed; shorter inputs and every other
  image are rejected.\<close>
theorem header_codec_exact:
  "meta_from_bytes crc src = Inr m \<longleftrightarrow>
    wf_meta m \<and> METADATA_SIZE \<le> length src \<and> take METADATA_SIZE src = meta_raw m \<and>
    crc32 m = crc (meta_raw (m\<lparr>crc32 := 0\<rparr>))"
proof
  assume "wf_meta m \<and> METADATA_SIZE \<le> length src \<and> take METADATA_SIZE src = meta_raw m \<and>
    crc32 m = crc (meta_raw (m\<lparr>crc32 := 0\<rparr>))"
  then show "meta_from_bytes crc src = Inr m"
    using meta_from_bytes_crc [of m crc "drop METADATA_SIZE src"]
    by (metis append_take_drop_id)
qed (rule meta_from_bytes_image)

text \<open>C11: a device scan tells deleted and live records apart.  The marker written by a delete
  parses back with the freed length whatever bytes follow it; a live header never parses as a
  marker; and if a marker image should pass the header checksum, the header it yields does not
  carry the live magic.\<close>
theorem scan_classifies_headers:
  assumes "wf_meta m" "magic m = METADATA_MAGIC"
  shows "map_option marker_record_size
      (marker_try_parse crc (marker_to_bytes crc (new_marker n) @ rest)) = Some n \<and>
    marker_try_parse crc (meta_to_bytes crc m @ rest) = None \<and>
    (meta_from_bytes crc (marker_to_bytes crc (new_marker n) @ rest) = Inr m' \<longrightarrow>
      magic m' \<noteq> METADATA_MAGIC)"
  using assms header_rejects_marker [of crc n rest m']
  by (auto simp: marker_roundtrip_rest marker_rejects_header METADATA_MAGIC_def
      DELETED_RECORD_MAGIC_def)

theorem scan_classifies_headers_witness:
  "marker_try_parse (\<lambda>b. of_nat (length b)) (meta_to_bytes (\<lambda>b. of_nat (length b)) (new_metadata 2) @ []) = None"
  by (rule scan_classifies_headers [THEN conjunct2, THEN conjunct1])
    (simp_all add: wf_meta_def new_metadata_def external_ref_zeroed_def record_consts)

text \<open>C22: the wrapping generation order.  Up to \<open>2^31 - 1\<close> further mutations a record is always
  seen as ahead of its earlier self and never the other way round, across the wrap of the 32-bit
  counter.\<close>
theorem generation_order_sound:
  assumes "0 < k" "k < 2 ^ 31"
  shows "generation_target_ahead g (g + of_nat k) \<and> generation_at_or_ahead (g + of_nat k) g"
  using generation_step_ahead [OF assms] generation_antisym
  by (auto simp: generation_at_or_ahead_def)

theorem generation_order_sound_witness:
  "generation_target_ahead 0xFFFFFFFF (0xFFFFFFFF + of_nat 1) \<and>
   generation_at_or_ahead (0xFFFFFFFF + of_nat 1) 0xFFFFFFFF"
  by (rule generation_order_sound) simp_all

end
