(* ===== verification/Op_Types.thy ===== *)
theory Op_Types
  imports Tx_Record
begin

text \<open>
  Result vocabulary of the engine operations: the errors of \<open>src/src/ops/error.rs\<close> and the
  follow-up signals of \<open>src/src/ops/signal.rs\<close>.  The free-text payload of a storage error carries
  no decision of the program and is dropped.
\<close>

type_synonym txkey = bytes

datatype spend_error =
    TxNotFound
  | Conflicting
  | Locked
  | CoinbaseImmature u32 u32
  | UtxoNotFound u32
  | UtxoHashMismatch u32
  | AlreadySpent u32 bytes
  | Frozen u32
  | FrozenUntil u32 u32
  | InvalidSpend u32 bytes
  | Pruned u32 bytes
  | AlreadyFrozen u32
  | NotFrozen u32
  | StorageError
  | BlobNotFound bytes
  | DahOverflow u32 u32
  | ReassignOverflow u32 u32
  | DeletedChildren u32 u8
  | ReservedSpendingData u32
  | NotDue
  | ConflictingChildrenFull nat
  | BlockEntriesFull nat
  | ColdDataInconsistent u64 u64

datatype signal =
    SigNone | SigAllSpent | SigNotAllSpent | SigDeleteAtHeightSet | SigDeleteAtHeightUnset | SigPreserve

fun to_wire :: "signal \<Rightarrow> u8" where
  "to_wire SigNone = 0"
| "to_wire SigAllSpent = 1"
| "to_wire SigNotAllSpent = 2"
| "to_wire SigDeleteAtHeightSet = 3"
| "to_wire SigDeleteAtHeightUnset = 4"
| "to_wire SigPreserve = 5"

lemma to_wire_inj: "to_wire a = to_wire b \<longleftrightarrow> a = b"
  by (cases a; cases b) simp_all

end
