(* ===== verification/Delete_Eval.thy ===== *)
theory Delete_Eval
  imports Op_Types
begin

text \<open>
  The delete-at-height (DAH) evaluation of \<open>src/src/ops/delete_eval.rs\<close>.  The source keeps two
  independent copies of the decision tree: \<open>evaluate_delete_at_height\<close> works on the on-device
  metadata and \<open>evaluate_dah_from_ram\<close> on values cached in RAM (with \<open>evaluate_dah_cached\<close> as a
  wrapper).  Both copies are translated separately and proved to agree; the outcome is then
  characterised by an abstract specification.
\<close>

section \<open>Model\<close>

record dah_patch =
  new_delete_at_height :: u32
  last_spent_all :: bool

type_synonym dah_eval_result = "spend_error + (signal \<times> dah_patch option)"

definition checked_new_dah :: "u32 \<Rightarrow> u32 \<Rightarrow> spend_error + u32" where
  "checked_new_dah current_height retention =
    (case checked_add current_height retention of
       Some h \<Rightarrow> Inr h
     | None \<Rightarrow> Inl (DahOverflow current_height retention))"

definition evaluate_delete_at_height ::
  "tx_metadata \<Rightarrow> bool \<Rightarrow> u32 \<Rightarrow> u32 \<Rightarrow> u32 \<Rightarrow> dah_eval_result" where
  "evaluate_delete_at_height meta has_blocks unmined current_height retention =
    (if retention = 0 then Inr (SigNone, None)
     else if preserve_until meta \<noteq> 0 then Inr (SigNone, None)
     else
       let existing_dah = delete_at_height meta in
       case checked_new_dah current_height retention of
         Inl e \<Rightarrow> Inl e
       | Inr new_dah \<Rightarrow>
         let is_external = flag_contains (flags meta) EXTERNAL in
         if flag_contains (flags meta) CONFLICTING then
           (if existing_dah = 0 then
              Inr (if is_external then SigDeleteAtHeightSet else SigNone,
                   Some \<lparr>new_delete_at_height = new_dah,
                         last_spent_all = flag_contains (flags meta) LAST_SPENT_ALL\<rparr>)
            else Inr (SigNone, None))
         else
           let all_spent = (spent_utxos meta = utxo_count meta \<and> \<not> flag_contains (flags meta) REASSIGNED);
               on_longest_chain = (unmined = 0);
               was_all_spent = flag_contains (flags meta) LAST_SPENT_ALL in
           if all_spent \<and> has_blocks \<and> on_longest_chain then
             (if existing_dah = 0 \<or> existing_dah < new_dah then
                Inr (if is_external then SigDeleteAtHeightSet else SigNone,
                     Some \<lparr>new_delete_at_height = new_dah,
                           last_spent_all = (if \<not> was_all_spent then True else was_all_spent)\<rparr>)
              else if \<not> was_all_spent then
                Inr (SigNone, Some \<lparr>new_delete_at_height = existing_dah, last_spent_all = True\<rparr>)
              else Inr (SigNone, None))
           else if existing_dah \<noteq> 0 then
             Inr (if is_external then SigDeleteAtHeightUnset else SigNone,
                  Some \<lparr>new_delete_at_height = 0, last_spent_all = False\<rparr>)
           else if all_spent \<noteq> was_all_spent then
             Inr (if all_spent then SigAllSpent else SigNotAllSpent,
                  Some \<lparr>new_delete_at_height = 0, last_spent_all = all_spent\<rparr>)
           else Inr (SigNone, None))"

definition evaluate_dah_from_ram ::
  "u8 \<Rightarrow> bool \<Rightarrow> bool \<Rightarrow> u32 \<Rightarrow> bool \<Rightarrow> u32 \<Rightarrow> u32 \<Rightarrow> u32 \<Rightarrow> dah_eval_result" where
  "evaluate_dah_from_ram tx_flags raw_all_spent has_blocks unmined has_preserve_until dah
      current_height retention =
    (if retention = 0 then Inr (SigNone, None)
     else if has_preserve_until then Inr (SigNone, None)
     else
       let existing_dah = dah in
       case checked_new_dah current_height retention of
         Inl e \<Rightarrow> Inl e
       | Inr new_dah \<Rightarrow>
         let is_external = flag_contains tx_flags EXTERNAL in
         if flag_contains tx_flags CONFLICTING then
           (if existing_dah = 0 then
              Inr (if is_external then SigDeleteAtHeightSet else SigNone,
                   Some \<lparr>new_delete_at_height = new_dah,
                         last_spent_all = flag_contains tx_flags LAST_SPENT_ALL\<rparr>)
            else Inr (SigNone, None))
         else
           let all_spent = (raw_all_spent \<and> \<not> flag_contains tx_flags REASSIGNED);
               on_longest_chain = (unmined = 0);
               was_all_spent = flag_contains tx_flags LAST_SPENT_ALL in
           if all_spent \<and> has_blocks \<and> on_longest_chain then
             (if existing_dah = 0 \<or> existing_dah < new_dah then
                Inr (if is_external then SigDeleteAtHeightSet else SigNone,
                     Some \<lparr>new_delete_at_height = new_dah,
                           last_spent_all = (if \<not> was_all_spent then True else was_all_spent)\<rparr>)
              else if \<not> was_all_spent then
                Inr (SigNone, Some \<lparr>new_delete_at_height = existing_dah, last_spent_all = True\<rparr>)
              else Inr (SigNone, None))
           else if existing_dah \<noteq> 0 then
             Inr (if is_external then SigDeleteAtHeightUnset else SigNone,
                  Some \<lparr>new_delete_at_height = 0, last_spent_all = False\<rparr>)
           else if all_spent \<noteq> was_all_spent then
             Inr (if all_spent then SigAllSpent else SigNotAllSpent,
                  Some \<lparr>new_delete_at_height = 0, last_spent_all = all_spent\<rparr>)
           else Inr (SigNone, None))"

definition evaluate_dah_cached ::
  "u8 \<Rightarrow> u32 \<Rightarrow> u32 \<Rightarrow> u8 \<Rightarrow> u32 \<Rightarrow> bool \<Rightarrow> u32 \<Rightarrow> u32 \<Rightarrow> u32 \<Rightarrow> dah_eval_result" where
  "evaluate_dah_cached tx_flags spent count block_entry_count unmined has_preserve_until
      dah_or_preserve current_height retention =
    evaluate_dah_from_ram tx_flags (spent = count) (block_entry_count > 0) unmined
      has_preserve_until dah_or_preserve current_height retention"

text \<open>\<open>apply_dah_patch\<close> (\<open>src/src/ops/engine.rs\<close>): fold a patch into the header.\<close>

definition apply_dah_patch :: "tx_metadata \<Rightarrow> dah_patch \<Rightarrow> tx_metadata" where
  "apply_dah_patch meta p =
    meta\<lparr>delete_at_height := new_delete_at_height p,
         flags := flag_set (flags meta) LAST_SPENT_ALL (last_spent_all p)\<rparr>"

text \<open>The state the patch leaves behind: the delete height and the last-all-spent bit.\<close>

definition dah_after :: "u32 \<Rightarrow> bool \<Rightarrow> dah_patch option \<Rightarrow> u32 \<times> bool" where
  "dah_after dah lsa p = (case p of None \<Rightarrow> (dah, lsa) | Some q \<Rightarrow> (new_delete_at_height q, last_spent_all q))"

text \<open>The conditions under which an ordinary record may be scheduled for deletion.\<close>

definition dah_eligible :: "tx_metadata \<Rightarrow> bool \<Rightarrow> u32 \<Rightarrow> bool" where
  "dah_eligible meta has_blocks unmined \<longleftrightarrow>
    spent_utxos meta = utxo_count meta \<and> \<not> flag_contains (flags meta) REASSIGNED \<and>
    has_blocks \<and> unmined = 0"

text \<open>The decision tree once the guards are passed, over the six facts it depends on: external,
  conflicting, the last-all-spent bit, all spent, mined on the longest chain, and the two
  heights.\<close>

definition dah_step ::
  "bool \<Rightarrow> bool \<Rightarrow> bool \<Rightarrow> bool \<Rightarrow> bool \<Rightarrow> u32 \<Rightarrow> u32 \<Rightarrow> signal \<times> dah_patch option" where
  "dah_step external conflicting lsa all_spent mined dah new =
    (if conflicting then
       (if dah = 0 then (if external then SigDeleteAtHeightSet else SigNone,
          Some \<lparr>new_delete_at_height = new, last_spent_all = lsa\<rparr>)
        else (SigNone, None))
     else if all_spent \<and> mined then
       (if dah = 0 \<or> dah < new then (if external then SigDeleteAtHeightSet else SigNone,
          Some \<lparr>new_delete_at_height = new, last_spent_all = True\<rparr>)
        else if \<not> lsa then (SigNone, Some \<lparr>new_delete_at_height = dah, last_spent_all = True\<rparr>)
        else (SigNone, None))
     else if dah \<noteq> 0 then (if external then SigDeleteAtHeightUnset else SigNone,
       Some \<lparr>new_delete_at_height = 0, last_spent_all = False\<rparr>)
     else if all_spent \<noteq> lsa then (if all_spent then SigAllSpent else SigNotAllSpent,
       Some \<lparr>new_delete_at_height = 0, last_spent_all = all_spent\<rparr>)
     else (SigNone, None))"

section \<open>Lemmas\<close>

lemmas dah_eval_defs = evaluate_delete_at_height_def evaluate_dah_from_ram_def checked_new_dah_def
  Let_def

lemma evaluators_agree:
  "evaluate_dah_from_ram (flags meta) (spent_utxos meta = utxo_count meta) has_blocks unmined
      (preserve_until meta \<noteq> 0) (delete_at_height meta) current_height retention =
    evaluate_delete_at_height meta has_blocks unmined current_height retention"
  by (simp add: dah_eval_defs)

text \<open>Only four flag bits matter to the RAM evaluator.\<close>

lemma evaluate_dah_flags_cong:
  assumes "bit f 1 = bit g 1" "bit f 3 = bit g 3" "bit f 4 = bit g 4" "bit f 6 = bit g 6"
  shows "evaluate_dah_from_ram f = evaluate_dah_from_ram g"
  by (intro ext) (simp only: dah_eval_defs flag_bits assms)

lemma evaluate_skip:
  "retention = 0 \<or> preserve_until meta \<noteq> 0 \<Longrightarrow>
    evaluate_delete_at_height meta has_blocks unmined height retention = Inr (SigNone, None)"
  by (auto simp: evaluate_delete_at_height_def)

lemma evaluate_overflow:
  "retention \<noteq> 0 \<Longrightarrow> preserve_until meta = 0 \<Longrightarrow> checked_add height retention = None \<Longrightarrow>
    evaluate_delete_at_height meta has_blocks unmined height retention =
      Inl (DahOverflow height retention)"
  by (simp add: dah_eval_defs)

lemma evaluate_step:
  assumes "retention \<noteq> 0" "preserve_until meta = 0" "checked_add height retention = Some d"
  shows "evaluate_delete_at_height meta has_blocks unmined height retention =
    Inr (dah_step (flag_contains (flags meta) EXTERNAL) (flag_contains (flags meta) CONFLICTING)
      (flag_contains (flags meta) LAST_SPENT_ALL)
      (spent_utxos meta = utxo_count meta \<and> \<not> flag_contains (flags meta) REASSIGNED)
      (has_blocks \<and> unmined = 0) (delete_at_height meta) d)"
  using assms by (simp add: dah_eval_defs dah_step_def)

lemma dah_step_settles:
  assumes "d \<noteq> 0" "dah_step x c lsa a m dah d = (s1, Some p1)"
    "dah_step x c (last_spent_all p1) a m (new_delete_at_height p1) d = (s2, Some p2)"
  shows "dah_step x c (last_spent_all p2) a m (new_delete_at_height p2) d = (SigNone, None)"
  using assms by (cases c; cases a; cases m; cases lsa) (auto simp: dah_step_def split: if_splits)

lemma apply_dah_patch_fields [simp]:
  "delete_at_height (apply_dah_patch m p) = new_delete_at_height p"
  "flag_contains (flags (apply_dah_patch m p)) LAST_SPENT_ALL = last_spent_all p"
  "flag_contains (flags (apply_dah_patch m p)) EXTERNAL = flag_contains (flags m) EXTERNAL"
  "flag_contains (flags (apply_dah_patch m p)) CONFLICTING = flag_contains (flags m) CONFLICTING"
  "flag_contains (flags (apply_dah_patch m p)) REASSIGNED = flag_contains (flags m) REASSIGNED"
  "spent_utxos (apply_dah_patch m p) = spent_utxos m"
  "utxo_count (apply_dah_patch m p) = utxo_count m"
  "preserve_until (apply_dah_patch m p) = preserve_until m"
  by (simp_all add: apply_dah_patch_def flag_simps)

section \<open>Properties\<close>

text \<open>C14: the three evaluators agree.  On the values that the callers source from RAM the cached
  evaluators return what the reference evaluator returns on the header, for the error, the signal
  and the patch alike.\<close>
theorem dah_evaluators_agree:
  "evaluate_dah_from_ram (flags meta) (spent_utxos meta = utxo_count meta) (0 < n) unmined
      (preserve_until meta \<noteq> 0) (delete_at_height meta) current_height retention =
    evaluate_delete_at_height meta (0 < n) unmined current_height retention \<and>
   evaluate_dah_cached (flags meta) (spent_utxos meta) (utxo_count meta) n unmined
      (preserve_until meta \<noteq> 0) (delete_at_height meta) current_height retention =
    evaluate_delete_at_height meta (0 < n) unmined current_height retention"
  by (simp add: evaluators_agree evaluate_dah_cached_def)

text \<open>C12: what an evaluation leaves behind.  It fails exactly on height overflow, for an unpreserved record
  with retention enabled.  Preserved records and disabled retention are left alone.  Otherwise the
  delete height and the last-all-spent bit afterwards are determined on every branch: a conflicting
  record gets a delete height once and keeps its bit; an eligible record (all outputs spent, never
  reassigned, mined on the longest chain) has the larger of both heights and the bit set; any other
  record has no delete height, and its bit is cleared when a height was dropped and tracks the
  all-spent state when there was none.  A patch is returned exactly when one of the two changes.  The
  signal reports a changed height of an external record, and a changed bit where no height was
  involved.\<close>
theorem dah_outcome:
  "case evaluate_delete_at_height meta has_blocks unmined current_height retention of
     Inl e \<Rightarrow> e = DahOverflow current_height retention \<and> retention \<noteq> 0 \<and> preserve_until meta = 0 \<and>
       2 ^ 32 \<le> unat current_height + unat retention
   | Inr (sig, p) \<Rightarrow>
       let new = current_height + retention; old = delete_at_height meta;
           was = flag_contains (flags meta) LAST_SPENT_ALL;
           conflicting = flag_contains (flags meta) CONFLICTING;
           eligible = dah_eligible meta has_blocks unmined;
           (dah, lsa) = dah_after old was p
       in if retention \<noteq> 0 \<and> preserve_until meta = 0 then
            unat new = unat current_height + unat retention \<and>
            (dah, lsa) =
              (if conflicting then (if old = 0 then new else old, was)
               else if eligible then (max old new, True)
               else (0, old = 0 \<and> spent_utxos meta = utxo_count meta \<and> \<not> flag_contains (flags meta) REASSIGNED)) \<and>
            (dah = 0 \<longleftrightarrow> \<not> conflicting \<and> \<not> eligible) \<and>
            (p = None \<longleftrightarrow> (dah, lsa) = (old, was)) \<and>
            sig =
              (if dah \<noteq> old then
                 (if \<not> flag_contains (flags meta) EXTERNAL then SigNone
                  else if dah = 0 then SigDeleteAtHeightUnset else SigDeleteAtHeightSet)
               else if eligible \<or> lsa = was then SigNone
               else if lsa then SigAllSpent else SigNotAllSpent)
          else p = None \<and> sig = SigNone"
proof (cases "retention = 0 \<or> preserve_until meta \<noteq> 0")
  case True
  then show ?thesis by (simp only: evaluate_skip) (auto simp: dah_after_def)
next
  case False
  then have g: "retention \<noteq> 0" "preserve_until meta = 0" by simp_all
  show ?thesis
  proof (cases "checked_add current_height retention")
    case None
    then show ?thesis using g by (simp add: evaluate_overflow checked_add_None_iff)
  next
    case (Some h)
    have h: "current_height + retention = h" "unat h = unat current_height + unat retention"
      using Some by (simp_all add: checked_add_unat) (simp add: checked_add_Some_iff)
    have "h \<noteq> 0" using h(2) g(1) by (auto simp: unat_eq_zero)
    then show ?thesis
      unfolding evaluate_step [OF g Some] using h g
      by (auto simp: dah_step_def dah_after_def dah_eligible_def Let_def max_def)
  qed
qed

text \<open>C13: evaluation settles.  With the mined state and the heights unchanged, applying the
  returned patch and evaluating again, at most two patches are ever produced: the third evaluation
  changes nothing.\<close>
theorem dah_settles:
  assumes "evaluate_delete_at_height meta has_blocks unmined h r = Inr (s1, Some p1)"
    and "evaluate_delete_at_height (apply_dah_patch meta p1) has_blocks unmined h r = Inr (s2, Some p2)"
  shows "evaluate_delete_at_height (apply_dah_patch (apply_dah_patch meta p1) p2) has_blocks unmined h r
    = Inr (SigNone, None)"
proof -
  have g: "r \<noteq> 0" "preserve_until meta = 0"
    using assms(1) by (auto simp: evaluate_delete_at_height_def split: if_splits)
  obtain d where d: "checked_add h r = Some d"
    using assms(1) g by (cases "checked_add h r") (simp_all add: evaluate_overflow)
  have "d \<noteq> 0" using checked_add_unat [OF d] g(1) by (auto simp: unat_eq_zero)
  then show ?thesis
    using assms g d by (simp add: evaluate_step dah_step_settles)
qed

theorem dah_settles_witness:
  "let meta = (new_metadata 1)\<lparr>spent_utxos := 1, delete_at_height := 7\<rparr>;
       p1 = \<lparr>new_delete_at_height = 0, last_spent_all = False\<rparr>;
       p2 = \<lparr>new_delete_at_height = 0, last_spent_all = True\<rparr>
   in evaluate_delete_at_height (apply_dah_patch (apply_dah_patch meta p1) p2) False 5 10 3
     = Inr (SigNone, None)"
  unfolding Let_def
  by (rule dah_settles [where ?s1.0 = SigNone and ?s2.0 = SigAllSpent])
    (simp_all add: dah_eval_defs apply_dah_patch_def flag_simps new_metadata_def checked_add_def)

end
