(* ===== verification/Mined_Shard.thy ===== *)
theory Mined_Shard
  imports Delete_Eval "HOL-Library.Multiset"
begin

text \<open>
  One shard of the in-RAM mined-state index of \<open>src/src/index/mined_index.rs\<close>: the slot table with
  its free list, overflow lists for transactions mined in several blocks, height buckets of unmined
  transactions, and the cached flag group that feeds the delete-at-height evaluation.  Every
  operation of the shard is shown to keep \<open>wf_shard\<close>, and the block operations to report what an
  abstract set of blocks would.
\<close>

section \<open>Flags\<close>

definition MINED_ALL_SPENT :: u8 where "MINED_ALL_SPENT = 1"
definition MINED_HAS_OVERFLOW :: u8 where "MINED_HAS_OVERFLOW = 2"
definition MINED_EXTERNAL :: u8 where "MINED_EXTERNAL = 4"
definition MINED_CONFLICTING :: u8 where "MINED_CONFLICTING = 8"
definition MINED_LAST_SPENT_ALL :: u8 where "MINED_LAST_SPENT_ALL = 16"
definition MINED_REASSIGNED :: u8 where "MINED_REASSIGNED = 32"
definition MINED_PRESERVED :: u8 where "MINED_PRESERVED = 64"

definition MINED_DE_FLAG_MASK :: u8 where
  "MINED_DE_FLAG_MASK = MINED_EXTERNAL OR MINED_CONFLICTING OR MINED_LAST_SPENT_ALL OR
    MINED_REASSIGNED OR MINED_PRESERVED"

definition MINED_DE_DEVICE_MASK :: u8 where
  "MINED_DE_DEVICE_MASK = MINED_EXTERNAL OR MINED_CONFLICTING OR MINED_REASSIGNED OR MINED_PRESERVED"

lemmas mined_flag_consts = MINED_ALL_SPENT_def MINED_HAS_OVERFLOW_def MINED_EXTERNAL_def
  MINED_CONFLICTING_def MINED_LAST_SPENT_ALL_def MINED_REASSIGNED_def MINED_PRESERVED_def

definition device_de_flags :: "u8 \<Rightarrow> bool \<Rightarrow> u8" where
  "device_de_flags device_flags has_preserve_until =
    (let de = 0;
         de = (if flag_contains device_flags EXTERNAL then de OR MINED_EXTERNAL else de);
         de = (if flag_contains device_flags CONFLICTING then de OR MINED_CONFLICTING else de);
         de = (if flag_contains device_flags LAST_SPENT_ALL then de OR MINED_LAST_SPENT_ALL else de);
         de = (if flag_contains device_flags REASSIGNED then de OR MINED_REASSIGNED else de)
     in if has_preserve_until then de OR MINED_PRESERVED else de)"

definition tx_flags_from_de_flags :: "u8 \<Rightarrow> u8" where
  "tx_flags_from_de_flags de =
    (let fl = 0;
         fl = (if de AND MINED_EXTERNAL \<noteq> 0 then fl OR EXTERNAL else fl);
         fl = (if de AND MINED_CONFLICTING \<noteq> 0 then fl OR CONFLICTING else fl);
         fl = (if de AND MINED_LAST_SPENT_ALL \<noteq> 0 then fl OR LAST_SPENT_ALL else fl)
     in if de AND MINED_REASSIGNED \<noteq> 0 then fl OR REASSIGNED else fl)"

section \<open>Shards\<close>

record mined_entry =
  me_block_id :: u32
  me_block_height :: u32
  me_subtree_idx :: u32
  me_unmined_since :: u32
  me_flags :: u8
  me_key_fp :: u32

definition key_fp :: "txkey \<Rightarrow> u32" where
  "key_fp key = (if 4 \<le> length key then le_val (slice 0 4 key) else 0)"

definition NO_MINED_SLOT :: u32 where "NO_MINED_SLOT = 0xFFFFFFFF"

record mined_shard =
  entries :: "mined_entry list"
  live :: "bool list"
  free :: "u32 list"
  overflow :: "(u32, block_entry list) hashmap"
  unmined :: "(u32, (u32, txkey) hashmap) hashmap"

definition empty_shard :: mined_shard where
  "empty_shard = \<lparr>entries = [], live = [], free = [], overflow = [], unmined = []\<rparr>"

text \<open>The free list is a stack: its head is the slot pushed last.\<close>

definition shard_alloc :: "mined_shard \<Rightarrow> mined_entry \<Rightarrow> u32 \<times> mined_shard" where
  "shard_alloc sh e =
    (case free sh of
       slot # rest \<Rightarrow>
         (slot, sh\<lparr>entries := (entries sh)[unat slot := e], live := (live sh)[unat slot := True],
                   free := rest\<rparr>)
     | [] \<Rightarrow>
         (of_nat (length (entries sh)),
          sh\<lparr>entries := entries sh @ [e], live := live sh @ [True]\<rparr>))"

definition slot_live :: "mined_shard \<Rightarrow> u32 \<Rightarrow> bool" where
  "slot_live sh slot \<longleftrightarrow> unat slot < length (live sh) \<and> live sh ! unat slot"

definition shard_get :: "mined_shard \<Rightarrow> u32 \<Rightarrow> mined_entry option" where
  "shard_get sh slot =
    (if slot_live sh slot \<and> unat slot < length (entries sh) then Some (entries sh ! unat slot) else None)"

text \<open>A mutation through \<open>get_mut\<close>.\<close>

definition shard_modify :: "mined_shard \<Rightarrow> u32 \<Rightarrow> (mined_entry \<Rightarrow> mined_entry) \<Rightarrow> mined_shard" where
  "shard_modify sh slot f =
    (case shard_get sh slot of
       Some e \<Rightarrow> sh\<lparr>entries := (entries sh)[unat slot := f e]\<rparr>
     | None \<Rightarrow> sh)"

definition bucket_remove :: "mined_shard \<Rightarrow> u32 \<Rightarrow> u32 \<Rightarrow> mined_shard" where
  "bucket_remove sh height slot =
    (case map_of (unmined sh) height of
       Some m \<Rightarrow>
         let m' = AList.delete slot m in
         sh\<lparr>unmined := (if m' = [] then AList.delete height (unmined sh)
                        else AList.update height m' (unmined sh))\<rparr>
     | None \<Rightarrow> sh)"

definition free_slot :: "mined_shard \<Rightarrow> u32 \<Rightarrow> mined_shard" where
  "free_slot sh slot =
    (if slot_live sh slot then
       let sh = (if unat slot < length (entries sh) then
                   let height = me_unmined_since (entries sh ! unat slot) in
                   if height \<noteq> 0 then bucket_remove sh height slot else sh
                 else sh)
       in sh\<lparr>live := (live sh)[unat slot := False], overflow := AList.delete slot (overflow sh),
             free := slot # free sh\<rparr>
     else sh)"

definition set_unmined :: "mined_shard \<Rightarrow> u32 \<Rightarrow> u32 \<Rightarrow> u32 \<Rightarrow> txkey \<Rightarrow> mined_shard" where
  "set_unmined sh slot old_height new_height key =
    (if old_height = new_height then sh
     else
       let sh = (if old_height \<noteq> 0 then bucket_remove sh old_height slot else sh) in
       if new_height \<noteq> 0 then
         let m = (case map_of (unmined sh) new_height of Some m \<Rightarrow> m | None \<Rightarrow> []) in
         sh\<lparr>unmined := AList.update new_height (AList.update slot key m) (unmined sh)\<rparr>
       else sh)"

definition overflow_of :: "mined_shard \<Rightarrow> u32 \<Rightarrow> block_entry list" where
  "overflow_of sh slot = (case map_of (overflow sh) slot of Some v \<Rightarrow> v | None \<Rightarrow> [])"

text \<open>The tail that both branches of \<open>apply_set_mined_locked\<close> share: the longest-chain transition of
  the slot's unmined height.\<close>

definition settle_unmined :: "mined_shard \<Rightarrow> u32 \<Rightarrow> bool \<Rightarrow> txkey \<Rightarrow> u32 \<times> mined_shard" where
  "settle_unmined sh slot on_longest_chain key =
    (let old_unmined = (case shard_get sh slot of Some e \<Rightarrow> me_unmined_since e | None \<Rightarrow> 0);
         new_unmined = (if on_longest_chain then 0 else old_unmined);
         sh = (if on_longest_chain then shard_modify sh slot (\<lambda>e. e\<lparr>me_unmined_since := 0\<rparr>) else sh);
         sh = (if old_unmined \<noteq> new_unmined then set_unmined sh slot old_unmined new_unmined key else sh)
     in (new_unmined, sh))"

record mined_apply_result =
  ar_changed :: bool
  ar_new_unmined_since :: u32

definition apply_set_mined_locked ::
  "mined_shard \<Rightarrow> u32 \<Rightarrow> u32 \<Rightarrow> u32 \<Rightarrow> u32 \<Rightarrow> bool \<Rightarrow> txkey \<Rightarrow> mined_apply_result \<times> mined_shard" where
  "apply_set_mined_locked sh slot block_id block_height subtree_idx on_longest_chain key =
    (case shard_get sh slot of
       None \<Rightarrow> (\<lparr>ar_changed = False, ar_new_unmined_since = 0\<rparr>, sh)
     | Some e \<Rightarrow>
         let already_inline = (me_block_id e \<noteq> 0 \<and> me_block_id e = block_id);
             already_overflow = (\<exists>be \<in> set (overflow_of sh slot). be_block_id be = block_id)
         in if already_inline \<or> already_overflow then
              let (nu, sh) = settle_unmined sh slot on_longest_chain key
              in (\<lparr>ar_changed = False, ar_new_unmined_since = nu\<rparr>, sh)
            else
              let sh = (if me_block_id e = 0 then
                          shard_modify sh slot (\<lambda>e. e\<lparr>me_block_id := block_id,
                            me_block_height := block_height, me_subtree_idx := subtree_idx\<rparr>)
                        else
                          shard_modify
                            (sh\<lparr>overflow := AList.update slot (overflow_of sh slot @
                               [\<lparr>be_block_id = block_id, be_block_height = block_height,
                                 be_subtree_idx = subtree_idx\<rparr>]) (overflow sh)\<rparr>)
                            slot (\<lambda>e. e\<lparr>me_flags := me_flags e OR MINED_HAS_OVERFLOW\<rparr>));
                  (nu, sh) = settle_unmined sh slot on_longest_chain key
              in (\<lparr>ar_changed = True, ar_new_unmined_since = nu\<rparr>, sh))"

text \<open>\<open>Vec::swap_remove\<close>: the last element takes the place of the removed one.\<close>

definition swap_remove :: "nat \<Rightarrow> 'a list \<Rightarrow> 'a list" where
  "swap_remove i xs = butlast (xs[i := last xs])"

fun position :: "('a \<Rightarrow> bool) \<Rightarrow> 'a list \<Rightarrow> nat option" where
  "position P [] = None"
| "position P (x # xs) = (if P x then Some 0 else map_option Suc (position P xs))"

definition unset_inline :: "mined_shard \<Rightarrow> u32 \<Rightarrow> mined_shard" where
  "unset_inline sh slot =
    (case overflow_of sh slot of
       be # rest \<Rightarrow>
         let sh = sh\<lparr>overflow := (if rest = [] then AList.delete slot (overflow sh)
                                  else AList.update slot rest (overflow sh))\<rparr>
         in shard_modify sh slot (\<lambda>e. e\<lparr>me_block_id := be_block_id be,
              me_block_height := be_block_height be, me_subtree_idx := be_subtree_idx be,
              me_flags := (if rest = [] then me_flags e AND NOT MINED_HAS_OVERFLOW else me_flags e)\<rparr>)
     | [] \<Rightarrow>
         let sh = sh\<lparr>overflow := AList.delete slot (overflow sh)\<rparr>
         in shard_modify sh slot (\<lambda>e. e\<lparr>me_block_id := 0, me_block_height := 0,
              me_subtree_idx := 0\<rparr>))"

definition unset_overflow :: "mined_shard \<Rightarrow> u32 \<Rightarrow> u32 \<Rightarrow> block_entry list \<Rightarrow> mined_shard" where
  "unset_overflow sh slot block_id v =
    (let v' = (case position (\<lambda>be. be_block_id be = block_id) v of
                 Some pos \<Rightarrow> swap_remove pos v | None \<Rightarrow> v)
     in if v' = [] then
          shard_modify (sh\<lparr>overflow := AList.delete slot (overflow sh)\<rparr>) slot
            (\<lambda>e. e\<lparr>me_flags := me_flags e AND NOT MINED_HAS_OVERFLOW\<rparr>)
        else sh\<lparr>overflow := AList.update slot v' (overflow sh)\<rparr>)"

definition unset_settle :: "mined_shard \<Rightarrow> u32 \<Rightarrow> u32 \<Rightarrow> txkey \<Rightarrow> mined_shard" where
  "unset_settle sh slot current_height key =
    (let has_blocks = ((case shard_get sh slot of Some e \<Rightarrow> me_block_id e \<noteq> 0 | None \<Rightarrow> False) \<or>
                       map_of (overflow sh) slot \<noteq> None)
     in if \<not> has_blocks then
          let old_unmined = (case shard_get sh slot of Some e \<Rightarrow> me_unmined_since e | None \<Rightarrow> 0);
              sh = shard_modify sh slot (\<lambda>e. e\<lparr>me_unmined_since := current_height\<rparr>)
          in set_unmined sh slot old_unmined current_height key
        else sh)"

definition apply_unset_locked :: "mined_shard \<Rightarrow> u32 \<Rightarrow> u32 \<Rightarrow> u32 \<Rightarrow> txkey \<Rightarrow> mined_shard" where
  "apply_unset_locked sh slot block_id current_height key =
    (case shard_get sh slot of
       None \<Rightarrow> sh
     | Some e \<Rightarrow>
         if me_block_id e = block_id then unset_settle (unset_inline sh slot) slot current_height key
         else (case map_of (overflow sh) slot of
                 Some v \<Rightarrow> unset_settle (unset_overflow sh slot block_id v) slot current_height key
               | None \<Rightarrow> sh))"

definition inline_blocks :: "mined_entry \<Rightarrow> block_entry list" where
  "inline_blocks e = (if me_block_id e \<noteq> 0 then
     [\<lparr>be_block_id = me_block_id e, be_block_height = me_block_height e,
       be_subtree_idx = me_subtree_idx e\<rparr>] else [])"

definition read_mined_state_locked ::
  "mined_shard \<Rightarrow> u32 \<Rightarrow> u32 \<Rightarrow> (block_entry list \<times> u32 \<times> u8 \<times> bool) option" where
  "read_mined_state_locked sh slot fp =
    (case shard_get sh slot of
       None \<Rightarrow> None
     | Some e \<Rightarrow>
         if me_key_fp e \<noteq> fp then None
         else Some (inline_blocks e @ overflow_of sh slot, me_unmined_since e,
                    me_flags e AND MINED_DE_FLAG_MASK, me_flags e AND MINED_ALL_SPENT \<noteq> 0))"

definition block_entry_count :: "mined_shard \<Rightarrow> u32 \<Rightarrow> nat" where
  "block_entry_count sh slot =
    (case shard_get sh slot of Some e \<Rightarrow> (if me_block_id e \<noteq> 0 then 1 else 0) | None \<Rightarrow> 0) +
    length (overflow_of sh slot)"

definition has_block_id :: "mined_shard \<Rightarrow> u32 \<Rightarrow> u32 \<Rightarrow> bool" where
  "has_block_id sh slot block_id \<longleftrightarrow>
    (case shard_get sh slot of Some e \<Rightarrow> me_block_id e \<noteq> 0 \<and> me_block_id e = block_id | None \<Rightarrow> False) \<or>
    (\<exists>be \<in> set (overflow_of sh slot). be_block_id be = block_id)"

definition unmined_below :: "mined_shard \<Rightarrow> u32 \<Rightarrow> u32 list" where
  "unmined_below sh height =
    sort (concat (map (\<lambda>(h, m). if h < height then map fst m else []) (unmined sh)))"

definition unmined_keys_below :: "mined_shard \<Rightarrow> u32 \<Rightarrow> txkey list" where
  "unmined_keys_below sh height =
    concat (map (\<lambda>(h, m). if h < height then map snd m else []) (unmined sh))"

definition fresh_entry :: "txkey \<Rightarrow> u32 \<Rightarrow> mined_entry" where
  "fresh_entry key block_height = \<lparr>me_block_id = 0, me_block_height = 0, me_subtree_idx = 0,
     me_unmined_since = block_height, me_flags = 0, me_key_fp = key_fp key\<rparr>"

definition shard_alloc_created :: "mined_shard \<Rightarrow> txkey \<Rightarrow> u32 \<Rightarrow> u32 \<times> mined_shard" where
  "shard_alloc_created sh key block_height =
    (let (slot, sh) = shard_alloc sh (fresh_entry key block_height)
     in (slot, set_unmined sh slot 0 block_height key))"

datatype mined_transition =
    TransSet (tr_block_id: u32) u32 u32 bool
  | TransUnset (tr_block_id: u32) u32

record mined_transition_state =
  ts_block_entries :: "block_entry list"
  ts_unmined_since :: u32
  ts_de_flags :: u8
  ts_all_spent :: bool

datatype mined_transition_outcome = Applied mined_transition_state | OutcomeFull | SlotAbsent

definition apply_transition_locked ::
  "mined_shard \<Rightarrow> txkey \<Rightarrow> u32 \<Rightarrow> mined_transition \<Rightarrow> mined_transition_outcome \<times> mined_shard" where
  "apply_transition_locked sh key slot tr =
    (let fp = key_fp key;
         absent = (case shard_get sh slot of Some e \<Rightarrow> me_key_fp e \<noteq> fp | None \<Rightarrow> True);
         finish = (\<lambda>sh. (case read_mined_state_locked sh slot fp of
            Some (bes, um, de, al) \<Rightarrow>
              Applied \<lparr>ts_block_entries = bes, ts_unmined_since = um, ts_de_flags = de, ts_all_spent = al\<rparr>
          | None \<Rightarrow> SlotAbsent, sh))
     in if absent then (SlotAbsent, sh)
        else case tr of
          TransSet block_id block_height subtree_idx on_longest_chain \<Rightarrow>
            if \<not> has_block_id sh slot block_id \<and> 255 \<le> block_entry_count sh slot then (OutcomeFull, sh)
            else finish (snd (apply_set_mined_locked sh slot block_id block_height subtree_idx
                                on_longest_chain key))
        | TransUnset block_id current_height \<Rightarrow>
            finish (apply_unset_locked sh slot block_id current_height key))"

definition longest_chain_locked :: "mined_shard \<Rightarrow> u32 \<Rightarrow> bool \<Rightarrow> u32 \<Rightarrow> txkey \<Rightarrow> mined_shard" where
  "longest_chain_locked sh slot on_longest_chain current_height key =
    (case shard_get sh slot of
       None \<Rightarrow> sh
     | Some e \<Rightarrow>
         let new_unmined = (if on_longest_chain then 0 else current_height)
         in set_unmined (shard_modify sh slot (\<lambda>e. e\<lparr>me_unmined_since := new_unmined\<rparr>)) slot
              (me_unmined_since e) new_unmined key)"

section \<open>Well-formedness\<close>

text \<open>Views of a shard: the bucket membership of a slot and the block list it reports.\<close>

definition bucket :: "mined_shard \<Rightarrow> u32 \<Rightarrow> u32 \<Rightarrow> txkey option" where
  "bucket sh height slot = (case map_of (unmined sh) height of Some m \<Rightarrow> map_of m slot | None \<Rightarrow> None)"

definition blocks_of :: "mined_shard \<Rightarrow> u32 \<Rightarrow> block_entry list" where
  "blocks_of sh slot =
    (case shard_get sh slot of Some e \<Rightarrow> inline_blocks e | None \<Rightarrow> []) @ overflow_of sh slot"

definition wf_entry :: "mined_shard \<Rightarrow> u32 \<Rightarrow> mined_entry \<Rightarrow> bool" where
  "wf_entry sh slot e \<longleftrightarrow>
    distinct (map be_block_id (inline_blocks e @ overflow_of sh slot)) \<and>
    (\<forall>be \<in> set (overflow_of sh slot). be_block_id be \<noteq> 0) \<and>
    (overflow_of sh slot \<noteq> [] \<longrightarrow> me_block_id e \<noteq> 0) \<and>
    (bit (me_flags e) 1 \<longleftrightarrow> overflow_of sh slot \<noteq> []) \<and>
    (\<forall>h. bucket sh h slot = None \<longleftrightarrow> h = 0 \<or> me_unmined_since e \<noteq> h)"

definition wf_shard :: "mined_shard \<Rightarrow> bool" where
  "wf_shard sh \<longleftrightarrow>
    length (live sh) = length (entries sh) \<and> length (entries sh) < 2 ^ 32 \<and>
    distinct (free sh) \<and>
    set (free sh) = {slot. unat slot < length (entries sh) \<and> \<not> slot_live sh slot} \<and>
    (\<forall>slot v. map_of (overflow sh) slot = Some v \<longrightarrow> v \<noteq> []) \<and>
    (\<forall>slot. case shard_get sh slot of
       Some e \<Rightarrow> wf_entry sh slot e
     | None \<Rightarrow> overflow_of sh slot = [] \<and> (\<forall>h. bucket sh h slot = None))"

text \<open>The bucket maps hold each key once, so list queries over them see what lookups see.\<close>

definition wf_buckets :: "mined_shard \<Rightarrow> bool" where
  "wf_buckets sh \<longleftrightarrow> distinct (map fst (unmined sh)) \<and>
    (\<forall>h m. map_of (unmined sh) h = Some m \<longrightarrow> distinct (map fst m))"

section \<open>View lemmas\<close>

named_theorems shard_view \<open>how the primitives change the views of a shard\<close>

lemma shard_get_modify [shard_view]:
  "shard_get (shard_modify sh s f) t = (if t = s then map_option f (shard_get sh s) else shard_get sh t)"
  by (auto simp: shard_modify_def shard_get_def slot_live_def nth_list_update split: option.splits)

lemma shard_modify_frame [shard_view, simp]:
  "overflow (shard_modify sh s f) = overflow sh" "unmined (shard_modify sh s f) = unmined sh"
  "live (shard_modify sh s f) = live sh" "free (shard_modify sh s f) = free sh"
  "length (entries (shard_modify sh s f)) = length (entries sh)"
  by (simp_all add: shard_modify_def split: option.splits)

lemma bucket_modify [shard_view, simp]: "bucket (shard_modify sh s f) = bucket sh"
  by (intro ext) (simp add: bucket_def)

lemma overflow_of_modify [shard_view, simp]: "overflow_of (shard_modify sh s f) = overflow_of sh"
  by (intro ext) (simp add: overflow_of_def)

lemma bucket_remove_frame [shard_view, simp]:
  "overflow (bucket_remove sh h s) = overflow sh" "entries (bucket_remove sh h s) = entries sh"
  "live (bucket_remove sh h s) = live sh" "free (bucket_remove sh h s) = free sh"
  by (simp_all add: bucket_remove_def Let_def split: option.splits)

lemma bucket_remove_bucket [shard_view]:
  "bucket (bucket_remove sh h s) h' t = (if h' = h \<and> t = s then None else bucket sh h' t)"
proof (cases "map_of (unmined sh) h")
  case (Some m)
  have "map_of m t = None" if "AList.delete s m = []" "t \<noteq> s"
    using that map_of_remove [of s m] by (metis fun_upd_other map_of.simps(1))
  then show ?thesis using Some by (auto simp: bucket_remove_def bucket_def Let_def)
qed (auto simp: bucket_remove_def bucket_def)

lemma set_unmined_frame [shard_view, simp]:
  "overflow (set_unmined sh s a b k) = overflow sh" "entries (set_unmined sh s a b k) = entries sh"
  "live (set_unmined sh s a b k) = live sh" "free (set_unmined sh s a b k) = free sh"
  by (simp_all add: set_unmined_def Let_def)

lemma shard_get_frame [shard_view, simp]:
  "shard_get (set_unmined sh s a b k) = shard_get sh" "shard_get (bucket_remove sh h s) = shard_get sh"
  "shard_get (overflow_update u sh) = shard_get sh" "shard_get (unmined_update u' sh) = shard_get sh"
  by (simp_all add: fun_eq_iff shard_get_def slot_live_def)

lemma overflow_of_frame [shard_view, simp]:
  "overflow_of (set_unmined sh s a b k) = overflow_of sh"
  by (simp add: fun_eq_iff overflow_of_def)

lemma bucket_set_unmined [shard_view]:
  "bucket (set_unmined sh s a b k) h t =
    (if a = b \<or> t \<noteq> s then bucket sh h t
     else if h = b \<and> b \<noteq> 0 then Some k
     else if h = a \<and> a \<noteq> 0 then None
     else bucket sh h t)"
proof -
  have ins: "bucket (sh\<lparr>unmined := AList.update b (AList.update s k
        (case map_of (unmined sh) b of Some m \<Rightarrow> m | None \<Rightarrow> [])) (unmined sh)\<rparr>) h t =
      (if h = b \<and> t = s then Some k else bucket sh h t)" for sh h t
    by (auto simp: bucket_def split: option.splits)
  show ?thesis
    by (auto simp: set_unmined_def Let_def ins bucket_remove_bucket)
qed

lemma bucket_overflow_update [shard_view, simp]: "bucket (overflow_update u sh) = bucket sh"
  by (simp add: fun_eq_iff bucket_def)

lemma overflow_of_update [shard_view, simp]:
  "overflow_of (sh\<lparr>overflow := AList.update s v (overflow sh)\<rparr>) t = (if t = s then v else overflow_of sh t)"
  "overflow_of (sh\<lparr>overflow := AList.delete s (overflow sh)\<rparr>) t = (if t = s then [] else overflow_of sh t)"
  by (simp_all add: overflow_of_def)

section \<open>Preservation of well-formedness\<close>

text \<open>An operation that changes the views of one live slot only, and leaves the slot table's shape
  alone, keeps the invariant as soon as that slot stays well-formed.\<close>

definition same_shape :: "mined_shard \<Rightarrow> mined_shard \<Rightarrow> bool" where
  "same_shape sh sh' \<longleftrightarrow> live sh' = live sh \<and> free sh' = free sh \<and>
    length (entries sh') = length (entries sh)"

definition same_elsewhere :: "mined_shard \<Rightarrow> mined_shard \<Rightarrow> u32 \<Rightarrow> bool" where
  "same_elsewhere sh sh' s \<longleftrightarrow> (\<forall>t. t \<noteq> s \<longrightarrow> shard_get sh' t = shard_get sh t \<and>
    map_of (overflow sh') t = map_of (overflow sh) t \<and> (\<forall>h. bucket sh' h t = bucket sh h t))"

lemma wf_shard_local:
  assumes "wf_shard sh" "same_shape sh sh'" "same_elsewhere sh sh' s"
    and "shard_get sh' s = Some e" "wf_entry sh' s e" "map_of (overflow sh') s \<noteq> Some []"
  shows "wf_shard sh'"
proof -
  have ov: "overflow_of sh' t = overflow_of sh t" if "t \<noteq> s" for t
    using assms(3) that by (simp add: same_elsewhere_def overflow_of_def)
  have "case shard_get sh' t of Some e \<Rightarrow> wf_entry sh' t e
      | None \<Rightarrow> overflow_of sh' t = [] \<and> (\<forall>h. bucket sh' h t = None)" for t
  proof (cases "t = s")
    case False
    then have "shard_get sh' t = shard_get sh t" "\<And>h. bucket sh' h t = bucket sh h t"
      using assms(3) by (simp_all add: same_elsewhere_def)
    moreover have "case shard_get sh t of Some e \<Rightarrow> wf_entry sh t e
        | None \<Rightarrow> overflow_of sh t = [] \<and> (\<forall>h. bucket sh h t = None)"
      using assms(1) by (simp add: wf_shard_def)
    ultimately show ?thesis
      using ov [OF False] by (simp add: wf_entry_def split: option.splits)
  qed (use assms in simp)
  moreover have "v \<noteq> []" if "map_of (overflow sh') t = Some v" for t v
    using assms that by (cases "t = s") (auto simp: wf_shard_def same_elsewhere_def)
  ultimately show ?thesis
    using assms(1,2) by (auto simp: wf_shard_def same_shape_def slot_live_def)
qed

lemma wf_shard_slot:
  "wf_shard sh \<Longrightarrow> case shard_get sh s of Some e \<Rightarrow> wf_entry sh s e
    | None \<Rightarrow> overflow_of sh s = [] \<and> (\<forall>h. bucket sh h s = None)"
  by (simp add: wf_shard_def)

lemma wf_shard_entry: "wf_shard sh \<Longrightarrow> shard_get sh s = Some e \<Longrightarrow> wf_entry sh s e"
  using wf_shard_slot [of sh s] by simp

lemma wf_shard_overflow: "wf_shard sh \<Longrightarrow> map_of (overflow sh) s = Some v \<Longrightarrow> v \<noteq> []"
  by (auto simp: wf_shard_def)

lemmas local_defs = same_shape_def same_elsewhere_def shard_view

lemma settle_unmined_fst:
  "shard_get sh s = Some e \<Longrightarrow>
    fst (settle_unmined sh s olc key) = (if olc then 0 else me_unmined_since e)"
  by (simp add: settle_unmined_def Let_def)

lemma settle_unmined_snd:
  assumes "shard_get sh s = Some e"
  shows "shard_get (snd (settle_unmined sh s olc key)) t =
      (if t = s then Some (e\<lparr>me_unmined_since := (if olc then 0 else me_unmined_since e)\<rparr>)
       else shard_get sh t)"
    and "overflow (snd (settle_unmined sh s olc key)) = overflow sh"
    and "same_shape sh (snd (settle_unmined sh s olc key))"
    and "bucket (snd (settle_unmined sh s olc key)) h t =
      (if olc \<and> t = s \<and> h = me_unmined_since e \<and> h \<noteq> 0 then None else bucket sh h t)"
  using assms by (auto simp: settle_unmined_def Let_def local_defs)

lemma overflow_of_eq: "overflow sh = overflow sh' \<Longrightarrow> overflow_of sh = overflow_of sh'"
  by (simp add: fun_eq_iff overflow_of_def)

lemma wf_settle_unmined:
  assumes "wf_shard sh" "shard_get sh s = Some e"
  shows "wf_shard (snd (settle_unmined sh s olc key))"
proof (rule wf_shard_local [OF assms(1), where s = s])
  note get = settle_unmined_snd [OF assms(2)]
  show "same_shape sh (snd (settle_unmined sh s olc key))" by (rule get)
  show "same_elsewhere sh (snd (settle_unmined sh s olc key)) s"
    by (simp add: same_elsewhere_def get)
  show "shard_get (snd (settle_unmined sh s olc key)) s =
      Some (e\<lparr>me_unmined_since := (if olc then 0 else me_unmined_since e)\<rparr>)" by (simp add: get)
  show "wf_entry (snd (settle_unmined sh s olc key)) s
      (e\<lparr>me_unmined_since := (if olc then 0 else me_unmined_since e)\<rparr>)"
    using wf_shard_entry [OF assms]
    by (auto simp: wf_entry_def get overflow_of_eq [OF get(2)] inline_blocks_def)
  show "map_of (overflow (snd (settle_unmined sh s olc key))) s \<noteq> Some []"
    using wf_shard_overflow [OF assms(1)] by (auto simp: get)
qed

text \<open>The shard after the block tuple was added, before the longest-chain transition.\<close>

definition add_block :: "mined_shard \<Rightarrow> u32 \<Rightarrow> mined_entry \<Rightarrow> block_entry \<Rightarrow> mined_shard" where
  "add_block sh s e b =
    (if me_block_id e = 0 then
       shard_modify sh s (\<lambda>e. e\<lparr>me_block_id := be_block_id b, me_block_height := be_block_height b,
         me_subtree_idx := be_subtree_idx b\<rparr>)
     else shard_modify (sh\<lparr>overflow := AList.update s (overflow_of sh s @ [b]) (overflow sh)\<rparr>) s
       (\<lambda>e. e\<lparr>me_flags := me_flags e OR MINED_HAS_OVERFLOW\<rparr>))"

lemma apply_set_mined_split:
  assumes "shard_get sh s = Some e"
  shows "apply_set_mined_locked sh s bid bh st olc key =
    (let known = has_block_id sh s bid;
         sh1 = (if known then sh else add_block sh s e \<lparr>be_block_id = bid, be_block_height = bh,
                  be_subtree_idx = st\<rparr>);
         (nu, sh2) = settle_unmined sh1 s olc key
     in (\<lparr>ar_changed = \<not> known, ar_new_unmined_since = nu\<rparr>, sh2))"
  using assms by (auto simp: apply_set_mined_locked_def has_block_id_def add_block_def Let_def
      split: prod.splits)

lemma bit_mined_overflow:
  "bit (f OR MINED_HAS_OVERFLOW) (Suc 0)" "\<not> bit (f AND NOT MINED_HAS_OVERFLOW) (Suc 0)"
  using bit_pow_u8 [of 1 "Suc 0"]
  by (simp_all add: MINED_HAS_OVERFLOW_def bit_or_iff bit_and_iff bit_not_iff)

lemma add_block_get:
  assumes "shard_get sh s = Some e"
  shows "\<exists>e'. shard_get (add_block sh s e b) s = Some e' \<and> me_key_fp e' = me_key_fp e \<and>
    me_unmined_since e' = me_unmined_since e"
  using assms by (simp add: add_block_def shard_view)

lemma wf_add_block:
  assumes wf: "wf_shard sh" and e: "shard_get sh s = Some e"
    and b: "be_block_id b \<noteq> 0" "\<not> has_block_id sh s (be_block_id b)"
  shows "wf_shard (add_block sh s e b)"
proof (rule wf_shard_local [OF wf, where s = s])
  note we = wf_shard_entry [OF wf e]
  let ?e = "if me_block_id e = 0 then e\<lparr>me_block_id := be_block_id b,
      me_block_height := be_block_height b, me_subtree_idx := be_subtree_idx b\<rparr>
    else e\<lparr>me_flags := me_flags e OR MINED_HAS_OVERFLOW\<rparr>"
  show "same_shape sh (add_block sh s e b)" by (simp add: add_block_def local_defs)
  show "same_elsewhere sh (add_block sh s e b) s" by (simp add: add_block_def local_defs)
  show "shard_get (add_block sh s e b) s = Some ?e" using e by (simp add: add_block_def shard_view)
  show "wf_entry (add_block sh s e b) s ?e"
    using we b e
    by (auto simp: wf_entry_def add_block_def inline_blocks_def has_block_id_def bit_mined_overflow)
  show "map_of (overflow (add_block sh s e b)) s \<noteq> Some []"
    using wf_shard_overflow [OF wf] by (auto simp: add_block_def)
qed

lemma wf_apply_set_mined_locked:
  assumes "wf_shard sh" "bid \<noteq> 0"
  shows "wf_shard (snd (apply_set_mined_locked sh s bid bh st olc key))"
proof (cases "shard_get sh s")
  case None
  then show ?thesis using assms by (simp add: apply_set_mined_locked_def)
next
  case (Some e)
  let ?b = "\<lparr>be_block_id = bid, be_block_height = bh, be_subtree_idx = st\<rparr>"
  let ?sh = "if has_block_id sh s bid then sh else add_block sh s e ?b"
  have "wf_shard ?sh" using wf_add_block [OF assms(1) Some, of ?b] assms by simp
  moreover obtain e' where "shard_get ?sh s = Some e'"
    using Some add_block_get [OF Some, of ?b] by (cases "has_block_id sh s bid") auto
  ultimately have "wf_shard (snd (settle_unmined ?sh s olc key))" by (rule wf_settle_unmined)
  then show ?thesis by (simp add: apply_set_mined_split [OF Some] Let_def split_beta)
qed

lemma wf_move_unmined:
  assumes wf: "wf_shard sh" and e: "shard_get sh s = Some e"
  shows "wf_shard (set_unmined (shard_modify sh s (\<lambda>e. e\<lparr>me_unmined_since := h\<rparr>)) s
    (me_unmined_since e) h key)" (is "wf_shard ?sh")
proof (rule wf_shard_local [OF wf, where s = s])
  show "same_shape sh ?sh" "same_elsewhere sh ?sh s" by (simp_all add: local_defs)
  show "shard_get ?sh s = Some (e\<lparr>me_unmined_since := h\<rparr>)" using e by (simp add: shard_view)
  show "wf_entry ?sh s (e\<lparr>me_unmined_since := h\<rparr>)"
    using wf_shard_entry [OF wf e] by (auto simp: wf_entry_def inline_blocks_def bucket_set_unmined)
  show "map_of (overflow ?sh) s \<noteq> Some []" using wf_shard_overflow [OF wf] by auto
qed

lemma wf_longest_chain_locked:
  "wf_shard sh \<Longrightarrow> wf_shard (longest_chain_locked sh s olc h key)"
  by (auto simp: longest_chain_locked_def Let_def split: option.split intro: wf_move_unmined)

lemma swap_remove_mset:
  assumes "i < length xs"
  shows "mset xs = add_mset (xs ! i) (mset (swap_remove i xs))"
proof -
  have ne: "xs[i := last xs] \<noteq> []" using assms by auto
  have last: "last (xs[i := last xs]) = last xs"
    using ne by (simp add: last_list_update)
  have "mset (xs[i := last xs]) = add_mset (last xs) (mset (swap_remove i xs))"
    using arg_cong [OF append_butlast_last_id [OF ne], of mset] by (simp add: swap_remove_def last)
  moreover have "mset (xs[i := last xs]) = add_mset (last xs) (mset xs - {#xs ! i#})"
    using assms by (simp add: mset_update)
  ultimately have "mset (swap_remove i xs) = mset xs - {#xs ! i#}" by simp
  then show ?thesis using assms by simp
qed

lemma swap_remove_distinct:
  assumes "i < length xs" "distinct (map f xs)"
  shows "distinct (map f (swap_remove i xs))" "set xs = insert (xs ! i) (set (swap_remove i xs))"
    "f (xs ! i) \<notin> f ` set (swap_remove i xs)"
proof -
  have m: "mset xs = mset (xs ! i # swap_remove i xs)" using swap_remove_mset [OF assms(1)] by simp
  then have "mset (map f xs) = mset (map f (xs ! i # swap_remove i xs))" by (metis mset_map)
  then have "distinct (map f (xs ! i # swap_remove i xs))"
    using assms(2) mset_eq_imp_distinct_iff by blast
  then show "distinct (map f (swap_remove i xs))" "f (xs ! i) \<notin> f ` set (swap_remove i xs)"
    by simp_all
  show "set xs = insert (xs ! i) (set (swap_remove i xs))" using mset_eq_setD [OF m] by simp
qed

lemma position_Some: "position P xs = Some i \<Longrightarrow> i < length xs \<and> P (xs ! i)"
  by (induction xs arbitrary: i) (auto split: if_splits)

lemma position_None: "position P xs = None \<longleftrightarrow> (\<forall>x \<in> set xs. \<not> P x)"
  by (induction xs) auto

lemma wf_unset_inline:
  assumes wf: "wf_shard sh" and e: "shard_get sh s = Some e"
  shows "wf_shard (unset_inline sh s) \<and> shard_get (unset_inline sh s) s \<noteq> None"
proof
  note we = wf_shard_entry [OF wf e]
  let ?e = "case overflow_of sh s of
      be # rest \<Rightarrow> e\<lparr>me_block_id := be_block_id be, me_block_height := be_block_height be,
        me_subtree_idx := be_subtree_idx be,
        me_flags := (if rest = [] then me_flags e AND NOT MINED_HAS_OVERFLOW else me_flags e)\<rparr>
    | [] \<Rightarrow> e\<lparr>me_block_id := 0, me_block_height := 0, me_subtree_idx := 0\<rparr>"
  have g: "shard_get (unset_inline sh s) s = Some ?e"
    using e by (auto simp: unset_inline_def Let_def shard_view split: list.split)
  then show "shard_get (unset_inline sh s) s \<noteq> None" by simp
  show "wf_shard (unset_inline sh s)"
  proof (rule wf_shard_local [OF wf, where s = s, OF _ _ g])
    show "same_shape sh (unset_inline sh s)" "same_elsewhere sh (unset_inline sh s) s"
      by (auto simp: unset_inline_def Let_def local_defs split: list.split)
    show "wf_entry (unset_inline sh s) s ?e"
      using we by (cases "overflow_of sh s")
        (auto simp: wf_entry_def unset_inline_def Let_def inline_blocks_def bit_mined_overflow)
    show "map_of (overflow (unset_inline sh s)) s \<noteq> Some []"
      by (auto simp: unset_inline_def Let_def split: list.split)
  qed
qed

lemma unset_overflow_list:
  assumes "map_of (overflow sh) s = Some v"
  shows "overflow_of (unset_overflow sh s bid v) s =
    (case position (\<lambda>be. be_block_id be = bid) v of Some i \<Rightarrow> swap_remove i v | None \<Rightarrow> v)"
  by (auto simp: unset_overflow_def Let_def)

lemma wf_unset_overflow:
  assumes wf: "wf_shard sh" and e: "shard_get sh s = Some e" and v: "map_of (overflow sh) s = Some v"
  shows "wf_shard (unset_overflow sh s bid v) \<and> shard_get (unset_overflow sh s bid v) s \<noteq> None"
proof
  note we = wf_shard_entry [OF wf e]
  have ov: "overflow_of sh s = v" and "v \<noteq> []"
    using v wf_shard_overflow [OF wf v] by (simp_all add: overflow_of_def)
  let ?v = "case position (\<lambda>be. be_block_id be = bid) v of Some i \<Rightarrow> swap_remove i v | None \<Rightarrow> v"
  let ?e = "if ?v = [] then e\<lparr>me_flags := me_flags e AND NOT MINED_HAS_OVERFLOW\<rparr> else e"
  have dv: "distinct (map be_block_id v)" using we ov by (simp add: wf_entry_def)
  have dist: "distinct (map be_block_id ?v) \<and> set ?v \<subseteq> set v"
  proof (cases "position (\<lambda>be. be_block_id be = bid) v")
    case (Some i)
    then have "i < length v" using position_Some by blast
    then show ?thesis using swap_remove_distinct [OF _ dv] Some by auto
  qed (use dv in simp)
  have g: "shard_get (unset_overflow sh s bid v) s = Some ?e"
    using e by (auto simp: unset_overflow_def Let_def shard_view)
  then show "shard_get (unset_overflow sh s bid v) s \<noteq> None" by simp
  show "wf_shard (unset_overflow sh s bid v)"
  proof (rule wf_shard_local [OF wf, where s = s, OF _ _ g])
    show "same_shape sh (unset_overflow sh s bid v)" "same_elsewhere sh (unset_overflow sh s bid v) s"
      by (auto simp: unset_overflow_def Let_def local_defs)
    have "overflow_of (unset_overflow sh s bid v) s = ?v" by (rule unset_overflow_list [OF v])
    moreover have "bucket (unset_overflow sh s bid v) = bucket sh"
      by (simp add: unset_overflow_def Let_def)
    ultimately show "wf_entry (unset_overflow sh s bid v) s ?e"
      using we ov dist \<open>v \<noteq> []\<close> by (auto simp: wf_entry_def inline_blocks_def bit_mined_overflow)
    show "map_of (overflow (unset_overflow sh s bid v)) s \<noteq> Some []"
      by (simp add: unset_overflow_def Let_def)
  qed
qed

lemma wf_unset_settle:
  assumes "wf_shard sh" "shard_get sh s \<noteq> None"
  shows "wf_shard (unset_settle sh s h key)"
  using assms by (auto simp: unset_settle_def Let_def intro: wf_move_unmined)

lemma wf_apply_unset_locked:
  assumes "wf_shard sh"
  shows "wf_shard (apply_unset_locked sh s bid h key)"
  using assms wf_unset_inline [OF assms] wf_unset_overflow [OF assms]
  by (auto simp: apply_unset_locked_def split: option.split intro!: wf_unset_settle)

lemma wf_modify_flags:
  assumes wf: "wf_shard sh"
    and f: "\<And>e. \<exists>fl. f e = e\<lparr>me_flags := fl\<rparr> \<and> bit fl 1 = bit (me_flags e) 1"
  shows "wf_shard (shard_modify sh s f)"
proof (cases "shard_get sh s")
  case None
  then show ?thesis using wf by (simp add: shard_modify_def)
next
  case (Some e)
  obtain fl where fl: "f e = e\<lparr>me_flags := fl\<rparr>" "bit fl 1 = bit (me_flags e) 1" using f by blast
  show ?thesis
  proof (rule wf_shard_local [OF wf, where s = s and e = "f e"])
    show "same_shape sh (shard_modify sh s f)" "same_elsewhere sh (shard_modify sh s f) s"
      by (simp_all add: local_defs)
    show "shard_get (shard_modify sh s f) s = Some (f e)" using Some by (simp add: shard_view)
    show "wf_entry (shard_modify sh s f) s (f e)"
      using wf_shard_entry [OF wf Some] fl by (simp add: wf_entry_def inline_blocks_def)
    show "map_of (overflow (shard_modify sh s f)) s \<noteq> Some []"
      using wf_shard_overflow [OF wf] by auto
  qed
qed

lemma slot_live_iff_get: "wf_shard sh \<Longrightarrow> slot_live sh s \<longleftrightarrow> shard_get sh s \<noteq> None"
  by (auto simp: wf_shard_def shard_get_def slot_live_def)

lemma wf_shard_dead:
  "wf_shard sh \<Longrightarrow> shard_get sh s = None \<Longrightarrow> overflow_of sh s = [] \<and> (\<forall>h. bucket sh h s = None)"
  using wf_shard_slot [of sh s] by simp

lemma wf_free_slot:
  assumes wf: "wf_shard sh"
  shows "wf_shard (free_slot sh s) \<and> (slot_live sh s \<longrightarrow> shard_get (free_slot sh s) s = None)"
proof (cases "slot_live sh s")
  case False
  then show ?thesis using wf by (simp add: free_slot_def)
next
  case True
  then obtain e where e: "shard_get sh s = Some e" using slot_live_iff_get [OF wf] by auto
  then have ent: "unat s < length (entries sh)" "entries sh ! unat s = e"
    by (auto simp: shard_get_def split: if_splits)
  note we = wf_shard_entry [OF wf e]
  let ?sh = "free_slot sh s"
  have live: "slot_live ?sh t \<longleftrightarrow> t \<noteq> s \<and> slot_live sh t" for t
    using True by (auto simp: free_slot_def slot_live_def Let_def nth_list_update)
  have len: "length (live ?sh) = length (live sh)" "entries ?sh = entries sh" "free ?sh = s # free sh"
    using True by (auto simp: free_slot_def Let_def)
  have get: "shard_get ?sh t = (if t = s then None else shard_get sh t)" for t
    by (simp add: shard_get_def live len)
  have ov: "map_of (overflow ?sh) t = (if t = s then None else map_of (overflow sh) t)" for t
    using True by (auto simp: free_slot_def Let_def)
  have bk: "bucket ?sh h t = (if t = s then None else bucket sh h t)" for h t
  proof -
    have "bucket ?sh h t = (if h = me_unmined_since e \<and> t = s \<and> h \<noteq> 0 then None else bucket sh h t)"
      using True ent by (auto simp: free_slot_def Let_def bucket_remove_bucket) (simp_all add: bucket_def bucket_remove_bucket [unfolded bucket_def])
    then show ?thesis using we by (auto simp: wf_entry_def)
  qed
  have "case shard_get ?sh t of Some e \<Rightarrow> wf_entry ?sh t e
      | None \<Rightarrow> overflow_of ?sh t = [] \<and> (\<forall>h. bucket ?sh h t = None)" for t
    using wf_shard_entry [OF wf, of t] wf_shard_dead [OF wf, of t]
    by (auto simp: get bk overflow_of_def ov wf_entry_def split: option.split)
  moreover have "s \<notin> set (free sh)" using wf True by (auto simp: wf_shard_def)
  ultimately show ?thesis
    using wf ent by (auto simp: wf_shard_def len live ov get split: if_splits)
qed

lemma shard_alloc_views:
  assumes wf: "wf_shard sh" and room: "length (entries sh) < 2 ^ 32 - 1"
    and alloc: "shard_alloc sh e = (s, sh')"
  shows "shard_get sh s = None" "s \<noteq> NO_MINED_SLOT"
    and "shard_get sh' t = (if t = s then Some e else shard_get sh t)"
    and "overflow sh' = overflow sh" "unmined sh' = unmined sh"
    and "length (live sh') = length (entries sh') \<and> length (entries sh') < 2 ^ 32 \<and>
      distinct (free sh') \<and>
      set (free sh') = {t. unat t < length (entries sh') \<and> \<not> slot_live sh' t}"
proof -
  have len: "length (live sh) = length (entries sh)" and fr: "distinct (free sh)"
    "set (free sh) = {t. unat t < length (entries sh) \<and> \<not> slot_live sh t}"
    using wf by (simp_all add: wf_shard_def)
  have ns: "unat (NO_MINED_SLOT) = 2 ^ 32 - 1" by (simp add: NO_MINED_SLOT_def)
  have "shard_get sh s = None \<and> s \<noteq> NO_MINED_SLOT \<and>
    (\<forall>t. shard_get sh' t = (if t = s then Some e else shard_get sh t)) \<and>
    overflow sh' = overflow sh \<and> unmined sh' = unmined sh \<and>
    (length (live sh') = length (entries sh') \<and> length (entries sh') < 2 ^ 32 \<and>
      distinct (free sh') \<and> set (free sh') = {t. unat t < length (entries sh') \<and> \<not> slot_live sh' t})"
  proof (cases "free sh")
    case Nil
    then have s: "s = of_nat (length (entries sh))" "sh' = sh\<lparr>entries := entries sh @ [e], live := live sh @ [True]\<rparr>"
      using alloc by (simp_all add: shard_alloc_def)
    have us: "unat s = length (entries sh)" using room by (simp add: s unat_of_nat)
    have all: "slot_live sh t" if "unat t < length (entries sh)" for t using fr(2) Nil that by auto
    have tu: "unat t = length (entries sh) \<longleftrightarrow> t = s" for t using us by (metis unat_inj)
    have "s \<noteq> NO_MINED_SLOT" "\<not> unat s < length (entries sh)" using us ns room by auto
    then show ?thesis
      using tu room len Nil all
      by (auto simp: s(2) shard_get_def slot_live_def nth_append less_Suc_eq)
  next
    case (Cons a rest)
    then have s: "s = a" "sh' = sh\<lparr>entries := (entries sh)[unat s := e],
        live := (live sh)[unat s := True], free := rest\<rparr>"
      using alloc by (auto simp: shard_alloc_def)
    have a: "unat a < length (entries sh)" "\<not> slot_live sh a" "a \<notin> set rest" "distinct rest"
      using fr Cons by auto
    have rest: "set rest = {t. unat t < length (entries sh) \<and> t \<noteq> a \<and> \<not> slot_live sh t}"
      using fr Cons a by auto
    have lv: "slot_live sh' t \<longleftrightarrow> t = s \<or> slot_live sh t" for t
      using a(1) len by (auto simp: s slot_live_def nth_list_update)
    have fields: "length (live sh') = length (live sh)" "length (entries sh') = length (entries sh)"
      "free sh' = rest" "overflow sh' = overflow sh" "unmined sh' = unmined sh" by (simp_all add: s)
    have "shard_get sh' t = (if t = s then Some e else shard_get sh t)" for t
      using a(1) fields by (simp add: shard_get_def lv) (simp add: s nth_list_update)
    moreover have "shard_get sh s = None" using a(2) s(1) by (simp add: shard_get_def)
    moreover have "s \<noteq> NO_MINED_SLOT" using a(1) room ns s(1) by auto
    moreover have "set rest = {t. unat t < length (entries sh) \<and> \<not> slot_live sh' t}"
      by (auto simp: rest lv s(1))
    ultimately show ?thesis using room len fields a(4) by simp
  qed
  then show "shard_get sh s = None" "s \<noteq> NO_MINED_SLOT"
    "shard_get sh' t = (if t = s then Some e else shard_get sh t)"
    "overflow sh' = overflow sh" "unmined sh' = unmined sh"
    "length (live sh') = length (entries sh') \<and> length (entries sh') < 2 ^ 32 \<and>
      distinct (free sh') \<and> set (free sh') = {t. unat t < length (entries sh') \<and> \<not> slot_live sh' t}"
    by simp_all
qed

lemma shard_alloc_created:
  assumes wf: "wf_shard sh" and room: "length (entries sh) < 2 ^ 32 - 1"
    and alloc: "shard_alloc_created sh key h = (s, sh')"
  shows "wf_shard sh'" "shard_get sh s = None" "s \<noteq> NO_MINED_SLOT"
    and "shard_get sh' t = (if t = s then Some (fresh_entry key h) else shard_get sh t)"
    and "overflow sh' = overflow sh"
    and "t \<noteq> s \<Longrightarrow> bucket sh' h' t = bucket sh h' t"
proof -
  obtain sh1 where a: "shard_alloc sh (fresh_entry key h) = (s, sh1)"
    and sh': "sh' = set_unmined sh1 s 0 h key"
    using alloc by (auto simp: shard_alloc_created_def split: prod.splits)
  note v = shard_alloc_views [OF wf room a]
  have dead: "overflow_of sh s = []" "\<And>h. bucket sh h s = None"
    using wf_shard_dead [OF wf v(1)] by simp_all
  have b1: "bucket sh1 = bucket sh" using v(5) by (simp add: fun_eq_iff bucket_def)
  have o1: "overflow sh' = overflow sh" using v(4) by (simp add: sh')
  have g: "shard_get sh' t = (if t = s then Some (fresh_entry key h) else shard_get sh t)" for t
    using v(3) by (simp add: sh')
  have bk: "bucket sh' h' t = (if t = s then (if h' = h \<and> h \<noteq> 0 then Some key else None) else bucket sh h' t)"
    for h' t using dead by (auto simp: sh' bucket_set_unmined b1)
  have slots: "case shard_get sh' t of Some e \<Rightarrow> wf_entry sh' t e
      | None \<Rightarrow> overflow_of sh' t = [] \<and> (\<forall>h. bucket sh' h t = None)" for t
  proof (cases "t = s")
    case True
    then show ?thesis
      using dead by (auto simp: g wf_entry_def bk overflow_of_eq [OF o1] fresh_entry_def inline_blocks_def)
  next
    case False
    then show ?thesis
      using wf_shard_slot [OF wf, of t]
      by (simp add: g wf_entry_def bk overflow_of_eq [OF o1] split: option.splits)
  qed
  have sh1: "live sh' = live sh1" "entries sh' = entries sh1" "free sh' = free sh1"
    by (simp_all add: sh')
  then show "wf_shard sh'"
    using v(6) slots wf_shard_overflow [OF wf] o1 by (auto simp: wf_shard_def slot_live_def)
  show "shard_get sh s = None" "s \<noteq> NO_MINED_SLOT" "overflow sh' = overflow sh"
    "shard_get sh' t = (if t = s then Some (fresh_entry key h) else shard_get sh t)"
    using v o1 g by simp_all
  show "t \<noteq> s \<Longrightarrow> bucket sh' h' t = bucket sh h' t" using bk by simp
qed

section \<open>What the block operations report\<close>

lemma blocks_add_block:
  assumes wf: "wf_shard sh" and e: "shard_get sh s = Some e" and b: "be_block_id b \<noteq> 0"
  shows "blocks_of (add_block sh s e b) t = (if t = s then blocks_of sh s @ [b] else blocks_of sh t)"
proof (cases "me_block_id e = 0")
  case True
  then have "overflow_of sh s = []" using wf_shard_entry [OF wf e] by (auto simp: wf_entry_def)
  then show ?thesis
    using True e b by (simp add: blocks_of_def add_block_def shard_view inline_blocks_def)
next
  case False
  then show ?thesis
    using e by (simp add: blocks_of_def add_block_def shard_view inline_blocks_def)
qed

lemma blocks_settle:
  assumes "shard_get sh s = Some e"
  shows "blocks_of (snd (settle_unmined sh s olc key)) = blocks_of sh"
  using assms
  by (auto simp: fun_eq_iff blocks_of_def settle_unmined_snd overflow_of_eq [OF settle_unmined_snd(2)]
      inline_blocks_def split: option.split)

lemma has_block_id_blocks:
  "bid \<noteq> 0 \<Longrightarrow> has_block_id sh s bid \<longleftrightarrow> bid \<in> be_block_id ` set (blocks_of sh s)"
  by (auto simp: has_block_id_def blocks_of_def inline_blocks_def split: option.splits)

lemma blocks_apply_set_mined:
  assumes wf: "wf_shard sh" and e: "shard_get sh s = Some e" and "bid \<noteq> 0"
    and sh'_def: "sh' = snd (apply_set_mined_locked sh s bid bh st olc key)"
  shows "blocks_of sh' t = (if t = s \<and> bid \<notin> be_block_id ` set (blocks_of sh s) then blocks_of sh s @
      [\<lparr>be_block_id = bid, be_block_height = bh, be_subtree_idx = st\<rparr>] else blocks_of sh t)"
    and "\<exists>e'. shard_get sh' s = Some e' \<and> me_key_fp e' = me_key_fp e \<and>
      me_unmined_since e' = (if olc then 0 else me_unmined_since e)"
    and "t \<noteq> s \<Longrightarrow> shard_get sh' t = shard_get sh t"
proof -
  let ?b = "\<lparr>be_block_id = bid, be_block_height = bh, be_subtree_idx = st\<rparr>"
  let ?sh = "if has_block_id sh s bid then sh else add_block sh s e ?b"
  have sh': "sh' = snd (settle_unmined ?sh s olc key)"
    unfolding sh'_def by (simp add: apply_set_mined_split [OF e] Let_def split_beta)
  obtain e1 where e1: "shard_get ?sh s = Some e1" "me_key_fp e1 = me_key_fp e"
      "me_unmined_since e1 = me_unmined_since e"
    using e add_block_get [OF e, of ?b] by (cases "has_block_id sh s bid") auto
  show "blocks_of sh' t = (if t = s \<and> bid \<notin> be_block_id ` set (blocks_of sh s) then blocks_of sh s @
      [?b] else blocks_of sh t)"
    using blocks_settle [OF e1(1), of olc key] blocks_add_block [OF wf e, of ?b t] assms(3)
    by (cases "has_block_id sh s bid") (simp_all add: sh' has_block_id_blocks)
  show "\<exists>e'. shard_get sh' s = Some e' \<and> me_key_fp e' = me_key_fp e \<and>
      me_unmined_since e' = (if olc then 0 else me_unmined_since e)"
    using e1 by (simp add: sh' settle_unmined_snd [OF e1(1)])
  show "t \<noteq> s \<Longrightarrow> shard_get sh' t = shard_get sh t"
    by (simp add: sh' settle_unmined_snd [OF e1(1)]) (simp add: add_block_def shard_view)
qed

lemma blocks_unset_inline:
  assumes wf: "wf_shard sh" and e: "shard_get sh s = Some e" and b: "me_block_id e = bid" "bid \<noteq> 0"
  shows "set (blocks_of (unset_inline sh s) s) = {b \<in> set (blocks_of sh s). be_block_id b \<noteq> bid}"
proof (cases "overflow_of sh s")
  case Nil
  then show ?thesis
    using e b by (auto simp: blocks_of_def unset_inline_def shard_view inline_blocks_def)
next
  case (Cons be rest)
  have "distinct (map be_block_id (inline_blocks e @ be # rest))" "be_block_id be \<noteq> 0"
    using wf_shard_entry [OF wf e] Cons by (auto simp: wf_entry_def)
  then show ?thesis
    using Cons e b
    by (auto simp: blocks_of_def unset_inline_def Let_def shard_view inline_blocks_def image_iff)
qed

lemma blocks_unset_overflow:
  assumes wf: "wf_shard sh" and e: "shard_get sh s = Some e" and v: "map_of (overflow sh) s = Some v"
    and b: "me_block_id e \<noteq> bid"
  shows "set (blocks_of (unset_overflow sh s bid v) s) = {b \<in> set (blocks_of sh s). be_block_id b \<noteq> bid}"
proof -
  have ov: "overflow_of sh s = v" using v by (simp add: overflow_of_def)
  have dv: "distinct (map be_block_id v)" using wf_shard_entry [OF wf e] ov by (simp add: wf_entry_def)
  have get: "\<exists>e'. shard_get (unset_overflow sh s bid v) s = Some e' \<and> inline_blocks e' = inline_blocks e"
    using e by (simp add: unset_overflow_def Let_def shard_view inline_blocks_def)
  have "set (overflow_of (unset_overflow sh s bid v) s) = {b \<in> set v. be_block_id b \<noteq> bid}"
  proof (cases "position (\<lambda>be. be_block_id be = bid) v")
    case None
    then have "\<forall>b \<in> set v. be_block_id b \<noteq> bid" by (simp add: position_None)
    with None show ?thesis by (auto simp: unset_overflow_list [OF v])
  next
    case (Some i)
    then have i: "i < length v" "be_block_id (v ! i) = bid" using position_Some [OF Some] by simp_all
    show ?thesis
      using swap_remove_distinct [OF i(1) dv] i Some
      by (auto simp: unset_overflow_list [OF v] image_iff)
  qed
  moreover have "\<forall>b \<in> set (inline_blocks e). be_block_id b \<noteq> bid"
    using assms(4) by (simp add: inline_blocks_def)
  ultimately show ?thesis using get e ov by (auto simp: blocks_of_def)
qed

lemma unset_settle_views:
  assumes "shard_get sh s = Some e"
  shows "blocks_of (unset_settle sh s h key) = blocks_of sh"
    and "t \<noteq> s \<Longrightarrow> shard_get (unset_settle sh s h key) t = shard_get sh t"
    and "\<exists>e'. shard_get (unset_settle sh s h key) s = Some e' \<and> me_key_fp e' = me_key_fp e \<and>
      me_unmined_since e' =
        (if me_block_id e = 0 \<and> map_of (overflow sh) s = None then h else me_unmined_since e)"
  using assms
  by (auto simp: unset_settle_def Let_def shard_view blocks_of_def fun_eq_iff inline_blocks_def
      split: option.splits)

lemma unset_inline_get:
  assumes "shard_get sh s = Some e"
  shows "\<exists>e'. shard_get (unset_inline sh s) s = Some e' \<and> me_key_fp e' = me_key_fp e \<and>
      me_unmined_since e' = me_unmined_since e"
    and "t \<noteq> s \<Longrightarrow> shard_get (unset_inline sh s) t = shard_get sh t"
    and "t \<noteq> s \<Longrightarrow> blocks_of (unset_inline sh s) t = blocks_of sh t"
  using assms by (auto simp: unset_inline_def Let_def shard_view blocks_of_def split: list.split)

lemma unset_overflow_get:
  assumes "shard_get sh s = Some e"
  shows "\<exists>e'. shard_get (unset_overflow sh s bid v) s = Some e' \<and> me_key_fp e' = me_key_fp e \<and>
      me_unmined_since e' = me_unmined_since e"
    and "t \<noteq> s \<Longrightarrow> shard_get (unset_overflow sh s bid v) t = shard_get sh t"
    and "t \<noteq> s \<Longrightarrow> blocks_of (unset_overflow sh s bid v) t = blocks_of sh t"
  using assms by (auto simp: unset_overflow_def Let_def shard_view blocks_of_def)

lemma no_blocks_iff:
  assumes "wf_shard sh" "shard_get sh s = Some e"
  shows "me_block_id e = 0 \<and> map_of (overflow sh) s = None \<longleftrightarrow> blocks_of sh s = []"
  using assms wf_shard_overflow [OF assms(1), of s]
  by (auto simp: blocks_of_def overflow_of_def inline_blocks_def split: option.splits)

lemma blocks_apply_unset:
  assumes wf: "wf_shard sh" and e: "shard_get sh s = Some e" and b: "bid \<noteq> 0"
    and sh': "sh' = apply_unset_locked sh s bid h key"
  shows "set (blocks_of sh' t) = (if t = s then {b \<in> set (blocks_of sh s). be_block_id b \<noteq> bid}
      else set (blocks_of sh t))"
    and "\<exists>e'. shard_get sh' s = Some e' \<and> me_key_fp e' = me_key_fp e \<and> me_unmined_since e' =
      (if blocks_of sh s \<noteq> [] \<and> blocks_of sh' s = [] then h else me_unmined_since e)"
    and "t \<noteq> s \<Longrightarrow> shard_get sh' t = shard_get sh t"
proof -
  have "set (blocks_of sh' s) = {b \<in> set (blocks_of sh s). be_block_id b \<noteq> bid} \<and>
    (\<exists>e'. shard_get sh' s = Some e' \<and> me_key_fp e' = me_key_fp e \<and> me_unmined_since e' =
      (if blocks_of sh s \<noteq> [] \<and> blocks_of sh' s = [] then h else me_unmined_since e)) \<and>
    (\<forall>t. t \<noteq> s \<longrightarrow> shard_get sh' t = shard_get sh t \<and> blocks_of sh' t = blocks_of sh t)"
  proof (cases "me_block_id e = bid")
    case True
    then have s: "sh' = unset_settle (unset_inline sh s) s h key"
      using e by (simp add: sh' apply_unset_locked_def)
    obtain e1 where e1: "shard_get (unset_inline sh s) s = Some e1" "me_key_fp e1 = me_key_fp e"
      "me_unmined_since e1 = me_unmined_since e" using unset_inline_get(1) [OF e] by blast
    have "blocks_of sh s \<noteq> []" using e True b by (simp add: blocks_of_def inline_blocks_def)
    then show ?thesis
      using unset_settle_views [OF e1(1), where h = h and key = key] e1 unset_inline_get(2,3) [OF e]
        blocks_unset_inline [OF wf e True b]
        no_blocks_iff [OF conjunct1 [OF wf_unset_inline [OF wf e]] e1(1)]
      by (auto simp: s)
  next
    case False
    show ?thesis
    proof (cases "map_of (overflow sh) s")
      case None
      then have "\<forall>b \<in> set (blocks_of sh s). be_block_id b \<noteq> bid"
        using e False by (simp add: blocks_of_def overflow_of_def inline_blocks_def)
      then show ?thesis using None e False by (auto simp: sh' apply_unset_locked_def)
    next
      case (Some v)
      then have s: "sh' = unset_settle (unset_overflow sh s bid v) s h key"
        using e False by (simp add: sh' apply_unset_locked_def)
      obtain e1 where e1: "shard_get (unset_overflow sh s bid v) s = Some e1"
        "me_key_fp e1 = me_key_fp e" "me_unmined_since e1 = me_unmined_since e"
        using unset_overflow_get(1) [OF e] by blast
      have "blocks_of sh s \<noteq> []"
        using wf_shard_overflow [OF wf Some] Some by (simp add: blocks_of_def overflow_of_def)
      then show ?thesis
        using unset_settle_views [OF e1(1), where h = h and key = key] e1 unset_overflow_get(2,3) [OF e]
          blocks_unset_overflow [OF wf e Some False]
          no_blocks_iff [OF conjunct1 [OF wf_unset_overflow [OF wf e Some]] e1(1)]
        by (auto simp: s)
    qed
  qed
  then show "set (blocks_of sh' t) = (if t = s then {b \<in> set (blocks_of sh s). be_block_id b \<noteq> bid}
      else set (blocks_of sh t))"
    and "\<exists>e'. shard_get sh' s = Some e' \<and> me_key_fp e' = me_key_fp e \<and> me_unmined_since e' =
      (if blocks_of sh s \<noteq> [] \<and> blocks_of sh' s = [] then h else me_unmined_since e)"
    and "t \<noteq> s \<Longrightarrow> shard_get sh' t = shard_get sh t" by auto
qed

section \<open>Buckets as lists\<close>

lemma wf_buckets_cong: "unmined sh' = unmined sh \<Longrightarrow> wf_buckets sh' = wf_buckets sh"
  by (simp add: wf_buckets_def)

lemma wf_buckets_remove: "wf_buckets sh \<Longrightarrow> wf_buckets (bucket_remove sh h s)"
  by (auto simp: wf_buckets_def bucket_remove_def Let_def distinct_delete distinct_update
      simp del: map_of_eq_Some_iff split: option.split if_splits)

lemma wf_buckets_set_unmined: "wf_buckets sh \<Longrightarrow> wf_buckets (set_unmined sh s a b k)"
proof -
  have ins: "wf_buckets (sh\<lparr>unmined := AList.update b (AList.update s k
      (case map_of (unmined sh) b of Some m \<Rightarrow> m | None \<Rightarrow> [])) (unmined sh)\<rparr>)"
    if "wf_buckets sh" for sh
    using that
    by (auto simp: wf_buckets_def distinct_update simp del: map_of_eq_Some_iff
        split: option.split if_splits)
  assume "wf_buckets sh"
  then show ?thesis by (auto simp: set_unmined_def Let_def ins wf_buckets_remove)
qed

lemma wf_buckets_overflow [simp]: "wf_buckets (overflow_update u sh) = wf_buckets sh"
  by (simp add: wf_buckets_def)

lemma wf_buckets_modify [simp]: "wf_buckets (shard_modify sh s f) = wf_buckets sh"
  by (simp add: wf_buckets_def)

lemma wf_buckets_ops:
  assumes "wf_buckets sh"
  shows "wf_buckets (snd (apply_set_mined_locked sh s bid bh st olc key))"
    "wf_buckets (apply_unset_locked sh s bid h key)"
    "wf_buckets (longest_chain_locked sh s olc h key)"
  using assms
  by (auto simp: apply_set_mined_locked_def settle_unmined_def apply_unset_locked_def
      unset_settle_def unset_inline_def unset_overflow_def longest_chain_locked_def Let_def
      wf_buckets_set_unmined split: option.split list.split)

lemma wf_buckets_free_slot: "wf_buckets sh \<Longrightarrow> wf_buckets (free_slot sh s)"
  using wf_buckets_remove [of sh]
  by (auto simp: free_slot_def Let_def wf_buckets_def simp del: map_of_eq_Some_iff)

lemma wf_buckets_alloc: "wf_buckets sh \<Longrightarrow> wf_buckets (snd (shard_alloc_created sh key h))"
  by (auto simp: shard_alloc_created_def shard_alloc_def split: list.split
      intro!: wf_buckets_set_unmined) (simp_all add: wf_buckets_def)

lemma bucket_list:
  assumes "wf_buckets sh"
  shows "(\<exists>m. (h, m) \<in> set (unmined sh) \<and> s \<in> fst ` set m) \<longleftrightarrow> bucket sh h s \<noteq> None"
proof -
  have m: "(h, m) \<in> set (unmined sh) \<longleftrightarrow> map_of (unmined sh) h = Some m" for m
    using assms by (simp add: wf_buckets_def)
  show ?thesis
  proof (cases "map_of (unmined sh) h")
    case None
    then show ?thesis unfolding m by (simp add: bucket_def)
  next
    case (Some m0)
    have "map_of m0 s = None \<longleftrightarrow> s \<notin> fst ` set m0" by (rule map_of_eq_None_iff)
    then show ?thesis unfolding m using Some by (auto simp: bucket_def simp del: not_None_eq)
  qed
qed

lemma in_concat_buckets:
  "s \<in> set (concat (map (\<lambda>(h, m). if h < height then map fst m else []) al)) \<longleftrightarrow>
    (\<exists>h m. (h, m) \<in> set al \<and> h < height \<and> s \<in> fst ` set m)"
proof (induction al)
  case (Cons a al)
  obtain h0 m0 where a: "a = (h0, m0)" by (cases a)
  have "s \<in> set (concat (map (\<lambda>(h, m). if h < height then map fst m else []) (a # al))) \<longleftrightarrow>
      h0 < height \<and> s \<in> fst ` set m0 \<or>
      s \<in> set (concat (map (\<lambda>(h, m). if h < height then map fst m else []) al))"
    by (simp add: a del: set_concat)
  then show ?case
    unfolding Cons.IH a by (simp only: list.set insert_iff prod.inject) blast
qed simp

lemma distinct_concat_buckets:
  assumes "distinct (map fst al)" "\<forall>(h, m) \<in> set al. distinct (map fst m)"
    and "\<And>h m h' m' s. (h, m) \<in> set al \<Longrightarrow> (h', m') \<in> set al \<Longrightarrow> s \<in> fst ` set m \<Longrightarrow>
      s \<in> fst ` set m' \<Longrightarrow> h = h'"
  shows "distinct (concat (map (\<lambda>(h, m). if h < height then map fst m else []) al))"
  using assms
proof (induction al)
  case (Cons a al)
  obtain h m where a: "a = (h, m)" by (cases a)
  have "set (map fst m) \<inter> set (concat (map (\<lambda>(h, m). if h < height then map fst m else []) al)) = {}"
  proof (rule ccontr)
    assume "\<not> ?thesis"
    then obtain s h' m' where "s \<in> fst ` set m" "(h', m') \<in> set al" "s \<in> fst ` set m'"
      by (auto split: if_splits)
    then have "h = h'" using Cons.prems(3) [of h m h' m' s] a by auto
    then show False using Cons.prems(1) a \<open>(h', m') \<in> set al\<close> by force
  qed
  moreover have "distinct (concat (map (\<lambda>(h, m). if h < height then map fst m else []) al))"
  proof (rule Cons.IH)
    show "distinct (map fst al)" "\<forall>(h, m) \<in> set al. distinct (map fst m)" using Cons.prems by auto
    show "h = h'" if "(h, m) \<in> set al" "(h', m') \<in> set al" "s \<in> fst ` set m" "s \<in> fst ` set m'"
      for h m h' m' s using that Cons.prems(3) [of h m h' m' s] by simp
  qed
  ultimately show ?case using Cons.prems(2) a by auto
qed simp

lemma unmined_below_exact:
  assumes wf: "wf_shard sh" "wf_buckets sh"
  shows "set (unmined_below sh height) =
      {s. \<exists>e. shard_get sh s = Some e \<and> 0 < me_unmined_since e \<and> me_unmined_since e < height}"
    and "sorted (unmined_below sh height)" and "distinct (unmined_below sh height)"
proof -
  have in_bucket: "bucket sh h s \<noteq> None \<longleftrightarrow>
      (\<exists>e. shard_get sh s = Some e \<and> h \<noteq> 0 \<and> me_unmined_since e = h)" for h s
  proof (cases "shard_get sh s")
    case None
    then show ?thesis using wf_shard_dead [OF wf(1)] by simp
  next
    case (Some e)
    then show ?thesis
      using wf_shard_entry [OF wf(1) Some] by (simp add: wf_entry_def del: not_None_eq)
  qed
  have mem: "s \<in> set (unmined_below sh height) \<longleftrightarrow> (\<exists>h < height. bucket sh h s \<noteq> None)" for s
    unfolding bucket_list [OF wf(2), symmetric] unmined_below_def set_sort in_concat_buckets by blast
  show "set (unmined_below sh height) =
      {s. \<exists>e. shard_get sh s = Some e \<and> 0 < me_unmined_since e \<and> me_unmined_since e < height}"
    using mem [unfolded in_bucket] by (auto simp: word_neq_0_conv)
  show "sorted (unmined_below sh height)" by (simp add: unmined_below_def)
  have "h = h'" if "(h, m) \<in> set (unmined sh)" "(h', m') \<in> set (unmined sh)" "s \<in> fst ` set m"
    "s \<in> fst ` set m'" for h m h' m' s
  proof -
    have "bucket sh h s \<noteq> None" "bucket sh h' s \<noteq> None"
      using that bucket_list [OF wf(2), of _ s] by blast+
    then show ?thesis unfolding in_bucket by auto
  qed
  moreover have "\<forall>(h, m) \<in> set (unmined sh). distinct (map fst m)"
    using wf(2) by (auto simp: wf_buckets_def)
  ultimately have "distinct (concat (map (\<lambda>(h, m). if h < height then map fst m else []) (unmined sh)))"
    using wf(2) by (intro distinct_concat_buckets) (simp_all add: wf_buckets_def)
  then show "distinct (unmined_below sh height)" by (simp add: unmined_below_def)
qed

lemma wf_apply_transition_locked:
  assumes "wf_shard sh" "tr_block_id tr \<noteq> 0"
  shows "wf_shard (snd (apply_transition_locked sh key s tr))"
  using assms
  by (auto simp: apply_transition_locked_def Let_def wf_apply_set_mined_locked wf_apply_unset_locked
      split: mined_transition.split)

lemma wf_buckets_transition:
  "wf_buckets sh \<Longrightarrow> wf_buckets (snd (apply_transition_locked sh key s tr))"
  by (auto simp: apply_transition_locked_def Let_def wf_buckets_ops split: mined_transition.split)

lemma wf_empty_shard: "wf_shard empty_shard" "wf_buckets empty_shard"
  by (simp_all add: wf_shard_def wf_buckets_def empty_shard_def shard_get_def slot_live_def
      overflow_of_def bucket_def)

end
