(* ===== verification/Mined_Index.thy ===== *)
theory Mined_Index
  imports Mined_Shard
begin

text \<open>
  The sharded mined-state index of \<open>src/src/index/mined_index.rs\<close>: routing of keys to shards, the
  locked operations of the engine's interface with their key-fingerprint guard, and the invariant of
  every reachable index.
\<close>

section \<open>The sharded index\<close>

definition splitmix64_finalize :: "u64 \<Rightarrow> u64" where
  "splitmix64_finalize x =
    (let x = (x XOR drop_bit 30 x) * 0xbf58476d1ce4e5b9;
         x = (x XOR drop_bit 27 x) * 0x94d049bb133111eb
     in x XOR drop_bit 31 x)"

record mined_index =
  mi_shards :: "mined_shard list"
  mi_mask :: u64
  mi_seed :: u64

fun pow2_from :: "nat \<Rightarrow> nat \<Rightarrow> nat \<Rightarrow> nat" where
  "pow2_from 0 p n = p"
| "pow2_from (Suc k) p n = (if n \<le> p then p else pow2_from k (2 * p) n)"

definition next_power_of_two :: "nat \<Rightarrow> nat" where
  "next_power_of_two n = pow2_from n 1 n"

definition new_with_seed :: "nat \<Rightarrow> u64 \<Rightarrow> mined_index" where
  "new_with_seed shard_count seed =
    (let count = max (next_power_of_two shard_count) 16
     in \<lparr>mi_shards = replicate count empty_shard, mi_mask = of_nat count - 1, mi_seed = seed\<rparr>)"

definition shard_for :: "mined_index \<Rightarrow> txkey \<Rightarrow> nat" where
  "shard_for mi key =
    (let raw = (if 24 \<le> length key then le_val (slice 16 8 key) else 0)
     in unat (splitmix64_finalize (raw XOR mi_seed mi) AND mi_mask mi))"

definition shard_of :: "mined_index \<Rightarrow> txkey \<Rightarrow> mined_shard" where
  "shard_of mi key = mi_shards mi ! shard_for mi key"

definition put_shard :: "mined_index \<Rightarrow> txkey \<Rightarrow> mined_shard \<Rightarrow> mined_index" where
  "put_shard mi key sh = mi\<lparr>mi_shards := (mi_shards mi)[shard_for mi key := sh]\<rparr>"

definition alloc_created :: "mined_index \<Rightarrow> txkey \<Rightarrow> u32 \<Rightarrow> u32 \<times> mined_index" where
  "alloc_created mi key block_height =
    (let (slot, sh) = shard_alloc_created (shard_of mi key) key block_height
     in (slot, put_shard mi key sh))"

definition mined_free :: "mined_index \<Rightarrow> txkey \<Rightarrow> u32 \<Rightarrow> mined_index" where
  "mined_free mi key slot = put_shard mi key (free_slot (shard_of mi key) slot)"

definition mined_clear :: "mined_index \<Rightarrow> mined_index" where
  "mined_clear mi = mi\<lparr>mi_shards := map (\<lambda>_. empty_shard) (mi_shards mi)\<rparr>"

definition with_entry :: "mined_index \<Rightarrow> txkey \<Rightarrow> u32 \<Rightarrow> (mined_entry \<Rightarrow> 'r) \<Rightarrow> 'r option" where
  "with_entry mi key slot f =
    (case shard_get (shard_of mi key) slot of
       None \<Rightarrow> None
     | Some e \<Rightarrow> if me_key_fp e \<noteq> key_fp key then None else Some (f e))"

definition read_block_entries :: "mined_index \<Rightarrow> txkey \<Rightarrow> u32 \<Rightarrow> (block_entry list \<times> u32) option" where
  "read_block_entries mi key slot =
    (let sh = shard_of mi key in
     case shard_get sh slot of
       None \<Rightarrow> None
     | Some e \<Rightarrow>
         if me_key_fp e \<noteq> key_fp key then None
         else Some (inline_blocks e @ overflow_of sh slot, me_unmined_since e))"

definition collect_unmined_keys_below :: "mined_index \<Rightarrow> u32 \<Rightarrow> txkey list" where
  "collect_unmined_keys_below mi height = concat (map (\<lambda>sh. unmined_keys_below sh height) (mi_shards mi))"

definition unmined_len :: "mined_index \<Rightarrow> nat" where
  "unmined_len mi = sum_list (map (\<lambda>sh. sum_list (map (\<lambda>(h, m). length m) (unmined sh))) (mi_shards mi))"

definition apply_set_mined ::
  "mined_index \<Rightarrow> txkey \<Rightarrow> u32 \<Rightarrow> u32 \<Rightarrow> u32 \<Rightarrow> u32 \<Rightarrow> bool \<Rightarrow> mined_apply_result \<times> mined_index" where
  "apply_set_mined mi key slot block_id block_height subtree_idx on_longest_chain =
    (let (r, sh) = apply_set_mined_locked (shard_of mi key) slot block_id block_height subtree_idx
                     on_longest_chain key
     in (r, put_shard mi key sh))"

definition apply_unset :: "mined_index \<Rightarrow> txkey \<Rightarrow> u32 \<Rightarrow> u32 \<Rightarrow> u32 \<Rightarrow> mined_index" where
  "apply_unset mi key slot block_id current_height =
    put_shard mi key (apply_unset_locked (shard_of mi key) slot block_id current_height key)"

definition apply_mined_transition ::
  "mined_index \<Rightarrow> txkey \<Rightarrow> u32 \<Rightarrow> mined_transition \<Rightarrow> mined_transition_outcome \<times> mined_index" where
  "apply_mined_transition mi key slot tr =
    (let (r, sh) = apply_transition_locked (shard_of mi key) key slot tr in (r, put_shard mi key sh))"

definition set_longest_chain :: "mined_index \<Rightarrow> txkey \<Rightarrow> u32 \<Rightarrow> bool \<Rightarrow> u32 \<Rightarrow> mined_index" where
  "set_longest_chain mi key slot on_longest_chain current_height =
    put_shard mi key (longest_chain_locked (shard_of mi key) slot on_longest_chain current_height key)"

definition set_all_spent :: "mined_index \<Rightarrow> txkey \<Rightarrow> u32 \<Rightarrow> bool \<Rightarrow> mined_index" where
  "set_all_spent mi key slot all_spent =
    put_shard mi key (shard_modify (shard_of mi key) slot
      (\<lambda>e. e\<lparr>me_flags := (if all_spent then me_flags e OR MINED_ALL_SPENT
                           else me_flags e AND NOT MINED_ALL_SPENT)\<rparr>))"

text \<open>The flag writers verify the slot's key fingerprint before they touch the entry.\<close>

definition modify_flags_fp :: "mined_index \<Rightarrow> txkey \<Rightarrow> u32 \<Rightarrow> (u8 \<Rightarrow> u8) \<Rightarrow> mined_index" where
  "modify_flags_fp mi key slot f =
    put_shard mi key (shard_modify (shard_of mi key) slot
      (\<lambda>e. if me_key_fp e \<noteq> key_fp key then e else e\<lparr>me_flags := f (me_flags e)\<rparr>))"

definition set_de_flag :: "mined_index \<Rightarrow> txkey \<Rightarrow> u32 \<Rightarrow> u8 \<Rightarrow> bool \<Rightarrow> mined_index" where
  "set_de_flag mi key slot flag_mask on =
    modify_flags_fp mi key slot (\<lambda>fl. if on then fl OR flag_mask else fl AND NOT flag_mask)"

definition read_de_flags :: "mined_index \<Rightarrow> txkey \<Rightarrow> u32 \<Rightarrow> u8 option" where
  "read_de_flags mi key slot = with_entry mi key slot (\<lambda>e. me_flags e AND MINED_DE_FLAG_MASK)"

definition is_all_spent :: "mined_index \<Rightarrow> txkey \<Rightarrow> u32 \<Rightarrow> bool option" where
  "is_all_spent mi key slot = with_entry mi key slot (\<lambda>e. me_flags e AND MINED_ALL_SPENT \<noteq> 0)"

definition reseed_de_flags :: "mined_index \<Rightarrow> txkey \<Rightarrow> u32 \<Rightarrow> u8 \<Rightarrow> mined_index" where
  "reseed_de_flags mi key slot de =
    modify_flags_fp mi key slot
      (\<lambda>fl. (fl AND NOT MINED_DE_DEVICE_MASK) OR (de AND MINED_DE_DEVICE_MASK))"

definition restore_de_flags :: "mined_index \<Rightarrow> txkey \<Rightarrow> u32 \<Rightarrow> u8 \<Rightarrow> mined_index" where
  "restore_de_flags mi key slot de =
    modify_flags_fp mi key slot
      (\<lambda>fl. (fl AND NOT MINED_DE_FLAG_MASK) OR (de AND MINED_DE_FLAG_MASK))"

definition wf_mined :: "mined_index \<Rightarrow> bool" where
  "wf_mined mi \<longleftrightarrow> mi_shards mi \<noteq> [] \<and> of_nat (length (mi_shards mi)) - 1 = mi_mask mi \<and>
    (\<forall>sh \<in> set (mi_shards mi). wf_shard sh \<and> wf_buckets sh)"

text \<open>The entry a key and slot designate, and when two such pairs designate the same entry.\<close>

definition mget :: "mined_index \<Rightarrow> txkey \<Rightarrow> u32 \<Rightarrow> mined_entry option" where
  "mget mi key slot = shard_get (shard_of mi key) slot"

definition same_cell :: "mined_index \<Rightarrow> txkey \<Rightarrow> u32 \<Rightarrow> txkey \<Rightarrow> u32 \<Rightarrow> bool" where
  "same_cell mi k s k' s' \<longleftrightarrow> shard_for mi k = shard_for mi k' \<and> s = s'"

text \<open>The states the index can be in: a fresh index, then any sequence of its operations.  Block id 0
  is the reserved no-block sentinel, and slot tables stay below the 32-bit slot space.\<close>

inductive mined_reach :: "mined_index \<Rightarrow> bool" where
  reach_new: "n \<le> 2 ^ 32 \<Longrightarrow> mined_reach (new_with_seed n seed)"
| reach_alloc: "mined_reach mi \<Longrightarrow> length (entries (shard_of mi key)) < 2 ^ 32 - 1 \<Longrightarrow>
    mined_reach (snd (alloc_created mi key h))"
| reach_free: "mined_reach mi \<Longrightarrow> mined_reach (mined_free mi key slot)"
| reach_clear: "mined_reach mi \<Longrightarrow> mined_reach (mined_clear mi)"
| reach_set: "mined_reach mi \<Longrightarrow> bid \<noteq> 0 \<Longrightarrow>
    mined_reach (snd (apply_set_mined mi key slot bid bh st olc))"
| reach_unset: "mined_reach mi \<Longrightarrow> bid \<noteq> 0 \<Longrightarrow> mined_reach (apply_unset mi key slot bid h)"
| reach_transition: "mined_reach mi \<Longrightarrow> tr_block_id tr \<noteq> 0 \<Longrightarrow>
    mined_reach (snd (apply_mined_transition mi key slot tr))"
| reach_longest: "mined_reach mi \<Longrightarrow> mined_reach (set_longest_chain mi key slot olc h)"
| reach_all_spent: "mined_reach mi \<Longrightarrow> mined_reach (set_all_spent mi key slot b)"
| reach_de_flag: "mined_reach mi \<Longrightarrow> fm AND MINED_HAS_OVERFLOW = 0 \<Longrightarrow>
    mined_reach (set_de_flag mi key slot fm b)"
| reach_reseed: "mined_reach mi \<Longrightarrow> mined_reach (reseed_de_flags mi key slot de)"
| reach_restore: "mined_reach mi \<Longrightarrow> mined_reach (restore_de_flags mi key slot de)"

section \<open>Routing and frames\<close>

lemma shard_for_bound:
  assumes "wf_mined mi"
  shows "shard_for mi key < length (mi_shards mi)"
proof -
  have ne: "0 < length (mi_shards mi)" using assms by (simp add: wf_mined_def)
  have "mi_mask mi = of_nat (length (mi_shards mi)) - 1" using assms by (simp add: wf_mined_def)
  also have "\<dots> = of_nat (length (mi_shards mi) - 1)" using ne by (cases "length (mi_shards mi)") simp_all
  finally have "unat (mi_mask mi) \<le> length (mi_shards mi) - 1" by (simp add: unat_of_nat)
  moreover have "unat (x AND mi_mask mi) \<le> unat (mi_mask mi)" for x
    using word_and_le1 by (simp add: word_le_nat_alt)
  ultimately have "unat (x AND mi_mask mi) \<le> length (mi_shards mi) - 1" for x
    using order_trans by blast
  then show ?thesis unfolding shard_for_def Let_def using ne by (metis Suc_diff_1 less_Suc_eq_le)
qed

lemma shard_for_put [simp]: "shard_for (put_shard mi k sh) = shard_for mi"
  by (simp add: fun_eq_iff shard_for_def put_shard_def)

lemma shard_of_put:
  "wf_mined mi \<Longrightarrow> shard_of (put_shard mi k sh) k' =
    (if shard_for mi k = shard_for mi k' then sh else shard_of mi k')"
  using shard_for_bound [of mi k]
  by (simp add: shard_of_def) (simp add: put_shard_def)

lemma wf_shard_of: "wf_mined mi \<Longrightarrow> wf_shard (shard_of mi k) \<and> wf_buckets (shard_of mi k)"
  using shard_for_bound [of mi k] by (auto simp: wf_mined_def shard_of_def)

lemma wf_put_shard:
  "wf_mined mi \<Longrightarrow> wf_shard sh \<Longrightarrow> wf_buckets sh \<Longrightarrow> wf_mined (put_shard mi k sh)"
  by (auto simp: wf_mined_def put_shard_def dest!: subsetD [OF set_update_subset_insert])

lemma wf_new_with_seed: "wf_mined (new_with_seed n seed)"
  using wf_empty_shard by (auto simp: wf_mined_def new_with_seed_def Let_def)

lemma MINED_HAS_OVERFLOW_pow: "MINED_HAS_OVERFLOW = 2 ^ 1"
  by (simp add: MINED_HAS_OVERFLOW_def)

lemma mined_mask_bits:
  "\<not> bit MINED_ALL_SPENT 1" "\<not> bit MINED_DE_FLAG_MASK 1" "\<not> bit MINED_DE_DEVICE_MASK 1"
  by (simp_all add: mined_flag_consts MINED_DE_FLAG_MASK_def MINED_DE_DEVICE_MASK_def bit_or_iff)

lemma no_overflow_bit: "fm AND MINED_HAS_OVERFLOW = 0 \<Longrightarrow> \<not> bit fm 1"
proof
  assume "fm AND MINED_HAS_OVERFLOW = 0" "bit fm 1"
  moreover have "bit MINED_HAS_OVERFLOW 1" by (simp add: MINED_HAS_OVERFLOW_pow bit_pow_u8)
  ultimately show False by (metis bit_0_eq bit_and_iff bot_apply bot_bool_def)
qed

lemma wf_modify_flags_fp:
  assumes "wf_mined mi" "\<And>fl. bit (f fl) 1 = bit fl 1"
  shows "wf_mined (modify_flags_fp mi key s f)"
proof -
  have "wf_shard (shard_modify (shard_of mi key) s
      (\<lambda>e. if me_key_fp e \<noteq> key_fp key then e else e\<lparr>me_flags := f (me_flags e)\<rparr>))"
  proof (rule wf_modify_flags)
    show "wf_shard (shard_of mi key)" using wf_shard_of [OF assms(1)] by simp
    show "\<exists>fl. (if me_key_fp e \<noteq> key_fp key then e else e\<lparr>me_flags := f (me_flags e)\<rparr>) =
        e\<lparr>me_flags := fl\<rparr> \<and> bit fl 1 = bit (me_flags e) 1" for e
      using assms(2) by (cases "me_key_fp e \<noteq> key_fp key") (auto intro: exI [of _ "me_flags e"])
  qed
  then show ?thesis
    using wf_shard_of [OF assms(1), of key] by (simp add: modify_flags_fp_def wf_put_shard assms(1))
qed

lemma wf_set_all_spent: "wf_mined mi \<Longrightarrow> wf_mined (set_all_spent mi key s b)"
  unfolding set_all_spent_def using mined_mask_bits(1) wf_shard_of
  by (intro wf_put_shard wf_modify_flags) (auto simp: bit_or_iff bit_and_iff bit_not_iff)

lemma wf_set_de_flag:
  "wf_mined mi \<Longrightarrow> fm AND MINED_HAS_OVERFLOW = 0 \<Longrightarrow> wf_mined (set_de_flag mi key s fm b)"
  unfolding set_de_flag_def using no_overflow_bit
  by (intro wf_modify_flags_fp) (auto simp: bit_or_iff bit_and_iff bit_not_iff)

lemma wf_reseed: "wf_mined mi \<Longrightarrow> wf_mined (reseed_de_flags mi key s de)"
  unfolding reseed_de_flags_def using mined_mask_bits(3)
  by (intro wf_modify_flags_fp) (auto simp: bit_or_iff bit_and_iff bit_not_iff)

lemma wf_restore: "wf_mined mi \<Longrightarrow> wf_mined (restore_de_flags mi key s de)"
  unfolding restore_de_flags_def using mined_mask_bits(2)
  by (intro wf_modify_flags_fp) (auto simp: bit_or_iff bit_and_iff bit_not_iff)

lemma wf_alloc_created:
  assumes "wf_mined mi" "length (entries (shard_of mi key)) < 2 ^ 32 - 1"
  shows "wf_mined (snd (alloc_created mi key h))"
proof -
  obtain s sh where a: "shard_alloc_created (shard_of mi key) key h = (s, sh)" by fastforce
  have "wf_shard sh"
    using shard_alloc_created(1) [OF conjunct1 [OF wf_shard_of [OF assms(1)]] assms(2) a] .
  moreover have "wf_buckets sh"
    using wf_buckets_alloc [of "shard_of mi key" key h] wf_shard_of [OF assms(1), of key] a by simp
  ultimately show ?thesis using assms(1) a by (simp add: alloc_created_def wf_put_shard)
qed

lemma wf_mined_ops:
  assumes "wf_mined mi"
  shows "wf_mined (mined_free mi key s)" "wf_mined (mined_clear mi)"
    "bid \<noteq> 0 \<Longrightarrow> wf_mined (snd (apply_set_mined mi key s bid bh st olc))"
    "wf_mined (apply_unset mi key s bid h)"
    "tr_block_id tr \<noteq> 0 \<Longrightarrow> wf_mined (snd (apply_mined_transition mi key s tr))"
    "wf_mined (set_longest_chain mi key s olc h)"
  using assms wf_shard_of [OF assms, of key] wf_empty_shard
  by (auto simp: mined_free_def apply_set_mined_def apply_unset_def apply_mined_transition_def
      set_longest_chain_def split_beta wf_free_slot wf_buckets_free_slot wf_apply_set_mined_locked
      wf_apply_unset_locked wf_apply_transition_locked wf_buckets_transition
      wf_longest_chain_locked wf_buckets_ops intro!: wf_put_shard)
    (auto simp: mined_clear_def wf_mined_def)

lemma mined_reach_wf: "mined_reach mi \<Longrightarrow> wf_mined mi"
  by (induction rule: mined_reach.induct)
    (simp_all add: wf_new_with_seed wf_alloc_created wf_mined_ops wf_set_all_spent wf_set_de_flag
      wf_reseed wf_restore)

section \<open>Cached flags\<close>

lemma mined_flag_pow:
  "MINED_ALL_SPENT = 2 ^ 0" "MINED_EXTERNAL = 2 ^ 2" "MINED_CONFLICTING = 2 ^ 3"
  "MINED_LAST_SPENT_ALL = 2 ^ 4" "MINED_REASSIGNED = 2 ^ 5" "MINED_PRESERVED = 2 ^ 6"
  by (simp_all add: mined_flag_consts)

lemma bit_mined_flags:
  "bit MINED_ALL_SPENT i \<longleftrightarrow> i = 0" "bit MINED_HAS_OVERFLOW i \<longleftrightarrow> i = 1"
  "bit MINED_EXTERNAL i \<longleftrightarrow> i = 2" "bit MINED_CONFLICTING i \<longleftrightarrow> i = 3"
  "bit MINED_LAST_SPENT_ALL i \<longleftrightarrow> i = 4" "bit MINED_REASSIGNED i \<longleftrightarrow> i = 5"
  "bit MINED_PRESERVED i \<longleftrightarrow> i = 6"
  unfolding mined_flag_pow MINED_HAS_OVERFLOW_pow by (rule bit_pow_u8; simp)+

lemma and_pow_nonzero: "n < 8 \<Longrightarrow> f AND 2 ^ n \<noteq> 0 \<longleftrightarrow> bit (f :: u8) n"
proof -
  assume n: "n < 8"
  have "f AND 2 ^ n = (if bit f n then 2 ^ n else 0)"
    by (rule bit_word_eqI) (auto simp: bit_and_iff bit_exp_iff)
  then show ?thesis using n by (simp add: exp_eq_zero_iff)
qed

lemma and_mined_flags:
  "f AND MINED_ALL_SPENT \<noteq> 0 \<longleftrightarrow> bit f 0" "f AND MINED_EXTERNAL \<noteq> 0 \<longleftrightarrow> bit f 2"
  "f AND MINED_CONFLICTING \<noteq> 0 \<longleftrightarrow> bit f 3" "f AND MINED_LAST_SPENT_ALL \<noteq> 0 \<longleftrightarrow> bit f 4"
  "f AND MINED_REASSIGNED \<noteq> 0 \<longleftrightarrow> bit f 5" "f AND MINED_PRESERVED \<noteq> 0 \<longleftrightarrow> bit f 6"
  unfolding mined_flag_pow by (rule and_pow_nonzero; simp)+

lemma bit_device_de_flags:
  "bit (device_de_flags fl p) i \<longleftrightarrow>
    (i = 2 \<and> bit fl 3) \<or> (i = 3 \<and> bit fl 1) \<or> (i = 4 \<and> bit fl 4) \<or> (i = 5 \<and> bit fl 6) \<or> (i = 6 \<and> p)"
  by (auto simp: device_de_flags_def Let_def flag_bits bit_or_iff bit_mined_flags)

lemma bit_tx_flags_from_de_flags:
  "bit (tx_flags_from_de_flags de) i \<longleftrightarrow>
    (i = 3 \<and> bit de 2) \<or> (i = 1 \<and> bit de 3) \<or> (i = 4 \<and> bit de 4) \<or> (i = 6 \<and> bit de 5)"
  unfolding tx_flags_from_de_flags_def Let_def and_mined_flags
  by (auto simp: bit_or_iff bit_flag_consts)

section \<open>Frames\<close>

lemma mget_put:
  "wf_mined mi \<Longrightarrow> mget (put_shard mi k sh) k' s' =
    (if shard_for mi k = shard_for mi k' then shard_get sh s' else mget mi k' s')"
  by (simp add: mget_def shard_of_put)

lemma shard_of_cong: "shard_for mi k = shard_for mi k' \<Longrightarrow> shard_of mi k = shard_of mi k'"
  by (simp add: shard_of_def)

lemma put_shard_id [simp]: "put_shard mi k (shard_of mi k) = mi"
  by (simp add: put_shard_def shard_of_def)

lemma mget_put_modify:
  "wf_mined mi \<Longrightarrow> mget (put_shard mi k (shard_modify (shard_of mi k) s f)) k' s' =
    (if same_cell mi k s k' s' then map_option f (mget mi k' s') else mget mi k' s')"
  using shard_of_cong [of mi k k']
  by (auto simp: mget_def shard_of_put shard_get_modify same_cell_def)

lemma mget_modify_flags_fp:
  "wf_mined mi \<Longrightarrow> mget (modify_flags_fp mi k s f) k' s' =
    (if same_cell mi k s k' s' then map_option
       (\<lambda>e. if me_key_fp e \<noteq> key_fp k then e else e\<lparr>me_flags := f (me_flags e)\<rparr>) (mget mi k' s')
     else mget mi k' s')"
  by (simp add: modify_flags_fp_def mget_put_modify)

lemma mget_set_all_spent:
  "wf_mined mi \<Longrightarrow> mget (set_all_spent mi k s b) k' s' =
    (if same_cell mi k s k' s' then map_option
       (\<lambda>e. e\<lparr>me_flags := (if b then me_flags e OR MINED_ALL_SPENT
         else me_flags e AND NOT MINED_ALL_SPENT)\<rparr>) (mget mi k' s')
     else mget mi k' s')"
  by (simp add: set_all_spent_def mget_put_modify)

lemma mget_free:
  assumes "wf_mined mi"
  shows "mget (mined_free mi k s) k' s' = (if same_cell mi k s k' s' then None else mget mi k' s')"
proof -
  let ?sh = "shard_of mi k"
  have wf: "wf_shard ?sh" using wf_shard_of [OF assms] by simp
  have "shard_get (free_slot ?sh s) s' = (if s = s' then None else shard_get ?sh s')"
  proof (cases "slot_live ?sh s")
    case True
    have "shard_get (free_slot ?sh s) t = shard_get ?sh t" if "t \<noteq> s" for t
      using that True by (auto simp: free_slot_def Let_def shard_get_def slot_live_def nth_list_update)
    then show ?thesis using wf_free_slot [OF wf, of s] True by auto
  next
    case False
    then show ?thesis using slot_live_iff_get [OF wf, of s] by (auto simp: free_slot_def)
  qed
  then show ?thesis
    using assms shard_of_cong [of mi k k']
    by (auto simp: mined_free_def mget_def shard_of_put same_cell_def)
qed

lemma mget_alloc_created:
  assumes wf: "wf_mined mi" and room: "length (entries (shard_of mi k)) < 2 ^ 32 - 1"
    and a: "alloc_created mi k h = (s, mi')"
  shows "mget mi k s = None" "s \<noteq> NO_MINED_SLOT"
    and "mget mi' k' s' = (if same_cell mi k s k' s' then Some (fresh_entry k h) else mget mi k' s')"
    and "shard_for mi' = shard_for mi"
proof -
  obtain sh where b: "shard_alloc_created (shard_of mi k) k h = (s, sh)" and mi': "mi' = put_shard mi k sh"
    using a by (auto simp: alloc_created_def split: prod.splits)
  note v = shard_alloc_created [OF conjunct1 [OF wf_shard_of [OF wf]] room b]
  show "mget mi k s = None" "s \<noteq> NO_MINED_SLOT" using v by (simp_all add: mget_def)
  show "mget mi' k' s' = (if same_cell mi k s k' s' then Some (fresh_entry k h) else mget mi k' s')"
    using wf v(4) shard_of_cong [of mi k k'] by (auto simp: mi' mget_def shard_of_put same_cell_def)
  show "shard_for mi' = shard_for mi" by (simp add: mi')
qed

lemma read_block_entries_mget:
  "read_block_entries mi k s = (case mget mi k s of
     Some e \<Rightarrow> if me_key_fp e \<noteq> key_fp k then None
       else Some (blocks_of (shard_of mi k) s, me_unmined_since e)
   | None \<Rightarrow> None)"
  by (auto simp: read_block_entries_def Let_def mget_def blocks_of_def split: option.split)

lemma shard_of_new [simp]: "shard_of (new_with_seed n seed) k = empty_shard"
  using shard_for_bound [OF wf_new_with_seed [of n seed], of k]
  by (simp add: shard_of_def new_with_seed_def Let_def)

text \<open>A one-record index, for concrete instances.\<close>

lemma alloc_in_new:
  "\<exists>mi. alloc_created (new_with_seed n seed) k h = (0, mi) \<and> wf_mined mi \<and>
    mget mi k 0 = Some (fresh_entry k h) \<and> (\<forall>k'. length (entries (shard_of mi k')) \<le> 1)"
proof -
  have room: "length (entries (shard_of (new_with_seed n seed) k)) < 2 ^ 32 - 1"
    by (simp add: empty_shard_def)
  have fst: "fst (alloc_created (new_with_seed n seed) k h) = 0"
    by (simp add: alloc_created_def shard_alloc_created_def shard_alloc_def split_beta)
      (simp add: empty_shard_def)
  let ?mi = "snd (alloc_created (new_with_seed n seed) k h)"
  have eq: "alloc_created (new_with_seed n seed) k h = (0, ?mi)" using fst by (metis prod.collapse)
  have "length (entries (shard_of ?mi k')) \<le> 1" for k'
    by (simp add: alloc_created_def shard_alloc_created_def shard_alloc_def split_beta shard_of_put
        wf_new_with_seed) (simp add: empty_shard_def)
  then show ?thesis
    using eq wf_alloc_created [OF wf_new_with_seed room]
      mget_alloc_created(3) [OF wf_new_with_seed room eq, of k 0]
    by (auto simp: same_cell_def)
qed

lemma length_entries_free:
  "wf_mined mi \<Longrightarrow> length (entries (shard_of (mined_free mi k s) k')) = length (entries (shard_of mi k'))"
  using shard_of_cong [of mi k k']
  by (auto simp: mined_free_def shard_of_put free_slot_def Let_def)

lemma put_shard_same: "put_shard mi k (shard_of mi k) = mi"
  by (simp add: put_shard_def shard_of_def)

lemma modify_flags_absent:
  assumes "mget mi k s = None \<or> (\<exists>e. mget mi k s = Some e \<and> me_key_fp e \<noteq> key_fp k)"
  shows "modify_flags_fp mi k s f = mi"
proof -
  have "shard_modify (shard_of mi k) s (\<lambda>e. if me_key_fp e \<noteq> key_fp k then e else e\<lparr>me_flags := f (me_flags e)\<rparr>) = shard_of mi k"
    using assms by (auto simp: mget_def shard_get_def shard_modify_def split: if_splits)
  then show ?thesis by (simp add: modify_flags_fp_def put_shard_same)
qed

lemma read_created:
  assumes "wf_mined mi" "length (entries (shard_of mi k)) < 2 ^ 32 - 1" "alloc_created mi k h = (s, mi')"
  shows "read_block_entries mi' k s = Some ([], h)"
proof -
  obtain sh where b: "shard_alloc_created (shard_of mi k) k h = (s, sh)" and mi': "mi' = put_shard mi k sh"
    using assms(3) by (auto simp: alloc_created_def split: prod.splits)
  have wf: "wf_shard (shard_of mi k)" using wf_shard_of [OF assms(1)] by simp
  note v = shard_alloc_created [OF wf assms(2) b]
  have "overflow_of (shard_of mi k) s = []"
    using wf v(2) by (auto simp: wf_shard_def dest: spec [where x = s])
  then have "overflow_of sh s = []" using v(5) by (simp add: overflow_of_def)
  then show ?thesis
    using v(4) [of s] assms(1) by (simp add: mi' read_block_entries_def shard_of_put fresh_entry_def inline_blocks_def)
qed

lemma alloc_reuses:
  assumes "wf_mined mi" "mget mi k s \<noteq> None" "shard_for mi k' = shard_for mi k"
  shows "\<exists>mi'. alloc_created (mined_free mi k s) k' h = (s, mi')"
proof -
  have "slot_live (shard_of mi k) s" using assms(2) by (auto simp: mget_def shard_get_def split: if_splits)
  moreover have "shard_of (mined_free mi k s) k' = free_slot (shard_of mi k) s"
    using assms(1,3) by (simp add: mined_free_def shard_of_put)
  ultimately show ?thesis
    by (simp add: alloc_created_def shard_alloc_created_def shard_alloc_def free_slot_def Let_def split_beta)
qed

section \<open>Properties\<close>

text \<open>C16: in every reachable index each shard is well-formed: its free list is exactly its dead
  slots, so a slot is never handed out twice; each live entry records each block once, in its inline
  tuple first; and the unmined query of the pruner returns, in order and without repetition, exactly
  the live slots whose unmined height is non-zero and below the bound.\<close>
theorem mined_reach_invariant:
  assumes "mined_reach mi" "sh \<in> set (mi_shards mi)"
  shows "wf_shard sh \<and> sorted (unmined_below sh height) \<and> distinct (unmined_below sh height) \<and>
    set (unmined_below sh height) =
      {s. \<exists>e. shard_get sh s = Some e \<and> 0 < me_unmined_since e \<and> me_unmined_since e < height}"
  using mined_reach_wf [OF assms(1)] assms(2) unmined_below_exact [of sh height]
  by (simp add: wf_mined_def)

theorem mined_reach_invariant_witness:
  "wf_shard empty_shard \<and> sorted (unmined_below empty_shard 9) \<and>
    distinct (unmined_below empty_shard 9) \<and> set (unmined_below empty_shard 9) =
      {s. \<exists>e. shard_get empty_shard s = Some e \<and> 0 < me_unmined_since e \<and> me_unmined_since e < 9}"
  by (rule mined_reach_invariant [OF reach_new [of 16 7]])
    (simp_all add: new_with_seed_def Let_def max_def)

text \<open>C15: what a set or unset transition does to the record it addresses.  A block not yet recorded
  is refused, with nothing changed, once 255 blocks are recorded; otherwise it is appended, and a
  block already recorded is kept as it is.  Mining on the longest chain clears the unmined height.
  An unset removes exactly that block, and only when no block remains does the record become unmined
  at the given height.\<close>
theorem mined_transition_spec:
  assumes "wf_mined mi" "mget mi key slot = Some e" "me_key_fp e = key_fp key" "tr_block_id tr \<noteq> 0"
    and "apply_mined_transition mi key slot tr = (out, mi')"
  shows "let old = blocks_of (shard_of mi key) slot in case tr of
      TransSet bid bh st olc \<Rightarrow>
        if bid \<notin> be_block_id ` set old \<and> 255 \<le> length old then out = OutcomeFull \<and> mi' = mi
        else \<exists>ts. out = Applied ts \<and>
          ts_block_entries ts = (if bid \<in> be_block_id ` set old then old
            else old @ [\<lparr>be_block_id = bid, be_block_height = bh, be_subtree_idx = st\<rparr>]) \<and>
          ts_unmined_since ts = (if olc then 0 else me_unmined_since e) \<and>
          read_block_entries mi' key slot = Some (ts_block_entries ts, ts_unmined_since ts)
    | TransUnset bid h \<Rightarrow>
        \<exists>ts. out = Applied ts \<and>
          set (ts_block_entries ts) = {b \<in> set old. be_block_id b \<noteq> bid} \<and>
          ts_unmined_since ts =
            (if old \<noteq> [] \<and> ts_block_entries ts = [] then h else me_unmined_since e) \<and>
          read_block_entries mi' key slot = Some (ts_block_entries ts, ts_unmined_since ts)"
proof -
  let ?sh = "shard_of mi key"
  have wf: "wf_shard ?sh" and e: "shard_get ?sh slot = Some e"
    using wf_shard_of [OF assms(1)] assms(2) by (simp_all add: mget_def)
  obtain sh' where loc: "apply_transition_locked ?sh key slot tr = (out, sh')"
    and mi': "mi' = put_shard mi key sh'"
    using assms(5) by (auto simp: apply_mined_transition_def split: prod.splits)
  have len: "block_entry_count ?sh slot = length (blocks_of ?sh slot)"
    using e by (simp add: block_entry_count_def blocks_of_def inline_blocks_def)
  have out: "out = Applied \<lparr>ts_block_entries = blocks_of sh' slot, ts_unmined_since = me_unmined_since e',
        ts_de_flags = me_flags e' AND MINED_DE_FLAG_MASK,
        ts_all_spent = (me_flags e' AND MINED_ALL_SPENT \<noteq> 0)\<rparr>" if "shard_get sh' slot = Some e'" "me_key_fp e' = key_fp key"
      "out = (case read_mined_state_locked sh' slot (key_fp key) of
            Some (bes, um, de, al) \<Rightarrow>
              Applied \<lparr>ts_block_entries = bes, ts_unmined_since = um, ts_de_flags = de, ts_all_spent = al\<rparr>
          | None \<Rightarrow> SlotAbsent)" for e'
    using that by (simp add: read_mined_state_locked_def blocks_of_def)
  have rd: "read_block_entries mi' key slot = Some (blocks_of sh' slot, me_unmined_since e')"
    if "shard_get sh' slot = Some e'" "me_key_fp e' = key_fp key" for e'
    using that assms(1)
    by (simp add: read_block_entries_mget mi' mget_put shard_of_put)
  show ?thesis
  proof (cases tr)
    case (TransSet bid bh st olc)
    note b = blocks_apply_set_mined [OF wf e, of bid _ bh st olc key, OF _ refl]
    have has: "has_block_id ?sh slot bid \<longleftrightarrow> bid \<in> be_block_id ` set (blocks_of ?sh slot)"
      using assms(4) TransSet by (simp add: has_block_id_blocks)
    show ?thesis
    proof (cases "bid \<notin> be_block_id ` set (blocks_of ?sh slot) \<and> 255 \<le> length (blocks_of ?sh slot)")
      case True
      then show ?thesis
        using loc TransSet e assms(3) has len
        by (auto simp: apply_transition_locked_def mi' Let_def)
    next
      case False
      then show ?thesis
        using loc TransSet e assms(3,4) has len b out rd
        by (auto simp: apply_transition_locked_def Let_def)
    qed
  next
    case (TransUnset bid h)
    note b = blocks_apply_unset [OF wf e, of bid _ h key, OF _ refl]
    have bid: "bid \<noteq> 0" using assms(4) TransUnset by simp
    have sh': "sh' = apply_unset_locked ?sh slot bid h key"
      using loc TransUnset e assms(3) by (simp add: apply_transition_locked_def Let_def)
    obtain e' where e': "shard_get sh' slot = Some e'" "me_key_fp e' = key_fp key"
      "me_unmined_since e' =
        (if blocks_of ?sh slot \<noteq> [] \<and> blocks_of sh' slot = [] then h else me_unmined_since e)"
      using b(2) [OF bid] assms(3) sh' by auto
    have "out = Applied \<lparr>ts_block_entries = blocks_of sh' slot,
        ts_unmined_since = me_unmined_since e', ts_de_flags = me_flags e' AND MINED_DE_FLAG_MASK,
        ts_all_spent = (me_flags e' AND MINED_ALL_SPENT \<noteq> 0)\<rparr>"
      using loc TransUnset e assms(3) sh'
      by (intro out [OF e'(1,2)]) (simp add: apply_transition_locked_def Let_def)
    then show ?thesis
      using b(1) [OF bid, of slot] rd [OF e'(1,2)] e'(3) TransUnset sh' by simp
  qed
qed

theorem mined_transition_spec_witness:
  "\<exists>mi out mi'. alloc_created (new_with_seed 16 7) (replicate 32 1) 4 = (0, mi) \<and>
    apply_mined_transition mi (replicate 32 1) 0 (TransUnset 5 9) = (out, mi') \<and>
    (let old = blocks_of (shard_of mi (replicate 32 1)) 0 in
    \<exists>ts. out = Applied ts \<and> set (ts_block_entries ts) = {b \<in> set old. be_block_id b \<noteq> 5} \<and>
      ts_unmined_since ts = (if old \<noteq> [] \<and> ts_block_entries ts = [] then 9 else 4) \<and>
      read_block_entries mi' (replicate 32 1) 0 = Some (ts_block_entries ts, ts_unmined_since ts))"
proof -
  obtain mi where new: "alloc_created (new_with_seed 16 7) (replicate 32 1) 4 = (0, mi)"
    and mi: "wf_mined mi" "mget mi (replicate 32 1) 0 = Some (fresh_entry (replicate 32 1) 4)"
    using alloc_in_new [of 16 7 "replicate 32 1" 4] by blast
  obtain out mi' where tr: "apply_mined_transition mi (replicate 32 1) 0 (TransUnset 5 9) = (out, mi')"
    by fastforce
  have fe: "me_unmined_since (fresh_entry (replicate 32 1) 4) = 4"
    "me_key_fp (fresh_entry (replicate 32 1) 4) = key_fp (replicate 32 1)"
    "tr_block_id (TransUnset 5 9) \<noteq> 0" by (simp_all add: fresh_entry_def)
  have "let old = blocks_of (shard_of mi (replicate 32 1)) 0 in
    \<exists>ts. out = Applied ts \<and> set (ts_block_entries ts) = {b \<in> set old. be_block_id b \<noteq> 5} \<and>
      ts_unmined_since ts = (if old \<noteq> [] \<and> ts_block_entries ts = [] then 9 else 4) \<and>
      read_block_entries mi' (replicate 32 1) 0 = Some (ts_block_entries ts, ts_unmined_since ts)"
    using mined_transition_spec [OF mi fe(2,3) tr] by (simp only: fe(1) mined_transition.case)
  then show ?thesis using new tr by blast
qed

text \<open>C17: the fingerprint guard.  After a record's slot was freed and the slot number may have been reused for a
  key with another fingerprint, every operation that checks the fingerprint and still holds the old
  key and slot number treats the entry as absent: the three reads and the transition report it as
  absent, the transition and the three flag writers leave the index as it is, and the new owner reads
  its own fresh entry.  The writers without a check (\<open>set_all_spent\<close>, \<open>set_longest_chain\<close>,
  \<open>apply_set_mined\<close>, \<open>apply_unset\<close>) are not covered.\<close>
theorem aba_guard:
  assumes "wf_mined mi" "length (entries (shard_of (mined_free mi k s) k')) < 2 ^ 32 - 1"
    and "alloc_created (mined_free mi k s) k' h = (s', mi')" "key_fp k' \<noteq> key_fp k"
  shows "read_block_entries mi' k s = None \<and> read_de_flags mi' k s = None \<and> is_all_spent mi' k s = None \<and>
    apply_mined_transition mi' k s tr = (SlotAbsent, mi') \<and>
    set_de_flag mi' k s fm b = mi' \<and> reseed_de_flags mi' k s de = mi' \<and> restore_de_flags mi' k s de = mi' \<and>
    read_block_entries mi' k' s' = Some ([], h)"
proof -
  have wf0: "wf_mined (mined_free mi k s)" using wf_mined_ops(1) assms(1) .
  note v = mget_alloc_created [OF wf0 assms(2,3)]
  have "mget (mined_free mi k s) k s = None" using mget_free [OF assms(1)] by (simp add: same_cell_def)
  then have g: "mget mi' k s = None \<or> (\<exists>e. mget mi' k s = Some e \<and> me_key_fp e \<noteq> key_fp k)"
    using v(3) [of k s] assms(4) by (auto simp: fresh_entry_def)
  have "apply_transition_locked (shard_of mi' k) k s tr = (SlotAbsent, shard_of mi' k)"
    using g by (auto simp: apply_transition_locked_def mget_def)
  moreover have "modify_flags_fp mi' k s f = mi'" for f by (rule modify_flags_absent [OF g])
  moreover have "read_block_entries mi' k' s' = Some ([], h)" by (rule read_created [OF wf0 assms(2,3)])
  ultimately show ?thesis
    using g by (auto simp: read_block_entries_mget read_de_flags_def is_all_spent_def with_entry_def
        apply_mined_transition_def set_de_flag_def reseed_de_flags_def restore_de_flags_def put_shard_same simp flip: mget_def)
qed

theorem aba_guard_witness:
  "\<exists>mi mi'. alloc_created (new_with_seed 16 7) (replicate 32 1) 4 = (0, mi) \<and>
    alloc_created (mined_free mi (replicate 32 1) 0) (replicate 4 2 @ replicate 28 1) 6 = (0, mi') \<and>
    read_block_entries mi' (replicate 32 1) 0 = None \<and> apply_mined_transition mi' (replicate 32 1) 0 (TransUnset 5 9) = (SlotAbsent, mi') \<and>
    read_block_entries mi' (replicate 4 2 @ replicate 28 1) 0 = Some ([], 6)"
proof -
  let ?A = "replicate 32 1 :: txkey" and ?B = "replicate 4 2 @ replicate 28 1 :: txkey"
  obtain mi where new: "alloc_created (new_with_seed 16 7) ?A 4 = (0, mi)" and mi: "wf_mined mi" "mget mi ?A 0 = Some (fresh_entry ?A 4)"
      "\<forall>k'. length (entries (shard_of mi k')) \<le> 1"
    using alloc_in_new [of 16 7 ?A 4] by blast
  have room: "length (entries (shard_of (mined_free mi ?A 0) ?B)) < 2 ^ 32 - 1"
    using spec [OF mi(3), of ?B] mi(1) by (simp add: length_entries_free)
  have same: "shard_for mi ?B = shard_for mi ?A" by (simp add: shard_for_def slice_def)
  obtain mi' where al: "alloc_created (mined_free mi ?A 0) ?B 6 = (0, mi')"
    using alloc_reuses [OF mi(1) _ same, of 0 6] mi(2) by auto
  have fp: "key_fp ?B \<noteq> key_fp ?A" by code_simp
  show ?thesis using aba_guard [OF mi(1) room al fp, of "TransUnset 5 9"] new al by blast
qed

text \<open>C18: the RAM path of setMined.  Evaluating the delete-at-height rule on the cached flag group
  mirrored from a header gives the same error, signal and patch as evaluating it on the header.\<close>
theorem ram_dah_matches_device:
  "let de = device_de_flags (flags meta) (preserve_until meta \<noteq> 0) in
   evaluate_dah_from_ram (tx_flags_from_de_flags de) (spent_utxos meta = utxo_count meta) has_blocks
      um (de AND MINED_PRESERVED \<noteq> 0) (delete_at_height meta) height retention =
    evaluate_delete_at_height meta has_blocks um height retention"
proof -
  let ?de = "device_de_flags (flags meta) (preserve_until meta \<noteq> 0)"
  have "evaluate_dah_from_ram (tx_flags_from_de_flags ?de) = evaluate_dah_from_ram (flags meta)"
    by (rule evaluate_dah_flags_cong) (simp_all add: bit_tx_flags_from_de_flags bit_device_de_flags)
  moreover have "(?de AND MINED_PRESERVED \<noteq> 0) = (preserve_until meta \<noteq> 0)"
    unfolding and_mined_flags by (simp add: bit_device_de_flags)
  ultimately show ?thesis using evaluators_agree by (simp only: Let_def)
qed

end
