(* ===== verification/Ordered_Map.thy ===== *)
theory Ordered_Map
  imports TS_Prelude
begin

text \<open>
  A Rust \<open>BTreeMap\<close> is an association list strictly sorted by key, a \<open>BTreeSet\<close> a strictly sorted
  list.  The lookup of a map is \<open>map_of\<close>; the lemmas give every update in those terms and keep the
  order.
\<close>

definition bt_update :: "'k::linorder \<Rightarrow> 'v \<Rightarrow> ('k \<times> 'v) list \<Rightarrow> ('k \<times> 'v) list" where
  "bt_update k v al = filter (\<lambda>(a, _). a < k) al @ (k, v) # filter (\<lambda>(a, _). k < a) al"

definition bt_delete :: "'k::linorder \<Rightarrow> ('k \<times> 'v) list \<Rightarrow> ('k \<times> 'v) list" where
  "bt_delete k al = filter (\<lambda>(a, _). a \<noteq> k) al"

definition bt_range :: "'k::linorder \<Rightarrow> 'k \<Rightarrow> ('k \<times> 'v) list \<Rightarrow> ('k \<times> 'v) list" where
  "bt_range lo hi al = filter (\<lambda>(a, _). lo \<le> a \<and> a \<le> hi) al"

abbreviation bt_sorted :: "('k::linorder \<times> 'v) list \<Rightarrow> bool" where
  "bt_sorted al \<equiv> sorted_wrt (<) (map fst al)"

definition bs_insert :: "'a::linorder \<Rightarrow> 'a list \<Rightarrow> 'a list" where
  "bs_insert x xs = filter (\<lambda>y. y < x) xs @ x # filter (\<lambda>y. x < y) xs"

definition bs_remove :: "'a::linorder \<Rightarrow> 'a list \<Rightarrow> 'a list" where
  "bs_remove x xs = filter (\<lambda>y. y \<noteq> x) xs"

section \<open>Maps\<close>

lemma map_of_filter_fst: "map_of (filter (\<lambda>(a, _). P a) al) k = (if P k then map_of al k else None)"
  by (induction al) auto

lemma map_of_bt_update [simp]: "map_of (bt_update k v al) = (map_of al)(k \<mapsto> v)"
  by (rule ext) (auto simp: bt_update_def map_of_filter_fst map_add_def split: option.splits)

lemma map_of_bt_delete [simp]: "map_of (bt_delete k al) = (map_of al)(k := None)"
  by (rule ext) (auto simp: bt_delete_def map_of_filter_fst)

lemma bt_sorted_filter: "bt_sorted al \<Longrightarrow> bt_sorted (filter P al)"
  by (induction al) auto

lemma bt_sorted_update [simp]: "bt_sorted al \<Longrightarrow> bt_sorted (bt_update k v al)"
  unfolding bt_update_def by (auto simp: sorted_wrt_append bt_sorted_filter intro: less_trans)

lemma bt_sorted_delete [simp]: "bt_sorted al \<Longrightarrow> bt_sorted (bt_delete k al)"
  unfolding bt_delete_def by (rule bt_sorted_filter)

lemma bt_sorted_distinct: "bt_sorted al \<Longrightarrow> distinct (map fst al)"
  by (simp add: strict_sorted_iff)

lemma bt_member: "bt_sorted al \<Longrightarrow> (h, ks) \<in> set al \<longleftrightarrow> map_of al h = Some ks"
  by (simp add: bt_sorted_distinct)

lemma set_bt_delete: "set (bt_delete k al) = {(a, b) \<in> set al. a \<noteq> k}"
  by (auto simp: bt_delete_def)

lemma set_bt_update: "set (bt_update k v al) = insert (k, v) {(a, b) \<in> set al. a \<noteq> k}"
  by (auto simp: bt_update_def)

lemma bt_delete_absent: "map_of al k = None \<Longrightarrow> bt_delete k al = al"
  by (force simp: bt_delete_def map_of_eq_None_iff intro!: filter_True)

lemma bt_eqI:
  assumes "bt_sorted xs" "bt_sorted ys" "set xs = set ys"
  shows "xs = ys"
proof (rule map_sorted_distinct_set_unique [of fst])
  show "inj_on fst (set xs \<union> set ys)"
    using assms by (simp add: strict_sorted_iff distinct_map)
qed (use assms in \<open>simp_all add: strict_sorted_iff\<close>)

section \<open>Sets\<close>

lemma set_bs_insert [simp]: "set (bs_insert x xs) = insert x (set xs)"
  by (auto simp: bs_insert_def)

lemma set_bs_remove [simp]: "set (bs_remove x xs) = set xs - {x}"
  by (auto simp: bs_remove_def)

lemma bs_sorted_filter: "sorted_wrt (<) xs \<Longrightarrow> sorted_wrt (<) (filter P xs)"
  by (induction xs) auto

lemma bs_sorted_insert [simp]: "sorted_wrt (<) xs \<Longrightarrow> sorted_wrt (<) (bs_insert x (xs :: 'a::linorder list))"
  unfolding bs_insert_def by (auto simp: sorted_wrt_append bs_sorted_filter intro: less_trans)

lemma bs_sorted_remove [simp]: "sorted_wrt (<) xs \<Longrightarrow> sorted_wrt (<) (bs_remove x (xs :: 'a::linorder list))"
  unfolding bs_remove_def by (rule bs_sorted_filter)

end
