(* ===== verification/Height_Index.thy ===== *)
theory Height_Index
  imports Op_Types Ordered_Map
begin

text \<open>
  The secondary indexes keyed by block height, \<open>src/src/index/dah_index.rs\<close> and
  \<open>src/src/index/preserve_index.rs\<close>, and the set of conflicting transactions of
  \<open>src/src/index/conflicting_index.rs\<close>.  Both height indexes keep a forward map from heights to
  buckets and a reverse map from transactions to heights; the contract the engine relies on is the
  locale \<open>height_index\<close>, which both implement.
\<close>

section \<open>The two height indexes\<close>

record height_maps =
  by_height :: "(u32 \<times> txkey list) list"
  by_txid :: "(txkey, u32) hashmap"

definition hi_empty :: height_maps where
  "hi_empty = \<lparr>by_height = [], by_txid = []\<rparr>"

definition hi_bucket :: "height_maps \<Rightarrow> u32 \<Rightarrow> txkey list" where
  "hi_bucket i h = (case map_of (by_height i) h of Some ks \<Rightarrow> ks | None \<Rightarrow> [])"

definition remove_from_height_vec :: "height_maps \<Rightarrow> u32 \<Rightarrow> txkey \<Rightarrow> height_maps" where
  "remove_from_height_vec i h key =
    (case map_of (by_height i) h of
       Some ks \<Rightarrow>
         let ks' = filter (\<lambda>k. k \<noteq> key) ks in
         i\<lparr>by_height := (if ks' = [] then bt_delete h (by_height i) else bt_update h ks' (by_height i))\<rparr>
     | None \<Rightarrow> i)"

text \<open>The tail of both inserts, over the bucket's own insertion: a hash-set insert for the
  delete-at-height index, a push for the preserve index.\<close>

definition hi_put ::
  "(txkey \<Rightarrow> txkey list \<Rightarrow> txkey list) \<Rightarrow> height_maps \<Rightarrow> u32 \<Rightarrow> txkey \<Rightarrow> height_maps" where
  "hi_put bucket_insert i h key =
    i\<lparr>by_txid := AList.update key h (by_txid i),
      by_height := bt_update h (bucket_insert key (hi_bucket i h)) (by_height i)\<rparr>"

definition hi_insert ::
  "(txkey \<Rightarrow> txkey list \<Rightarrow> txkey list) \<Rightarrow> height_maps \<Rightarrow> u32 \<Rightarrow> txkey \<Rightarrow> height_maps" where
  "hi_insert bucket_insert i h key =
    (case map_of (by_txid i) key of
       Some old \<Rightarrow>
         if old = h then i else hi_put bucket_insert (remove_from_height_vec i old key) h key
     | None \<Rightarrow> hi_put bucket_insert i h key)"

definition hi_remove :: "height_maps \<Rightarrow> txkey \<Rightarrow> height_maps" where
  "hi_remove i key =
    (case map_of (by_txid i) key of
       Some h \<Rightarrow> remove_from_height_vec (i\<lparr>by_txid := AList.delete key (by_txid i)\<rparr>) h key
     | None \<Rightarrow> i)"

definition set_insert :: "txkey \<Rightarrow> txkey list \<Rightarrow> txkey list" where
  "set_insert k ks = (if k \<in> set ks then ks else k # ks)"

definition vec_push :: "txkey \<Rightarrow> txkey list \<Rightarrow> txkey list" where
  "vec_push k ks = ks @ [k]"

definition dah_insert :: "height_maps \<Rightarrow> u32 \<Rightarrow> txkey \<Rightarrow> height_maps" where
  "dah_insert = hi_insert set_insert"

definition dah_remove :: "height_maps \<Rightarrow> txkey \<Rightarrow> height_maps" where
  "dah_remove = hi_remove"

definition dah_get_height :: "height_maps \<Rightarrow> txkey \<Rightarrow> u32 option" where
  "dah_get_height i key = map_of (by_txid i) key"

definition dah_range_query :: "height_maps \<Rightarrow> u32 \<Rightarrow> txkey list" where
  "dah_range_query i current = concat (map snd (bt_range 0 current (by_height i)))"

fun take_until :: "nat \<Rightarrow> txkey list \<Rightarrow> (u32 \<times> txkey list) list \<Rightarrow> txkey list" where
  "take_until limit acc [] = acc"
| "take_until limit acc ((h, []) # rest) = take_until limit acc rest"
| "take_until limit acc ((h, k # ks) # rest) =
    (let acc = acc @ [k] in if limit \<le> length acc then acc else take_until limit acc ((h, ks) # rest))"

definition dah_range_query_limited :: "height_maps \<Rightarrow> u32 \<Rightarrow> nat \<Rightarrow> txkey list" where
  "dah_range_query_limited i current limit =
    (if limit = 0 then [] else take_until limit [] (bt_range 0 current (by_height i)))"

record dah_redo_entry =
  re_txid :: txkey
  re_old_height :: u32
  re_new_height :: u32

definition dah_replay_redo :: "height_maps \<Rightarrow> dah_redo_entry \<Rightarrow> height_maps" where
  "dah_replay_redo i entry =
    (if re_new_height entry = 0 then dah_remove i (re_txid entry)
     else
       case map_of (by_txid i) (re_txid entry) of
         Some old \<Rightarrow>
           if old = re_new_height entry then i
           else hi_put set_insert (remove_from_height_vec i old (re_txid entry))
                  (re_new_height entry) (re_txid entry)
       | None \<Rightarrow> hi_put set_insert i (re_new_height entry) (re_txid entry))"

definition preserve_insert :: "height_maps \<Rightarrow> u32 \<Rightarrow> txkey \<Rightarrow> height_maps" where
  "preserve_insert = hi_insert vec_push"

definition preserve_remove :: "height_maps \<Rightarrow> txkey \<Rightarrow> height_maps" where
  "preserve_remove = hi_remove"

definition preserve_range_query :: "height_maps \<Rightarrow> u32 \<Rightarrow> txkey list" where
  "preserve_range_query i current =
    (if current = 0 then [] else concat (map snd (bt_range 1 current (by_height i))))"

definition preserve_range_query_limited :: "height_maps \<Rightarrow> u32 \<Rightarrow> nat \<Rightarrow> txkey list" where
  "preserve_range_query_limited i current limit =
    (if limit = 0 \<or> current = 0 then [] else take_until limit [] (bt_range 1 current (by_height i)))"

text \<open>The engine's \<open>update_dah_index\<close> and \<open>update_preserve_index\<close>: move a transaction between heights,
  with 0 for absent.\<close>

definition hi_move ::
  "('i \<Rightarrow> u32 \<Rightarrow> txkey \<Rightarrow> 'i) \<Rightarrow> ('i \<Rightarrow> txkey \<Rightarrow> 'i) \<Rightarrow> 'i \<Rightarrow> txkey \<Rightarrow> u32 \<Rightarrow> u32 \<Rightarrow> 'i" where
  "hi_move ins del i key old new =
    (if old = new then i
     else
       let i = (if old \<noteq> 0 then del i key else i)
       in if new \<noteq> 0 then ins i new key else i)"

definition hi_inv :: "height_maps \<Rightarrow> bool" where
  "hi_inv i \<longleftrightarrow> bt_sorted (by_height i) \<and>
    (\<forall>h ks. map_of (by_height i) h = Some ks \<longrightarrow> ks \<noteq> [] \<and> distinct ks) \<and>
    (\<forall>h k. k \<in> set (hi_bucket i h) \<longleftrightarrow> map_of (by_txid i) k = Some h)"

definition hi_len :: "height_maps \<Rightarrow> nat" where
  "hi_len i = length (by_txid i)"

definition hi_clear :: "height_maps \<Rightarrow> height_maps" where
  "hi_clear i = i\<lparr>by_height := [], by_txid := []\<rparr>"

definition hi_iter :: "height_maps \<Rightarrow> (u32 \<times> txkey) list" where
  "hi_iter i = concat (map (\<lambda>(h, ks). map (Pair h) ks) (by_height i))"

definition hi_shape :: "height_maps \<Rightarrow> bool" where
  "hi_shape i \<longleftrightarrow> bt_sorted (by_height i) \<and>
    (\<forall>h ks. map_of (by_height i) h = Some ks \<longrightarrow> ks \<noteq> [] \<and> distinct ks)"

text \<open>What both bucket insertions share.\<close>

definition bucket_law :: "(txkey \<Rightarrow> txkey list \<Rightarrow> txkey list) \<Rightarrow> bool" where
  "bucket_law f \<longleftrightarrow> (\<forall>k ks. f k ks \<noteq> [] \<and> set (f k ks) = insert k (set ks) \<and>
    (distinct ks \<longrightarrow> k \<notin> set ks \<longrightarrow> distinct (f k ks)))"

text \<open>The operations an index sees in its life, and the map from transactions to heights they
  describe.\<close>

datatype hi_op =
    OpInsert u32 txkey
  | OpRemove txkey
  | OpReplay dah_redo_entry
  | OpClear

fun dah_apply :: "hi_op \<Rightarrow> height_maps \<Rightarrow> height_maps" where
  "dah_apply (OpInsert h k) i = dah_insert i h k"
| "dah_apply (OpRemove k) i = dah_remove i k"
| "dah_apply (OpReplay e) i = dah_replay_redo i e"
| "dah_apply OpClear i = hi_clear i"

fun height_spec :: "hi_op \<Rightarrow> (txkey \<rightharpoonup> u32) \<Rightarrow> (txkey \<rightharpoonup> u32)" where
  "height_spec (OpInsert h k) m = m(k \<mapsto> h)"
| "height_spec (OpRemove k) m = m(k := None)"
| "height_spec (OpReplay e) m =
    m(re_txid e := (if re_new_height e = 0 then None else Some (re_new_height e)))"
| "height_spec OpClear m = Map.empty"

text \<open>The preserve index is never journalled: a replayed entry reaches it as the plain operation.\<close>

fun preserve_apply :: "hi_op \<Rightarrow> height_maps \<Rightarrow> height_maps" where
  "preserve_apply (OpInsert h k) i = preserve_insert i h k"
| "preserve_apply (OpRemove k) i = preserve_remove i k"
| "preserve_apply (OpReplay e) i =
    (if re_new_height e = 0 then preserve_remove i (re_txid e)
     else preserve_insert i (re_new_height e) (re_txid e))"
| "preserve_apply OpClear i = hi_clear i"

section \<open>Conflicting transactions\<close>

definition conflicting_insert :: "txkey set \<Rightarrow> txkey \<Rightarrow> txkey set" where
  "conflicting_insert i k = insert k i"

definition conflicting_remove :: "txkey set \<Rightarrow> txkey \<Rightarrow> txkey set" where
  "conflicting_remove i k = i - {k}"

section \<open>The contract of a height index\<close>

locale height_index =
  fixes empty :: 'i
    and ins :: "'i \<Rightarrow> u32 \<Rightarrow> txkey \<Rightarrow> 'i"
    and del :: "'i \<Rightarrow> txkey \<Rightarrow> 'i"
    and height_of :: "'i \<Rightarrow> txkey \<Rightarrow> u32 option"
    and due :: "'i \<Rightarrow> u32 \<Rightarrow> txkey list"
    and inv :: "'i \<Rightarrow> bool"
  assumes empty_height: "height_of empty k = None"
    and inv_empty: "inv empty"
    and ins_height: "inv i \<Longrightarrow> height_of (ins i h key) = (height_of i)(key \<mapsto> h)"
    and inv_ins: "inv i \<Longrightarrow> inv (ins i h key)"
    and del_height: "inv i \<Longrightarrow> height_of (del i key) = (height_of i)(key := None)"
    and inv_del: "inv i \<Longrightarrow> inv (del i key)"
    and due_set: "inv i \<Longrightarrow> current \<noteq> 0 \<Longrightarrow>
      {k \<in> set (due i current). height_of i k \<noteq> Some 0} =
        {k. \<exists>h. height_of i k = Some h \<and> h \<noteq> 0 \<and> h \<le> current}"
    and due_ordered: "inv i \<Longrightarrow> distinct (due i current) \<and>
      sorted (map (\<lambda>k. the (height_of i k)) (due i current))"
begin

lemma inv_move: "inv i \<Longrightarrow> inv (hi_move ins del i key old new)"
  by (auto simp: hi_move_def Let_def inv_ins inv_del)

text \<open>When the caller's idea of the old height is the index's own, a move is exact.\<close>

lemma move_height:
  assumes "inv i" "height_of i key = (if old = 0 then None else Some old)"
  shows "height_of (hi_move ins del i key old new) =
    (height_of i)(key := (if new = 0 then None else Some new))"
  using assms by (auto simp: hi_move_def Let_def ins_height del_height inv_del fun_eq_iff)

lemma move_other:
  assumes "inv i" "k \<noteq> key"
  shows "height_of (hi_move ins del i key old new) k = height_of i k"
  using assms by (auto simp: hi_move_def Let_def ins_height del_height inv_del)

lemma move_new:
  assumes "inv i" "old \<noteq> new" "new \<noteq> 0"
  shows "height_of (hi_move ins del i key old new) key = Some new"
  using assms by (auto simp: hi_move_def Let_def ins_height del_height inv_del)

lemma moved_is_due:
  assumes "inv i" "old \<noteq> new" "new \<noteq> 0" "new \<le> current"
  shows "key \<in> set (due (hi_move ins del i key old new) current)"
proof -
  have "current \<noteq> 0" using assms(3,4) by auto
  then show ?thesis
    using due_set [OF inv_move [OF assms(1)]] move_new [OF assms(1-3)] assms(3,4) by blast
qed

lemma removed_not_due:
  assumes "inv i" "height_of i key = None" "current \<noteq> 0"
  shows "key \<notin> set (due i current)"
proof
  assume "key \<in> set (due i current)"
  then have "key \<in> {k \<in> set (due i current). height_of i k \<noteq> Some 0}" using assms(2) by simp
  then show False unfolding due_set [OF assms(1,3)] using assms(2) by simp
qed

end

section \<open>Both indexes meet it\<close>

lemma remove_by_txid [simp]: "by_txid (remove_from_height_vec i h key) = by_txid i"
  by (simp add: remove_from_height_vec_def Let_def split: option.splits)

lemma remove_bucket [simp]:
  "hi_bucket (remove_from_height_vec i h key) h' =
    (if h' = h then filter (\<lambda>k. k \<noteq> key) (hi_bucket i h) else hi_bucket i h')"
  by (auto simp: remove_from_height_vec_def Let_def hi_bucket_def split: option.splits)

lemma hi_inv_alt:
  "hi_inv i \<longleftrightarrow> hi_shape i \<and> (\<forall>h k. k \<in> set (hi_bucket i h) \<longleftrightarrow> map_of (by_txid i) k = Some h)"
  unfolding hi_inv_def hi_shape_def by blast

lemma shape_remove: "hi_shape i \<Longrightarrow> hi_shape (remove_from_height_vec i h key)"
  unfolding hi_shape_def remove_from_height_vec_def
  by (auto simp: Let_def distinct_filter split: option.splits if_splits)

lemma shape_bucket: "hi_shape i \<Longrightarrow> distinct (hi_bucket i h)"
  unfolding hi_shape_def hi_bucket_def by (auto split: option.splits)

lemma shape_put:
  "hi_shape i \<Longrightarrow> ks \<noteq> [] \<Longrightarrow> distinct ks \<Longrightarrow> hi_shape (i\<lparr>by_height := bt_update h ks (by_height i)\<rparr>)"
  unfolding hi_shape_def by (auto split: if_splits)

lemma bucket_put [simp]:
  "hi_bucket (i\<lparr>by_height := bt_update h ks (by_height i)\<rparr>) = (hi_bucket i)(h := ks)"
  by (rule ext) (simp add: hi_bucket_def)

lemma bucket_txid [simp]: "hi_bucket (i\<lparr>by_txid := m\<rparr>) = hi_bucket i"
  by (rule ext) (simp add: hi_bucket_def)

lemma shape_txid [simp]: "hi_shape (i\<lparr>by_txid := m\<rparr>) = hi_shape i"
  by (simp add: hi_shape_def)

lemma bucket_law_set: "bucket_law set_insert"
  by (auto simp: bucket_law_def set_insert_def)

lemma bucket_law_vec: "bucket_law vec_push"
  by (auto simp: bucket_law_def vec_push_def)

lemma hi_inv_put:
  assumes "bucket_law f" "hi_shape i" "\<And>h. key \<notin> set (hi_bucket i h)"
    and "\<And>h k. k \<noteq> key \<Longrightarrow> k \<in> set (hi_bucket i h) \<longleftrightarrow> map_of (by_txid i) k = Some h"
  shows "hi_inv (hi_put f i h key)" (is "hi_inv ?j")
proof -
  have f: "f key (hi_bucket i h) \<noteq> []" "set (f key (hi_bucket i h)) = insert key (set (hi_bucket i h))"
    "distinct (f key (hi_bucket i h))"
    using assms(1,3) shape_bucket [OF assms(2)] unfolding bucket_law_def by blast+
  have j: "hi_bucket ?j = (hi_bucket i)(h := f key (hi_bucket i h))"
    by (rule ext) (simp add: hi_bucket_def hi_put_def)
  have "hi_shape ?j"
    using shape_put [of "i\<lparr>by_txid := AList.update key h (by_txid i)\<rparr>"] assms(2) f
    by (simp add: hi_put_def)
  then show ?thesis
    unfolding hi_inv_alt j using assms(3,4) f by (auto simp: update_conv' hi_put_def)
qed

lemma hi_put_height [simp]:
  "map_of (by_txid (hi_put f i h key)) = (map_of (by_txid i))(key \<mapsto> h)"
  by (simp add: hi_put_def update_conv')

lemma hi_inv_insert: "bucket_law f \<Longrightarrow> hi_inv i \<Longrightarrow> hi_inv (hi_insert f i h key)"
  unfolding hi_insert_def
  by (auto simp: hi_inv_alt [of i] split: option.split if_splits intro!: hi_inv_put shape_remove)

lemma hi_insert_height:
  "map_of (by_txid (hi_insert f i h key)) = (map_of (by_txid i))(key \<mapsto> h)"
  unfolding hi_insert_def by (auto simp: fun_eq_iff split: option.split)

lemma hi_inv_remove: "hi_inv i \<Longrightarrow> hi_inv (hi_remove i key)"
  by (auto simp: hi_remove_def hi_inv_alt delete_conv' shape_remove split: option.split if_splits)

lemma hi_remove_height:
  "map_of (by_txid (hi_remove i key)) = (map_of (by_txid i))(key := None)"
  by (auto simp: hi_remove_def delete_conv' fun_eq_iff split: option.split)

lemma mem_range:
  assumes "hi_inv i"
  shows "k \<in> set (concat (map snd (bt_range lo hi (by_height i)))) \<longleftrightarrow>
    (\<exists>h. map_of (by_txid i) k = Some h \<and> lo \<le> h \<and> h \<le> hi)"
proof -
  have "k \<in> set (concat (map snd (bt_range lo hi (by_height i)))) \<longleftrightarrow>
      (\<exists>h ks. (h, ks) \<in> set (by_height i) \<and> k \<in> set ks \<and> lo \<le> h \<and> h \<le> hi)"
    by (force simp: bt_range_def)
  also have "\<dots> \<longleftrightarrow> (\<exists>h. k \<in> set (hi_bucket i h) \<and> lo \<le> h \<and> h \<le> hi)"
  proof -
    have "bt_sorted (by_height i)" using assms unfolding hi_inv_def by blast
    moreover have "k \<in> set (hi_bucket i h) \<longleftrightarrow> (\<exists>ks. map_of (by_height i) h = Some ks \<and> k \<in> set ks)" for h
      by (cases "map_of (by_height i) h") (simp_all add: hi_bucket_def)
    ultimately show ?thesis by (auto simp del: map_of_eq_Some_iff simp: bt_member)
  qed
  finally show ?thesis using assms unfolding hi_inv_def by auto
qed

text \<open>A list of buckets whose keys carry the bucket's height concatenates to a list without
  duplicates and in the order of the heights.\<close>

lemma concat_buckets:
  assumes "bt_sorted al" "\<And>h ks k. (h, ks) \<in> set al \<Longrightarrow> k \<in> set ks \<Longrightarrow> f k = Some h"
    and "\<And>h ks. (h, ks) \<in> set al \<Longrightarrow> distinct ks"
  shows "distinct (concat (map snd al)) \<and> sorted (map (\<lambda>k. the (f k)) (concat (map snd al)))"
  using assms
proof (induction al)
  case (Cons b al)
  obtain h ks where b: "b = (h, ks)" by force
  have IH: "distinct (concat (map snd al)) \<and> sorted (map (\<lambda>k. the (f k)) (concat (map snd al)))"
  proof (rule Cons.IH)
    show "bt_sorted al" using Cons.prems(1) by simp
    show "f k = Some h" if "(h, ks) \<in> set al" "k \<in> set ks" for h ks k
      using Cons.prems(2) [of h ks k] that by simp
    show "distinct ks" if "(h, ks) \<in> set al" for h ks
      using Cons.prems(3) [of h ks] that by simp
  qed
  have here: "f k = Some h" if "k \<in> set ks" for k using Cons.prems(2) [of h ks] that b by simp
  have later: "\<exists>h'. h < h' \<and> f k = Some h'" if "k \<in> set (concat (map snd al))" for k
  proof -
    from that obtain h' ks' where "(h', ks') \<in> set al" "k \<in> set ks'" by auto
    moreover then have "h < h'" using Cons.prems(1) b by force
    ultimately show ?thesis using Cons.prems(2) [of h' ks'] by auto
  qed
  have "set ks \<inter> set (concat (map snd al)) = {}" using here later by fastforce
  moreover have "sorted (map (\<lambda>k. the (f k)) ks)"
    using here by (auto simp: sorted_iff_nth_mono)
  moreover have "\<forall>x \<in> set ks. \<forall>y \<in> set (concat (map snd al)). the (f x) \<le> the (f y)"
    using here later by fastforce
  ultimately show ?case
    using IH Cons.prems(3) [of h ks] b by (auto simp: sorted_append)
qed simp

lemma range_ordered:
  assumes "hi_inv i"
  shows "distinct (concat (map snd (bt_range lo hi (by_height i)))) \<and>
    sorted (map (\<lambda>k. the (map_of (by_txid i) k)) (concat (map snd (bt_range lo hi (by_height i)))))"
proof (rule concat_buckets)
  have s: "bt_sorted (by_height i)" using assms unfolding hi_inv_def by blast
  then show "bt_sorted (bt_range lo hi (by_height i))" unfolding bt_range_def by (rule bt_sorted_filter)
  fix h ks assume "(h, ks) \<in> set (bt_range lo hi (by_height i))"
  then have m: "map_of (by_height i) h = Some ks" using bt_member [OF s] by (simp add: bt_range_def)
  then show "distinct ks" using assms unfolding hi_inv_def by blast
  fix k assume "k \<in> set ks"
  then have "k \<in> set (hi_bucket i h)" using m by (simp add: hi_bucket_def)
  then show "map_of (by_txid i) k = Some h" using assms unfolding hi_inv_def by blast
qed

lemma u32_ge_1: "(1::u32) \<le> h \<longleftrightarrow> h \<noteq> 0"
  by (simp add: word_le_nat_alt unat_gt_0 Suc_le_eq)

lemma take_until_take:
  "length acc < limit \<Longrightarrow> take_until limit acc al = take limit (acc @ concat (map snd al))"
proof (induction limit acc al rule: take_until.induct)
  case (3 limit acc h k ks rest)
  then show ?case
    by (cases "limit \<le> Suc (length acc)") (auto simp: Let_def not_le le_Suc_eq)
qed auto

lemma hi_inv_empty: "hi_inv hi_empty"
  by (simp add: hi_inv_def hi_empty_def hi_bucket_def)

lemma hi_empty_height [simp]: "map_of (by_txid hi_empty) k = None"
  by (simp add: hi_empty_def)

interpretation dah: height_index hi_empty dah_insert dah_remove dah_get_height dah_range_query hi_inv
proof unfold_locales
  fix i :: height_maps and current :: u32
  assume "hi_inv i" "current \<noteq> 0"
  then show "{k \<in> set (dah_range_query i current). dah_get_height i k \<noteq> Some 0} =
      {k. \<exists>h. dah_get_height i k = Some h \<and> h \<noteq> 0 \<and> h \<le> current}"
    by (auto simp del: set_concat simp: dah_range_query_def dah_get_height_def mem_range)
next
  fix i :: height_maps and current :: u32
  assume "hi_inv i"
  then show "distinct (dah_range_query i current) \<and>
      sorted (map (\<lambda>k. the (dah_get_height i k)) (dah_range_query i current))"
    unfolding dah_range_query_def dah_get_height_def by (rule range_ordered)
qed (auto simp: dah_insert_def dah_remove_def dah_get_height_def fun_eq_iff hi_insert_height
  hi_remove_height hi_inv_empty hi_inv_remove hi_inv_insert bucket_law_set)

interpretation prs: height_index hi_empty preserve_insert preserve_remove
  dah_get_height preserve_range_query hi_inv
proof unfold_locales
  fix i :: height_maps and current :: u32
  assume "hi_inv i" "current \<noteq> 0"
  then show "{k \<in> set (preserve_range_query i current). dah_get_height i k \<noteq> Some 0} =
      {k. \<exists>h. dah_get_height i k = Some h \<and> h \<noteq> 0 \<and> h \<le> current}"
    by (auto simp del: set_concat simp: preserve_range_query_def dah_get_height_def mem_range u32_ge_1)
next
  fix i :: height_maps and current :: u32
  assume "hi_inv i"
  then show "distinct (preserve_range_query i current) \<and>
      sorted (map (\<lambda>k. the (dah_get_height i k)) (preserve_range_query i current))"
    unfolding preserve_range_query_def dah_get_height_def
    using range_ordered [of i 1 current] by (simp split: if_splits)
qed (auto simp: preserve_insert_def preserve_remove_def dah_get_height_def fun_eq_iff hi_insert_height
  hi_remove_height hi_inv_empty hi_inv_remove hi_inv_insert bucket_law_vec)

section \<open>Histories\<close>

lemma replay_is_insert:
  "dah_replay_redo i e = (if re_new_height e = 0 then dah_remove i (re_txid e)
     else dah_insert i (re_new_height e) (re_txid e))"
  by (simp add: dah_replay_redo_def dah_insert_def hi_insert_def)

lemma replay_height:
  "dah_get_height (dah_replay_redo i e) = height_spec (OpReplay e) (dah_get_height i)"
  by (auto simp: replay_is_insert dah_get_height_def fun_eq_iff dah_remove_def dah_insert_def
      hi_remove_height hi_insert_height)

lemma clear_inv: "hi_inv (hi_clear i)" "dah_get_height (hi_clear i) = Map.empty"
  by (auto simp: hi_clear_def hi_inv_def hi_bucket_def dah_get_height_def)

lemma dah_apply_refines:
  "hi_inv i \<Longrightarrow> hi_inv (dah_apply op i) \<and> dah_get_height (dah_apply op i) = height_spec op (dah_get_height i)"
  by (cases op) (auto simp: clear_inv dah.inv_ins dah.inv_del dah.ins_height dah.del_height
      replay_is_insert)

lemma preserve_apply_refines:
  "hi_inv i \<Longrightarrow> hi_inv (preserve_apply op i) \<and>
    dah_get_height (preserve_apply op i) = height_spec op (dah_get_height i)"
  by (cases op) (auto simp: clear_inv prs.inv_ins prs.inv_del prs.ins_height prs.del_height)

lemma fold_refines:
  assumes "\<And>op i. hi_inv i \<Longrightarrow> hi_inv (f op i) \<and> dah_get_height (f op i) = height_spec op (dah_get_height i)"
    and "hi_inv i"
  shows "hi_inv (fold f ops i) \<and> dah_get_height (fold f ops i) = fold height_spec ops (dah_get_height i)"
  using assms(2) by (induction ops arbitrary: i) (simp_all add: assms(1))

lemma empty_height: "dah_get_height hi_empty = Map.empty"
  by (rule ext) (simp add: dah_get_height_def)

lemma dah_due:
  "hi_inv i \<Longrightarrow> set (dah_range_query i current) = {k. \<exists>h. dah_get_height i k = Some h \<and> h \<le> current}"
  by (auto simp: dah_get_height_def dah_range_query_def mem_range simp del: set_concat)

lemma preserve_due:
  "hi_inv i \<Longrightarrow> set (preserve_range_query i current) =
    {k. \<exists>h. dah_get_height i k = Some h \<and> h \<noteq> 0 \<and> h \<le> current}"
  by (auto simp: dah_get_height_def preserve_range_query_def mem_range u32_ge_1 simp del: set_concat)

text \<open>C19: after any sequence of inserts, removes, replayed redo entries and clears, the
  delete-at-height index holds exactly the heights of the map those operations describe.  Its range
  query returns each transaction due by the given height once and no other, in ascending order of
  height, and the limited query the sweep uses returns the first entries of that list.\<close>

theorem dah_index_history:
  "let i = fold dah_apply ops hi_empty; m = fold height_spec ops Map.empty in
     dah_get_height i = m \<and>
     set (dah_range_query i current) = {k. \<exists>h. m k = Some h \<and> h \<le> current} \<and>
     distinct (dah_range_query i current) \<and>
     sorted (map (\<lambda>k. the (m k)) (dah_range_query i current)) \<and>
     dah_range_query_limited i current limit = take limit (dah_range_query i current)"
proof -
  have r: "hi_inv (fold dah_apply ops hi_empty) \<and>
      dah_get_height (fold dah_apply ops hi_empty) = fold height_spec ops Map.empty"
    using fold_refines [OF dah_apply_refines hi_inv_empty] by (simp add: empty_height)
  have "dah_range_query_limited j current limit = take limit (dah_range_query j current)" for j
    by (simp add: dah_range_query_limited_def dah_range_query_def take_until_take)
  with r dah.due_ordered [OF r [THEN conjunct1], of current] dah_due [OF r [THEN conjunct1]]
  show ?thesis unfolding Let_def by simp
qed

text \<open>C20: the preserve index refines the same map of heights, and its range query never reports the
  height 0 that stands for not preserved.\<close>

theorem preserve_index_history:
  "let i = fold preserve_apply ops hi_empty; m = fold height_spec ops Map.empty in
     set (preserve_range_query i current) = {k. \<exists>h. m k = Some h \<and> h \<noteq> 0 \<and> h \<le> current} \<and>
     distinct (preserve_range_query i current) \<and>
     sorted (map (\<lambda>k. the (m k)) (preserve_range_query i current)) \<and>
     preserve_range_query_limited i current limit = take limit (preserve_range_query i current)"
proof -
  have r: "hi_inv (fold preserve_apply ops hi_empty) \<and>
      dah_get_height (fold preserve_apply ops hi_empty) = fold height_spec ops Map.empty"
    using fold_refines [OF preserve_apply_refines hi_inv_empty] by (simp add: empty_height)
  have "preserve_range_query_limited j current limit = take limit (preserve_range_query j current)" for j
    by (simp add: preserve_range_query_limited_def preserve_range_query_def take_until_take)
  with r prs.due_ordered [OF r [THEN conjunct1], of current] preserve_due [OF r [THEN conjunct1]]
  show ?thesis unfolding Let_def by simp
qed

text \<open>C21: recovery may replay the redo log of the delete-at-height index from any point it already
  replayed: replaying a prefix of the log and then the whole log gives the heights of one replay,
  and replaying one entry twice leaves the index itself unchanged.\<close>

theorem dah_replay_idempotent:
  "dah_get_height (fold (\<lambda>e i. dah_replay_redo i e) log (fold (\<lambda>e i. dah_replay_redo i e) (take n log) i)) =
     dah_get_height (fold (\<lambda>e i. dah_replay_redo i e) log i) \<and>
   dah_replay_redo (dah_replay_redo i e) e = dah_replay_redo i e"
proof -
  have fold: "dah_get_height (fold (\<lambda>e i. dah_replay_redo i e) l i) k =
      (case find (\<lambda>e. re_txid e = k) (rev l) of
         Some e \<Rightarrow> if re_new_height e = 0 then None else Some (re_new_height e)
       | None \<Rightarrow> dah_get_height i k)" for l i k
    by (induction l rule: rev_induct) (auto simp: replay_height)
  have "re_txid e \<noteq> k" if "find (\<lambda>e. re_txid e = k) (rev log) = None" "e \<in> set (take n log)" for e k
    using that by (auto simp: find_None_iff dest: in_set_takeD)
  then have "find (\<lambda>e. re_txid e = k) (rev (take n log)) = None"
    if "find (\<lambda>e. re_txid e = k) (rev log) = None" for k
    using that by (auto simp: find_None_iff)
  then have "dah_get_height (fold (\<lambda>e i. dah_replay_redo i e) log (fold (\<lambda>e i. dah_replay_redo i e) (take n log) i)) k =
     dah_get_height (fold (\<lambda>e i. dah_replay_redo i e) log i) k" for k
    by (auto simp: fold split: option.split)
  moreover have "dah_replay_redo (dah_replay_redo i e) e = dah_replay_redo i e"
    by (auto simp: dah_replay_redo_def dah_remove_def hi_remove_def delete_conv' split: option.split)
  ultimately show ?thesis by blast
qed

end
