(* ===== verification/Freelist.thy ===== *)
theory Freelist
  imports Ordered_Map "HOL-Library.Product_Lexorder"
begin

text \<open>
  The hybrid freelist of the slot allocator, \<open>FreelistBackend\<close> in \<open>src/src/allocator.rs\<close>: a vector of
  regions sorted by offset while it is short, and two ordered trees, by offset and by size, once it
  grows.  Offsets and sizes are \<open>u64\<close> values as natural numbers, with the bounds of the checked and
  saturating operations written out.  The locale \<open>freelist_backend\<close> is the contract the allocator
  relies on, in terms of the sorted list of regions a backend stands for; both representations and
  the hybrid that switches between them meet it.
\<close>

section \<open>Unsigned 64-bit arithmetic on natural numbers\<close>

definition U64_MAX :: nat where "U64_MAX = 2 ^ 64 - 1"

definition checked_add64 :: "nat \<Rightarrow> nat \<Rightarrow> nat option" where
  "checked_add64 a b = (if a + b \<le> U64_MAX then Some (a + b) else None)"

definition saturating_add64 :: "nat \<Rightarrow> nat \<Rightarrow> nat" where
  "saturating_add64 a b = min (a + b) U64_MAX"

definition wrapping_mul64 :: "nat \<Rightarrow> nat \<Rightarrow> nat" where
  "wrapping_mul64 a b = a * b mod 2 ^ 64"

definition div_ceil :: "nat \<Rightarrow> nat \<Rightarrow> nat" where
  "div_ceil a b = (a + b - 1) div b"

section \<open>The two representations\<close>

type_synonym region = "nat \<times> nat"

datatype freelist =
    Small "region list"
  | Large (by_offset: "region list") (by_size: "(nat \<times> nat) list")

definition PROMOTE_THRESHOLD :: nat where "PROMOTE_THRESHOLD = 64"
definition DEMOTE_THRESHOLD :: nat where "DEMOTE_THRESHOLD = 32"

definition fl_new :: freelist where
  "fl_new = Small []"

fun iter_offset_order :: "freelist \<Rightarrow> region list" where
  "iter_offset_order (Small v) = v"
| "iter_offset_order (Large bo bs) = bo"

fun fl_len :: "freelist \<Rightarrow> nat" where
  "fl_len (Small v) = length v"
| "fl_len (Large bo bs) = length bo"

fun largest :: "freelist \<Rightarrow> nat" where
  "largest (Small v) = fold max (map snd v) 0"
| "largest (Large bo bs) = (if bs = [] then 0 else fst (last bs))"

text \<open>The placement constraint of packed mode: a small record stays within one block, a large one
  starts on a block.\<close>

definition qualifies :: "nat option \<Rightarrow> nat \<Rightarrow> nat \<Rightarrow> bool" where
  "qualifies block aligned_size offset =
    (case block of
       None \<Rightarrow> True
     | Some b \<Rightarrow> if aligned_size \<le> b then offset mod b + aligned_size \<le> b else offset mod b = 0)"

text \<open>The linear scan of the vector: the index of the region with the least waste, stopping at an
  exact fit.\<close>

fun small_scan :: "(nat \<Rightarrow> bool) \<Rightarrow> nat \<Rightarrow> region list \<Rightarrow> nat \<Rightarrow> nat option \<Rightarrow> nat \<Rightarrow> nat option" where
  "small_scan q n [] i best_idx best_waste = best_idx"
| "small_scan q n ((off, sz) # rs) i best_idx best_waste =
    (if n \<le> sz \<and> q off \<and> sz - n < best_waste
     then if sz - n = 0 then Some i else small_scan q n rs (Suc i) (Some i) (sz - n)
     else small_scan q n rs (Suc i) best_idx best_waste)"

definition small_best_fit :: "nat \<Rightarrow> nat option \<Rightarrow> region list \<Rightarrow> region option \<times> region list" where
  "small_best_fit n block v =
    (case small_scan (qualifies block n) n v 0 None U64_MAX of
       None \<Rightarrow> (None, v)
     | Some idx \<Rightarrow>
         let (off, sz) = v ! idx
         in (Some (off, sz),
             if sz = n then take idx v @ drop (Suc idx) v else v[idx := (off + n, sz - n)]))"

definition large_best_fit ::
  "nat \<Rightarrow> nat option \<Rightarrow> region list \<Rightarrow> (nat \<times> nat) list \<Rightarrow> region option \<times> region list \<times> (nat \<times> nat) list" where
  "large_best_fit n block bo bs =
    (case find (\<lambda>(sz, off). qualifies block n off) (filter (\<lambda>x. (n, 0) \<le> x) bs) of
       None \<Rightarrow> (None, bo, bs)
     | Some (sz, off) \<Rightarrow>
         let bs = bs_remove (sz, off) bs; bo = bt_delete off bo
         in (Some (off, sz),
             if n < sz then (bt_update (off + n) (sz - n) bo, bs_insert (sz - n, off + n) bs)
             else (bo, bs)))"

fun best_fit :: "nat \<Rightarrow> nat option \<Rightarrow> freelist \<Rightarrow> region option \<times> freelist" where
  "best_fit n block (Small v) = (let (r, v) = small_best_fit n block v in (r, Small v))"
| "best_fit n block (Large bo bs) =
    (let (r, bo, bs) = large_best_fit n block bo bs in (r, Large bo bs))"

text \<open>\<open>binary_search_by_key\<close> on a sorted vector: the index of the first region at or after the key.\<close>

definition search_pos :: "nat \<Rightarrow> region list \<Rightarrow> nat" where
  "search_pos key v = length (takeWhile (\<lambda>r. fst r < key) v)"

definition small_insert :: "nat \<Rightarrow> nat \<Rightarrow> region list \<Rightarrow> region list" where
  "small_insert off sz v = (let pos = search_pos off v in take pos v @ (off, sz) # drop pos v)"

definition small_remove :: "nat \<Rightarrow> region list \<Rightarrow> nat option \<times> region list" where
  "small_remove off v =
    (let pos = search_pos off v
     in if pos < length v \<and> fst (v ! pos) = off
        then (Some (snd (v ! pos)), take pos v @ drop (Suc pos) v) else (None, v))"

fun fl_insert :: "nat \<Rightarrow> nat \<Rightarrow> freelist \<Rightarrow> freelist" where
  "fl_insert off sz (Small v) = Small (small_insert off sz v)"
| "fl_insert off sz (Large bo bs) = Large (bt_update off sz bo) (bs_insert (sz, off) bs)"

fun fl_remove :: "nat \<Rightarrow> freelist \<Rightarrow> nat option \<times> freelist" where
  "fl_remove off (Small v) = (let (r, v) = small_remove off v in (r, Small v))"
| "fl_remove off (Large bo bs) =
    (case map_of bo off of
       None \<Rightarrow> (None, Large bo bs)
     | Some sz \<Rightarrow> (Some sz, Large (bt_delete off bo) (bs_remove (sz, off) bs)))"

definition small_next_from :: "nat \<Rightarrow> region list \<Rightarrow> region option" where
  "small_next_from boundary v =
    (let pos = search_pos boundary v in if pos < length v then Some (v ! pos) else None)"

definition small_prev_before :: "nat \<Rightarrow> region list \<Rightarrow> region option" where
  "small_prev_before off v =
    (let pos = search_pos off v in if 0 < pos then Some (v ! (pos - 1)) else None)"

definition first_from :: "nat \<Rightarrow> region list \<Rightarrow> region option" where
  "first_from boundary bo = find (\<lambda>r. boundary \<le> fst r) bo"

definition last_before :: "nat \<Rightarrow> region list \<Rightarrow> region option" where
  "last_before off bo =
    (let l = filter (\<lambda>r. fst r < off) bo in if l = [] then None else Some (last l))"

fun next_from :: "nat \<Rightarrow> freelist \<Rightarrow> region option" where
  "next_from boundary (Small v) = small_next_from boundary v"
| "next_from boundary (Large bo bs) = first_from boundary bo"

fun prev_before :: "nat \<Rightarrow> freelist \<Rightarrow> region option" where
  "prev_before off (Small v) = small_prev_before off v"
| "prev_before off (Large bo bs) = last_before off bo"

fun maybe_promote :: "freelist \<Rightarrow> freelist" where
  "maybe_promote (Small v) =
    (if PROMOTE_THRESHOLD < length v
     then Large (fold (\<lambda>(off, sz). bt_update off sz) v []) (fold (\<lambda>(off, sz). bs_insert (sz, off)) v [])
     else Small v)"
| "maybe_promote (Large bo bs) = Large bo bs"

fun maybe_demote :: "freelist \<Rightarrow> freelist" where
  "maybe_demote (Large bo bs) =
    (if length bo < DEMOTE_THRESHOLD then Small (sort_key fst bo) else Large bo bs)"
| "maybe_demote (Small v) = Small v"

text \<open>Merging a range with the free regions next to it, and carving a range out of the region it
  overlaps, over the operations of a backend: the same code runs on either representation.\<close>

definition coalesce_with ::
  "(nat \<Rightarrow> 'f \<Rightarrow> nat option \<times> 'f) \<Rightarrow> (nat \<Rightarrow> 'f \<Rightarrow> region option) \<Rightarrow> (nat \<Rightarrow> 'f \<Rightarrow> region option) \<Rightarrow>
   nat \<Rightarrow> nat \<Rightarrow> 'f \<Rightarrow> nat \<times> nat \<times> 'f" where
  "coalesce_with del nxt prv off sz f =
    (let next_boundary = off + sz;
         (final_size, f) =
           (case nxt next_boundary f of
              Some (next_off, next_sz) \<Rightarrow>
                if next_off = next_boundary then (sz + next_sz, snd (del next_off f)) else (sz, f)
            | None \<Rightarrow> (sz, f))
     in case prv off f of
          Some (prev_off, prev_sz) \<Rightarrow>
            if prev_off + prev_sz = off then (prev_off, final_size + prev_sz, snd (del prev_off f))
            else (off, final_size, f)
        | None \<Rightarrow> (off, final_size, f))"

definition overlapping ::
  "(nat \<Rightarrow> 'f \<Rightarrow> region option) \<Rightarrow> (nat \<Rightarrow> 'f \<Rightarrow> region option) \<Rightarrow> nat \<Rightarrow> nat \<Rightarrow> 'f \<Rightarrow> region option" where
  "overlapping nxt prv off sz f =
    (let end = off + sz;
         hit = (\<lambda>r. case r of Some (a, b) \<Rightarrow> if a + b > off \<and> a < end then Some (a, b) else None | None \<Rightarrow> None)
     in case hit (prv (saturating_add64 off 1) f) of
          Some r \<Rightarrow> Some r
        | None \<Rightarrow> hit (nxt off f))"

definition carve_with ::
  "(nat \<Rightarrow> nat \<Rightarrow> 'f \<Rightarrow> 'f) \<Rightarrow> (nat \<Rightarrow> 'f \<Rightarrow> nat option \<times> 'f) \<Rightarrow> region \<Rightarrow> nat \<Rightarrow> nat \<Rightarrow> 'f \<Rightarrow> 'f" where
  "carve_with ins del r off end f =
    (let (free_off, free_sz) = r;
         f = snd (del free_off f);
         f = (if free_off < off then ins free_off (off - free_off) f else f);
         free_end = free_off + free_sz
     in if end < free_end then ins end (free_end - end) f else f)"

section \<open>The contract\<close>

text \<open>Regions of a freelist: non-empty, sorted by offset, disjoint and not adjacent, and short enough
  for the waste of a fit to be a proper \<open>u64\<close>.  The free space they stand for is a set of offsets.\<close>

definition regions_ok :: "region list \<Rightarrow> bool" where
  "regions_ok v \<longleftrightarrow> sorted_wrt (\<lambda>r r'. fst r + snd r < fst r') v \<and>
    (\<forall>r \<in> set v. 0 < snd r \<and> snd r < U64_MAX)"

definition span :: "region \<Rightarrow> nat set" where
  "span r = {fst r ..< fst r + snd r}"

definition space :: "region list \<Rightarrow> nat set" where
  "space v = (\<Union>r \<in> set v. span r)"

text \<open>The region a best fit takes: the smallest that is large enough and well placed, and the lowest
  of those.\<close>

definition best_region :: "nat \<Rightarrow> nat option \<Rightarrow> region list \<Rightarrow> region option" where
  "best_region n block v =
    (let c = filter (\<lambda>(sz, off). n \<le> sz \<and> qualifies block n off) (map prod.swap v)
     in if c = [] then None else Some (prod.swap (Min (set c))))"

definition take_region :: "nat \<Rightarrow> region \<Rightarrow> region list \<Rightarrow> region list" where
  "take_region n r v =
    (case r of (off, sz) \<Rightarrow>
       if sz = n then bt_delete off v else bt_update (off + n) (sz - n) (bt_delete off v))"

definition fits :: "(nat \<Rightarrow> bool) \<Rightarrow> nat \<Rightarrow> region \<Rightarrow> bool" where
  "fits q n r \<longleftrightarrow> n \<le> snd r \<and> q (fst r)"

definition min_fit :: "(nat \<Rightarrow> bool) \<Rightarrow> nat \<Rightarrow> region list \<Rightarrow> region \<Rightarrow> bool" where
  "min_fit q n rs r \<longleftrightarrow> fits q n r \<and> (\<forall>r' \<in> set rs. fits q n r' \<longrightarrow> prod.swap r \<le> prod.swap r')"

definition trees_inv :: "region list \<times> (nat \<times> nat) list \<Rightarrow> bool" where
  "trees_inv t \<longleftrightarrow> bt_sorted (fst t) \<and> sorted_wrt (<) (snd t) \<and> set (snd t) = prod.swap ` set (fst t)"

fun fl_inv :: "freelist \<Rightarrow> bool" where
  "fl_inv (Small v) \<longleftrightarrow> bt_sorted v"
| "fl_inv (Large bo bs) \<longleftrightarrow> trees_inv (bo, bs)"

locale freelist_backend =
  fixes view :: "'f \<Rightarrow> region list"
    and inv :: "'f \<Rightarrow> bool"
    and fit :: "nat \<Rightarrow> nat option \<Rightarrow> 'f \<Rightarrow> region option \<times> 'f"
    and ins :: "nat \<Rightarrow> nat \<Rightarrow> 'f \<Rightarrow> 'f"
    and del :: "nat \<Rightarrow> 'f \<Rightarrow> nat option \<times> 'f"
    and nxt :: "nat \<Rightarrow> 'f \<Rightarrow> region option"
    and prv :: "nat \<Rightarrow> 'f \<Rightarrow> region option"
  assumes view_sorted: "inv f \<Longrightarrow> bt_sorted (view f)"
    and fit_region: "inv f \<Longrightarrow> regions_ok (view f) \<Longrightarrow> fst (fit n block f) = best_region n block (view f)"
    and fit_view: "inv f \<Longrightarrow> regions_ok (view f) \<Longrightarrow>
      view (snd (fit n block f)) =
        (case best_region n block (view f) of None \<Rightarrow> view f | Some r \<Rightarrow> take_region n r (view f))"
    and fit_inv: "inv f \<Longrightarrow> regions_ok (view f) \<Longrightarrow> inv (snd (fit n block f))"
    and ins_view: "inv f \<Longrightarrow> off \<notin> fst ` set (view f) \<Longrightarrow> view (ins off sz f) = bt_update off sz (view f)"
    and ins_inv: "inv f \<Longrightarrow> off \<notin> fst ` set (view f) \<Longrightarrow> inv (ins off sz f)"
    and del_result: "inv f \<Longrightarrow> fst (del off f) = map_of (view f) off"
    and del_view: "inv f \<Longrightarrow> view (snd (del off f)) = bt_delete off (view f)"
    and del_inv: "inv f \<Longrightarrow> inv (snd (del off f))"
    and next_view: "inv f \<Longrightarrow> nxt off f = first_from off (view f)"
    and prev_view: "inv f \<Longrightarrow> prv off f = last_before off (view f)"

section \<open>Regions and the space they cover\<close>

lemma ok_sorted: "regions_ok v \<Longrightarrow> bt_sorted v"
proof (induction v)
  case (Cons r v)
  then have "regions_ok v" by (simp add: regions_ok_def)
  then show ?case using Cons by (fastforce simp: regions_ok_def)
qed simp

lemma ok_filter: "regions_ok v \<Longrightarrow> regions_ok (filter P v)"
  unfolding regions_ok_def by (auto intro: sorted_wrt_filter)

lemma ok_delete: "regions_ok v \<Longrightarrow> regions_ok (bt_delete k v)"
  unfolding bt_delete_def by (rule ok_filter)

lemma ok_Cons:
  "regions_ok (r # v) \<longleftrightarrow>
    0 < snd r \<and> snd r < U64_MAX \<and> (\<forall>r' \<in> set v. fst r + snd r < fst r') \<and> regions_ok v"
  unfolding regions_ok_def by auto

lemma ok_update:
  assumes "regions_ok v" "0 < sz" "sz < U64_MAX"
    and "\<And>a b. (a, b) \<in> set v \<Longrightarrow> a + b < off \<or> off + sz < a"
  shows "regions_ok (bt_update off sz v)"
proof -
  have "regions_ok (filter (\<lambda>(a, _). a < off) v)" "regions_ok (filter (\<lambda>(a, _). off < a) v)"
    using assms(1) by (simp_all add: ok_filter)
  then show ?thesis
    using assms(2-) unfolding regions_ok_def bt_update_def
    by (fastforce simp: sorted_wrt_append)
qed

lemma ok_pairwise:
  assumes "regions_ok v" "(a, b) \<in> set v" "(a', b') \<in> set v"
  shows "a + b < a' \<or> a' + b' < a \<or> a = a' \<and> b = b'"
  using assms by (induction v) (auto simp: ok_Cons)

lemma ok_pos: "regions_ok v \<Longrightarrow> (a, b) \<in> set v \<Longrightarrow> 0 < b"
  by (auto simp: regions_ok_def)

lemma disjoint_sides:
  assumes "regions_ok v" "(a, b) \<in> set v" "space v \<inter> {off ..< off + sz} = {}" "0 < sz"
  shows "a + b \<le> off \<or> off + sz \<le> a"
proof (rule ccontr)
  assume "\<not> ?thesis"
  then have "max a off \<in> {a ..< a + b} \<inter> {off ..< off + sz}"
    using ok_pos [OF assms(1,2)] assms(4) by auto
  moreover have "{a ..< a + b} \<subseteq> space v" using assms(2) by (force simp: space_def span_def)
  ultimately show False using assms(3) by blast
qed

lemma space_simps [simp]: "space [] = {}" "space (r # v) = span r \<union> space v"
  by (simp_all add: space_def)

lemma space_delete:
  assumes "regions_ok v" "(off, sz) \<in> set v"
  shows "space (bt_delete off v) = space v - {off ..< off + sz}"
  using assms
proof (induction v)
  case (Cons r v)
  show ?case
  proof (cases "r = (off, sz)")
    case True
    have "bt_delete off (r # v) = v" and "span r \<inter> space v = {}"
      using Cons.prems(1) True
      by (force simp: bt_delete_def ok_Cons filter_id_conv, force simp: ok_Cons space_def span_def)
    then show ?thesis using True by (auto simp: span_def)
  next
    case False
    then have m: "(off, sz) \<in> set v" using Cons.prems by simp
    then have "fst r \<noteq> off" and "span r \<inter> {off ..< off + sz} = {}"
      using Cons.prems(1) by (force simp: ok_Cons, force simp: ok_Cons span_def)
    then show ?thesis
      using Cons m by (cases r) (auto simp: bt_delete_def ok_Cons)
  qed
qed simp

lemma space_update:
  assumes "off \<notin> fst ` set v"
  shows "space (bt_update off sz v) = space v \<union> {off ..< off + sz}"
  using assms unfolding space_def set_bt_update by (force simp: span_def)

text \<open>The regions of a freelist are determined by the space they cover.\<close>

lemma ok_least: "regions_ok (r # v) \<Longrightarrow> x \<in> space (r # v) \<Longrightarrow> fst r \<le> x"
  by (fastforce simp: ok_Cons space_def span_def)

lemma ok_head_end: "regions_ok (r # v) \<Longrightarrow> fst r + snd r \<notin> space (r # v)"
  by (fastforce simp: ok_Cons space_def span_def)

lemma ok_head_span: "regions_ok (r # v) \<Longrightarrow> fst r \<le> x \<Longrightarrow> x < fst r + snd r \<Longrightarrow> x \<in> space (r # v)"
  by (simp add: span_def)

lemma space_tail:
  assumes "regions_ok (r # v)"
  shows "space v = space (r # v) - span r"
  using assms by (fastforce simp: ok_Cons space_def span_def)

lemma space_inject:
  "regions_ok v \<Longrightarrow> regions_ok w \<Longrightarrow> space v = space w \<Longrightarrow> v = w"
proof (induction v arbitrary: w)
  case Nil
  then show ?case by (cases w) (auto simp: ok_Cons span_def)
next
  case (Cons r v)
  then obtain r' w' where w: "w = r' # w'" by (cases w) (auto simp: ok_Cons span_def)
  have fst: "fst r = fst r'"
  proof (rule antisym)
    show "fst r \<le> fst r'" using Cons.prems w ok_head_span [of r' w' "fst r'"] ok_least [of r v]
      by (auto simp: ok_Cons)
    show "fst r' \<le> fst r" using Cons.prems w ok_head_span [of r v "fst r"] ok_least [of r' w']
      by (auto simp: ok_Cons)
  qed
  have "snd r = snd r'"
  proof (rule ccontr)
    assume "snd r \<noteq> snd r'"
    then consider "snd r < snd r'" | "snd r' < snd r" by linarith
    then show False
    proof cases
      case 1
      then show ?thesis using Cons.prems w fst ok_head_end [of r v] ok_head_span [of r' w' "fst r + snd r"]
        by simp
    next
      case 2
      then show ?thesis using Cons.prems w fst ok_head_end [of r' w'] ok_head_span [of r v "fst r' + snd r'"]
        by simp
    qed
  qed
  then have r: "r = r'" using fst by (simp add: prod_eq_iff)
  moreover have "space v = space w'"
    using space_tail [OF Cons.prems(1)] space_tail [of r' w'] Cons.prems(2,3) w r by simp
  ultimately show ?case using Cons w by (simp add: ok_Cons)
qed

lemma best_region_Some:
  assumes "best_region n block v = Some (off, sz)"
  shows "(off, sz) \<in> set v" "n \<le> sz" "qualifies block n off"
proof -
  let ?c = "filter (\<lambda>(sz, off). n \<le> sz \<and> qualifies block n off) (map prod.swap v)"
  have c: "?c \<noteq> []" "prod.swap (Min (set ?c)) = (off, sz)"
    using assms by (auto simp: best_region_def Let_def split: if_splits)
  then have "set ?c \<noteq> {}" by (simp only: set_empty) simp
  then have "Min (set ?c) \<in> set ?c" by (rule Min_in [OF finite_set])
  moreover have "Min (set ?c) = (sz, off)" using c(2) by (cases "Min (set ?c)") simp
  ultimately show "(off, sz) \<in> set v" "n \<le> sz" "qualifies block n off" by auto
qed

lemma best_region_None:
  "best_region n block v = None \<longleftrightarrow> (\<forall>(off, sz) \<in> set v. \<not> (n \<le> sz \<and> qualifies block n off))"
  by (auto simp: best_region_def Let_def filter_empty_conv)

lemma take_region_space:
  assumes "regions_ok v" "(off, sz) \<in> set v" "n \<le> sz"
  shows "regions_ok (take_region n (off, sz) v)"
    and "space (take_region n (off, sz) v) = space v - {off ..< off + n}"
proof -
  have d: "regions_ok (bt_delete off v)" using assms(1) by (rule ok_delete)
  have far: "a + b < off \<or> off + sz < a" if "(a, b) \<in> set (bt_delete off v)" for a b
    using assms(1,2) that
  proof (induction v)
    case (Cons r v)
    then show ?case by (cases r) (fastforce simp: ok_Cons bt_delete_def split: if_splits)
  qed (simp add: bt_delete_def)
  have sz: "0 < sz" "sz < U64_MAX" using assms(1,2) by (auto simp: regions_ok_def)
  show "regions_ok (take_region n (off, sz) v)"
  proof (cases "sz = n")
    case False
    then have "regions_ok (bt_update (off + n) (sz - n) (bt_delete off v))"
      using assms(3) sz far by (intro ok_update [OF d]) fastforce+
    then show ?thesis using False by (simp add: take_region_def)
  qed (simp add: take_region_def d)
  have "off + n \<notin> fst ` set (bt_delete off v)" if "sz \<noteq> n"
    using far that assms(3) by fastforce
  moreover have "{off ..< off + sz} \<subseteq> space v"
    using assms(2) by (force simp: space_def span_def)
  ultimately show "space (take_region n (off, sz) v) = space v - {off ..< off + n}"
    using assms(3) space_delete [OF assms(1,2)] by (auto simp: take_region_def space_update)
qed

section \<open>Merging and carving\<close>

lemma first_from_Some: "first_from key v = Some r \<Longrightarrow> r \<in> set v \<and> key \<le> fst r"
  by (auto simp: first_from_def find_Some_iff)

lemma first_from_key: "bt_sorted v \<Longrightarrow> (key, s) \<in> set v \<Longrightarrow> first_from key v = Some (key, s)"
proof (induction v)
  case (Cons r v)
  then show ?case by (cases "r = (key, s)") (force simp: first_from_def)+
qed simp

lemma last_before_Some: "last_before key v = Some r \<Longrightarrow> r \<in> set v \<and> fst r < key"
  unfolding last_before_def Let_def using last_in_set [of "filter (\<lambda>r. fst r < key) v"]
  by (auto split: if_splits)

lemma sorted_last: "bt_sorted l \<Longrightarrow> x \<in> set l \<Longrightarrow> fst x \<le> fst (last l)"
  by (induction l) (auto simp: less_imp_le)

lemma last_before_greatest:
  assumes "bt_sorted v" "(a, b) \<in> set v" "a < key" "\<And>a' b'. (a', b') \<in> set v \<Longrightarrow> a' < key \<Longrightarrow> a' \<le> a"
  shows "last_before key v = Some (a, b)"
proof -
  let ?l = "filter (\<lambda>r. fst r < key) v"
  have in_l: "(a, b) \<in> set ?l" using assms(2,3) by simp
  then have l: "?l \<noteq> []" by (metis empty_iff empty_set)
  then have m: "last ?l \<in> set ?l" by (rule last_in_set)
  obtain c d where last: "last ?l = (c, d)" by (cases "last ?l")
  then have cd: "last ?l = (c, d)" "(c, d) \<in> set v" "c < key" using m by (simp_all only: set_filter) simp_all
  have "a \<le> c" using sorted_last [OF bt_sorted_filter [OF assms(1)] in_l] cd(1) by simp
  then have "a = c" using assms(4) [OF cd(2,3)] by simp
  then have "b = d" using cd(2) assms(1,2) by (simp add: bt_member)
  then show ?thesis using l cd(1) \<open>a = c\<close> by (simp add: last_before_def Let_def)
qed

lemma last_before_end:
  assumes "regions_ok v" "(a, b) \<in> set v" "a + b = key"
  shows "last_before key v = Some (a, b)"
  using assms ok_pos [OF assms(1,2)] ok_pairwise [OF assms(1,2)]
  by (intro last_before_greatest) (auto simp: ok_sorted, fastforce)

context freelist_backend
begin

text \<open>Merging a range that is not free yields the regions of the larger free space.\<close>

lemma coalesce_next:
  assumes "inv f" "regions_ok (view f)" "0 < sz" "space (view f) \<inter> {off ..< off + sz} = {}"
    and "(case nxt (off + sz) f of
            Some (next_off, next_sz) \<Rightarrow>
              if next_off = off + sz then (sz + next_sz, snd (del next_off f)) else (sz, f)
          | None \<Rightarrow> (sz, f)) = (sz1, f1)"
  shows "inv f1 \<and> regions_ok (view f1) \<and> sz \<le> sz1 \<and>
    space (view f1) \<union> {off ..< off + sz1} = space (view f) \<union> {off ..< off + sz} \<and>
    (\<forall>(a, b) \<in> set (view f1). a + b \<le> off \<or> off + sz1 < a)"
proof (cases "\<exists>s. (off + sz, s) \<in> set (view f)")
  case True
  then obtain s where s: "(off + sz, s) \<in> set (view f)" by blast
  then have f1: "sz1 = sz + s" "f1 = snd (del (off + sz) f)"
    using assms(5) first_from_key [OF view_sorted [OF assms(1)] s] by (simp_all add: next_view [OF assms(1)])
  have v1: "view f1 = bt_delete (off + sz) (view f)" "inv f1"
    using assms(1) f1 by (simp_all add: del_view del_inv)
  have "a + b \<le> off \<or> off + sz1 < a" if "(a, b) \<in> set (view f1)" for a b
    using that v1 ok_pairwise [OF assms(2) s, of a b] disjoint_sides [OF assms(2) _ assms(4,3), of a b] f1
    by (auto simp: set_bt_delete)
  moreover have "{off + sz ..< off + sz1} \<subseteq> space (view f)"
    using s f1 by (force simp: space_def span_def)
  ultimately show ?thesis
    using v1 f1 space_delete [OF assms(2) s] ok_delete [OF assms(2)] by auto
next
  case False
  then have f1: "sz1 = sz" "f1 = f"
    using assms(5) first_from_Some [of "off + sz" "view f"]
    by (fastforce simp: next_view [OF assms(1)] split: option.splits if_splits)+
  have "a + b \<le> off \<or> off + sz1 < a" if "(a, b) \<in> set (view f)" for a b
    using that False disjoint_sides [OF assms(2) that assms(4,3)] f1 by (auto simp: le_less)
  then show ?thesis using assms(1,2) f1 by auto
qed

lemma coalesce_prev:
  assumes "inv f" "regions_ok (view f)" "0 < sz"
    and "\<forall>(a, b) \<in> set (view f). a + b \<le> off \<or> off + sz < a"
    and "(case prv off f of
            Some (prev_off, prev_sz) \<Rightarrow>
              if prev_off + prev_sz = off then (prev_off, sz + prev_sz, snd (del prev_off f)) else (off, sz, f)
          | None \<Rightarrow> (off, sz, f)) = (off', sz', f')"
  shows "inv f' \<and> regions_ok (view f') \<and> 0 < sz' \<and>
    space (view f') \<union> {off' ..< off' + sz'} = space (view f) \<union> {off ..< off + sz} \<and>
    (\<forall>(a, b) \<in> set (view f'). a + b < off' \<or> off' + sz' < a)"
proof (cases "\<exists>a b. (a, b) \<in> set (view f) \<and> a + b = off")
  case True
  then obtain a b where ab: "(a, b) \<in> set (view f)" "a + b = off" by blast
  then have f': "off' = a" "sz' = sz + b" "f' = snd (del a f)"
    using assms(5) last_before_end [OF assms(2) ab] by (auto simp: prev_view [OF assms(1)] ab(2))
  have v': "view f' = bt_delete a (view f)" "inv f'"
    using assms(1) f' by (simp_all add: del_view del_inv)
  have "c + d < off' \<or> off' + sz' < c" if "(c, d) \<in> set (view f')" for c d
    using that v' ok_pairwise [OF assms(2) ab(1), of c d] bspec [OF assms(4), of "(c, d)"] f' ab(2)
    by (auto simp: set_bt_delete)
  moreover have "{a ..< off} \<subseteq> space (view f)" using ab by (force simp: space_def span_def)
  ultimately show ?thesis
    using v' f' ab(2) assms(3) space_delete [OF assms(2) ab(1)] ok_delete [OF assms(2)] by auto
next
  case False
  then have f': "off' = off" "sz' = sz" "f' = f"
    using assms(5) last_before_Some [of off "view f"]
    by (fastforce simp: prev_view [OF assms(1)] split: option.splits if_splits)+
  then show ?thesis using assms(1-4) False by (fastforce simp: le_less)
qed

lemma coalesce:
  assumes "inv f" "regions_ok (view f)" "0 < sz"
    and "space (view f) \<inter> {off ..< off + sz} = {}"
    and "space (view f) \<union> {off ..< off + sz} \<subseteq> {0 <..< U64_MAX}"
    and "coalesce_with del nxt prv off sz f = (off', sz', f')"
  shows "inv (ins off' sz' f') \<and> regions_ok (view (ins off' sz' f')) \<and>
    space (view (ins off' sz' f')) = space (view f) \<union> {off ..< off + sz}"
proof -
  obtain sz1 f1 where n: "(case nxt (off + sz) f of
            Some (next_off, next_sz) \<Rightarrow>
              if next_off = off + sz then (sz + next_sz, snd (del next_off f)) else (sz, f)
          | None \<Rightarrow> (sz, f)) = (sz1, f1)" by force
  then have p: "(case prv off f1 of
            Some (prev_off, prev_sz) \<Rightarrow>
              if prev_off + prev_sz = off then (prev_off, sz1 + prev_sz, snd (del prev_off f1)) else (off, sz1, f1)
          | None \<Rightarrow> (off, sz1, f1)) = (off', sz', f')"
    using assms(6) by (simp add: coalesce_with_def Let_def)
  note c1 = coalesce_next [OF assms(1-4) n]
  have c2: "inv f'" "regions_ok (view f')" "0 < sz'"
    "space (view f') \<union> {off' ..< off' + sz'} = space (view f) \<union> {off ..< off + sz}"
    "\<forall>(a, b) \<in> set (view f'). a + b < off' \<or> off' + sz' < a"
    using coalesce_prev [OF _ _ _ _ p] c1 assms(3) by auto
  have "{off' ..< off' + sz'} \<subseteq> {0 <..< U64_MAX}" using c2(4) assms(5) by blast
  moreover have "off' \<in> {off' ..< off' + sz'}" "off' + sz' - 1 \<in> {off' ..< off' + sz'}" using c2(3) by auto
  ultimately have "off' \<in> {0 <..< U64_MAX}" "off' + sz' - 1 \<in> {0 <..< U64_MAX}" by blast+
  then have "sz' < U64_MAX" using c2(3) by auto
  have fresh: "off' \<notin> fst ` set (view f')" using c2(3,5) by fastforce
  have "regions_ok (bt_update off' sz' (view f'))"
    using c2(2,3,5) \<open>sz' < U64_MAX\<close> by (intro ok_update) auto
  then show ?thesis
    using c2(1,4) fresh by (simp add: ins_view ins_inv space_update)
qed

text \<open>Carving a range out of the region it overlaps removes exactly the overlap from the space.\<close>

lemma carve:
  assumes "inv f" "regions_ok (view f)" "(a, b) \<in> set (view f)" "off < end" "off < a + b" "a < end"
  shows "inv (carve_with ins del (a, b) off end f) \<and> regions_ok (view (carve_with ins del (a, b) off end f)) \<and>
    space (view (carve_with ins del (a, b) off end f)) = space (view f) - ({off ..< end} \<inter> {a ..< a + b})"
proof -
  let ?f0 = "snd (del a f)"
  have v0: "inv ?f0" "view ?f0 = bt_delete a (view f)" using assms(1) by (simp_all add: del_inv del_view)
  have ok0: "regions_ok (view ?f0)" using v0 assms(2) by (simp add: ok_delete)
  have b: "0 < b" "b < U64_MAX" using assms(2,3) by (auto simp: regions_ok_def)
  have far: "c + d < a \<or> a + b < c" if "(c, d) \<in> set (view ?f0)" for c d
    using that v0 ok_pairwise [OF assms(2,3), of c d] by (auto simp: set_bt_delete)
  define f1 where "f1 = (if a < off then ins a (off - a) ?f0 else ?f0)"
  have fresh: "a \<notin> fst ` set (view ?f0)" using far by fastforce
  have u: "regions_ok (bt_update a (off - a) (view ?f0))" if "a < off"
    using that far b assms(5) by (intro ok_update [OF ok0]) fastforce+
  have f1: "inv f1" "regions_ok (view f1)"
    "space (view f1) = space (view f) - {a ..< a + b} \<union> {a ..< off}"
    "\<And>c d. (c, d) \<in> set (view f1) \<Longrightarrow> c + d < a \<or> a + b < c \<or> (c, d) = (a, off - a) \<and> a < off"
    using v0 ok0 fresh u far space_delete [OF assms(2,3)]
    by (auto simp: f1_def ins_view ins_inv space_update set_bt_update split: if_splits)
  have fresh1: "end \<notin> fst ` set (view f1)" if "end < a + b" using f1(4) that assms(4,6) by fastforce
  have "regions_ok (bt_update end (a + b - end) (view f1))" if "end < a + b"
    using that f1(4) b assms(4,6) by (intro ok_update [OF f1(2)]) fastforce+
  moreover have "{a ..< a + b} \<subseteq> space (view f)" using assms(3) by (force simp: space_def span_def)
  moreover have "carve_with ins del (a, b) off end f = (if end < a + b then ins end (a + b - end) f1 else f1)"
    by (simp add: carve_with_def f1_def Let_def)
  ultimately show ?thesis
    using f1(1-3) fresh1 assms(4-6) by (auto simp: ins_view ins_inv space_update)
qed

end

section \<open>The vector\<close>

lemma sorted_takeWhile:
  "bt_sorted v \<Longrightarrow> takeWhile (\<lambda>r. fst r < key) v = filter (\<lambda>r. fst r < key) v"
  by (induction v) (fastforce intro!: filter_False [symmetric] dest: less_trans)+

lemma search_pos_take: "bt_sorted v \<Longrightarrow> take (search_pos key v) v = filter (\<lambda>r. fst r < key) v"
  unfolding search_pos_def by (metis sorted_takeWhile takeWhile_eq_take)

lemma search_pos_drop: "bt_sorted v \<Longrightarrow> drop (search_pos key v) v = filter (\<lambda>r. key \<le> fst r) v"
proof (induction v)
  case (Cons r v)
  show ?case
  proof (cases "fst r < key")
    case False
    then have "filter (\<lambda>r. key \<le> fst r) v = v" using Cons.prems by (intro filter_True) fastforce
    then show ?thesis using False by (simp add: search_pos_def)
  qed (use Cons in \<open>simp add: search_pos_def\<close>)
qed (simp add: search_pos_def)

lemma filter_fst: "filter (\<lambda>(a, _). P a) v = filter (\<lambda>r. P (fst r)) v"
  by (rule filter_cong) (simp_all add: case_prod_unfold)

lemma small_insert_view:
  assumes "bt_sorted v" "off \<notin> fst ` set v"
  shows "small_insert off sz v = bt_update off sz v"
proof -
  have "filter (\<lambda>r. off \<le> fst r) v = filter (\<lambda>r. off < fst r) v"
    using assms(2) by (intro filter_cong) (auto simp: less_le)
  then show ?thesis
    unfolding small_insert_def bt_update_def filter_fst Let_def
    by (simp add: search_pos_take [OF assms(1)] search_pos_drop [OF assms(1)])
qed

lemma sorted_from:
  "bt_sorted v \<Longrightarrow> filter (\<lambda>r. key \<le> fst r) v =
    (case map_of v key of Some s \<Rightarrow> (key, s) # filter (\<lambda>r. key < fst r) v | None \<Rightarrow> filter (\<lambda>r. key < fst r) v)"
proof (induction v)
  case (Cons r v)
  have "map_of v (fst r) = None"
    using Cons.prems by (auto simp: map_of_eq_None_iff)
  moreover have "filter (\<lambda>q. key < fst q) v = v \<and> filter (\<lambda>q. key \<le> fst q) v = v \<and> map_of v key = None"
    if "key \<le> fst r"
    using Cons.prems that by (fastforce simp: map_of_eq_None_iff intro!: filter_True)
  ultimately show ?case using Cons by (cases r) (auto split: option.splits)
qed simp

lemma small_remove_view:
  assumes "bt_sorted v"
  shows "small_remove off v = (map_of v off, bt_delete off v)"
proof -
  let ?lo = "filter (\<lambda>r. fst r < off) v" and ?hi = "filter (\<lambda>r. off \<le> fst r) v"
  have v: "v = ?lo @ ?hi"
    using search_pos_take [OF assms, of off] search_pos_drop [OF assms, of off]
    by (metis append_take_drop_id)
  have pos: "search_pos off v = length ?lo"
    unfolding search_pos_def using sorted_takeWhile [OF assms] by simp
  have d: "bt_delete off v = ?lo @ filter (\<lambda>r. off < fst r) v"
  proof -
    have "filter (\<lambda>r. fst r \<noteq> off) v = filter (\<lambda>r. fst r \<noteq> off) ?lo @ filter (\<lambda>r. fst r \<noteq> off) ?hi"
      by (subst v) simp
    then show ?thesis unfolding bt_delete_def filter_fst
      by (simp add: conj_commute less_le eq_commute [of off] cong: conj_cong)
  qed
  show ?thesis
  proof (cases "map_of v off")
    case None
    then have "\<not> (search_pos off v < length v \<and> fst (v ! search_pos off v) = off)"
      by (metis fst_conv map_of_eq_None_iff nth_mem image_eqI)
    moreover have "bt_delete off v = v"
      using None by (rule bt_delete_absent)
    ultimately show ?thesis using None by (simp add: small_remove_def Let_def)
  next
    case (Some sz)
    then have hi: "?hi = (off, sz) # filter (\<lambda>r. off < fst r) v" using sorted_from [OF assms, of off] by simp
    have "v ! length ?lo = (off, sz)" "length ?lo < length v"
      by (subst v, simp only: hi nth_append_length, subst (2) v, simp add: hi)
    moreover have "take (length ?lo) v = ?lo" "drop (Suc (length ?lo)) v = filter (\<lambda>r. off < fst r) v"
      by (subst (2) v, simp, subst v, simp add: hi)
    ultimately show ?thesis using Some d by (simp add: small_remove_def Let_def pos)
  qed
qed

lemma small_next_view: "bt_sorted v \<Longrightarrow> small_next_from key v = first_from key v"
proof -
  assume s: "bt_sorted v"
  have "find P v = (if filter P v = [] then None else Some (hd (filter P v)))" for P
    by (induction v) auto
  moreover have "search_pos key v < length v \<longleftrightarrow> filter (\<lambda>r. key \<le> fst r) v \<noteq> []"
    using search_pos_drop [OF s, of key] by (metis drop_eq_Nil not_le)
  moreover have "search_pos key v < length v \<Longrightarrow> v ! search_pos key v = hd (filter (\<lambda>r. key \<le> fst r) v)"
    using search_pos_drop [OF s, of key] by (metis hd_drop_conv_nth)
  ultimately show ?thesis by (simp add: small_next_from_def first_from_def Let_def)
qed

lemma small_prev_view: "bt_sorted v \<Longrightarrow> small_prev_before off v = last_before off v"
proof -
  assume s: "bt_sorted v"
  have t: "take (search_pos off v) v = filter (\<lambda>r. fst r < off) v" by (rule search_pos_take [OF s])
  have len: "search_pos off v \<le> length v"
    unfolding search_pos_def by (rule length_takeWhile_le)
  have "last (take n v) = v ! (n - 1)" if "0 < n" "n \<le> length v" for n
    using that by (subst last_conv_nth) (auto simp: min_absorb2)
  then show ?thesis
    using t len unfolding small_prev_before_def last_before_def Let_def
    by (metis length_0_conv length_take min.absorb2 not_gr_zero take_eq_Nil)
qed

lemma swap_le_iff: "prod.swap r \<le> prod.swap (r' :: region) \<longleftrightarrow> snd r < snd r' \<or> snd r = snd r' \<and> fst r \<le> fst r'"
  by (cases r; cases r') (auto simp: less_eq_prod_def)

lemma min_fit_Cons:
  assumes "min_fit q n rs r" "r0 \<in> set rs" "fits q n r0" "snd r0 < snd h \<or> \<not> fits q n h"
  shows "min_fit q n (h # rs) r"
  using assms by (fastforce simp: min_fit_def swap_le_iff)

lemma small_scan_spec:
  assumes "bt_sorted rs"
  shows "if \<exists>r \<in> set rs. fits q n r \<and> snd r - n < w
    then \<exists>j < length rs. small_scan q n rs i best w = Some (i + j) \<and> min_fit q n rs (rs ! j)
    else small_scan q n rs i best w = best"
  using assms
proof (induction rs arbitrary: i best w)
  case (Cons r rs)
  obtain off sz where r: "r = (off, sz)" by force
  have sorted: "bt_sorted rs" and later: "\<forall>r' \<in> set rs. off < fst r'" using Cons.prems r by auto
  have tail: "\<exists>j < length (r # rs). small_scan q n rs (Suc i) b v = Some (i + j) \<and>
      min_fit q n (r # rs) ((r # rs) ! j)"
    if "r0 \<in> set rs" "fits q n r0" "snd r0 - n < v" "snd r0 < sz \<or> \<not> fits q n r" for r0 b v
  proof -
    note r0 = that
    obtain j where "j < length rs" "small_scan q n rs (Suc i) b v = Some (Suc i + j)"
      "min_fit q n rs (rs ! j)"
      using Cons.IH [OF sorted, of v "Suc i" b] r0(1-3) by (auto split: if_splits)
    then show ?thesis
      using r0(1,2,4) r by (intro exI [of _ "Suc j"]) (auto intro: min_fit_Cons)
  qed
  show ?case
  proof (cases "fits q n r \<and> sz - n < w")
    case False
    then have step: "small_scan q n (r # rs) i best w = small_scan q n rs (Suc i) best w"
      using r by (auto simp: fits_def)
    show ?thesis
    proof (cases "\<exists>r0 \<in> set rs. fits q n r0 \<and> snd r0 - n < w")
      case True
      then obtain r0 where r0: "r0 \<in> set rs" "fits q n r0" "snd r0 - n < w" by blast
      then have "snd r0 < sz \<or> \<not> fits q n r" using False r by (auto simp: fits_def)
      then show ?thesis using tail [OF r0] True step by simp
    next
      case none: False
      then have "small_scan q n rs (Suc i) best w = best"
        using Cons.IH [OF sorted, of w "Suc i" best] by simp
      then show ?thesis using none False r step by auto
    qed
  next
    case True
    have head: "min_fit q n (r # rs) r" if "\<forall>r0 \<in> set rs. fits q n r0 \<longrightarrow> sz \<le> snd r0"
      using True later that r by (force simp: min_fit_def swap_le_iff)
    show ?thesis
    proof (cases "\<exists>r0 \<in> set rs. fits q n r0 \<and> snd r0 - n < sz - n")
      case better: True
      then have "small_scan q n (r # rs) i best w = small_scan q n rs (Suc i) (Some i) (sz - n)"
        using True r by (auto simp: fits_def)
      moreover obtain r0 where r0: "r0 \<in> set rs" "fits q n r0" "snd r0 - n < sz - n" using better by blast
      ultimately show ?thesis using tail [OF r0, of "Some i"] True r by simp
    next
      case none: False
      then have "small_scan q n rs (Suc i) (Some i) (sz - n) = Some i"
        using Cons.IH [OF sorted, of "sz - n" "Suc i" "Some i"] by simp
      then have "small_scan q n (r # rs) i best w = Some i" using True r by (auto simp: fits_def)
      moreover have "min_fit q n (r # rs) r" using none by (intro head) (auto simp: fits_def)
      ultimately show ?thesis using True r by (auto intro!: exI [of _ 0])
    qed
  qed
qed simp

text \<open>A minimal fit is the one the contract names.\<close>

lemma min_fit_best:
  assumes "r \<in> set v" "min_fit (qualifies block n) n v r"
  shows "best_region n block v = Some r"
proof -
  let ?c = "filter (\<lambda>(sz, off). n \<le> sz \<and> qualifies block n off) (map prod.swap v)"
  have in_c: "prod.swap r \<in> set ?c"
    using assms by (cases r) (auto simp: min_fit_def fits_def)
  have "Min (set ?c) = prod.swap r"
  proof (rule Min_eqI)
    fix y assume "y \<in> set ?c"
    then obtain r' where "r' \<in> set v" "y = prod.swap r'" "fits (qualifies block n) n r'"
      by (auto simp: fits_def)
    then show "prod.swap r \<le> y" using assms(2) by (auto simp: min_fit_def)
  qed (use in_c in simp_all)
  moreover have "?c \<noteq> []" using in_c by (metis empty_iff empty_set)
  ultimately show ?thesis by (simp add: best_region_def Let_def)
qed

lemma take_region_small:
  assumes "regions_ok v" "idx < length v" "v ! idx = (off, sz)" "n \<le> sz"
  shows "(if sz = n then take idx v @ drop (Suc idx) v else v[idx := (off + n, sz - n)]) =
    take_region n (off, sz) v"
proof -
  define l where "l = take idx v"
  define h where "h = drop (Suc idx) v"
  have v: "v = l @ (off, sz) # h"
    unfolding l_def h_def assms(3) [symmetric] by (rule id_take_nth_drop [OF assms(2)])
  have lo: "\<forall>r \<in> set l. fst r + snd r < off" and hi: "\<forall>r \<in> set h. off + sz < fst r"
    using assms(1) unfolding regions_ok_def v by (auto simp: sorted_wrt_append)
  have "filter (\<lambda>r. fst r \<noteq> off) l = l" "filter (\<lambda>r. fst r \<noteq> off) h = h"
    using lo hi by (fastforce simp: filter_id_conv)+
  then have d: "bt_delete off v = l @ h"
    unfolding bt_delete_def filter_fst v by simp
  have "filter (\<lambda>r. fst r < off + n) l = l" "filter (\<lambda>r. off + n < fst r) h = h"
    "filter (\<lambda>r. off + n < fst r) l = []" "filter (\<lambda>r. fst r < off + n) h = []"
    using lo hi assms(4) by (fastforce simp: filter_id_conv filter_empty_conv)+
  then have u: "bt_update (off + n) (sz - n) (l @ h) = l @ (off + n, sz - n) # h"
    unfolding bt_update_def filter_fst by simp
  have "v[idx := (off + n, sz - n)] = l @ (off + n, sz - n) # h"
    using assms(2) by (simp add: l_def h_def upd_conv_take_nth_drop)
  then show ?thesis unfolding take_region_def using d u by (simp add: l_def h_def)
qed

lemma small_best_fit_view:
  assumes "regions_ok v"
  shows "small_best_fit n block v =
    (best_region n block v, case best_region n block v of None \<Rightarrow> v | Some r \<Rightarrow> take_region n r v)"
proof -
  let ?q = "qualifies block n"
  note spec = small_scan_spec [OF ok_sorted [OF assms], of ?q n U64_MAX 0 None]
  show ?thesis
  proof (cases "\<exists>r \<in> set v. fits ?q n r")
    case False
    then have "small_scan ?q n v 0 None U64_MAX = None" using spec by auto
    moreover have "best_region n block v = None" using False by (auto simp: best_region_None fits_def)
    ultimately show ?thesis by (simp add: small_best_fit_def)
  next
    case True
    then have "\<exists>r \<in> set v. fits ?q n r \<and> snd r - n < U64_MAX"
      using assms by (fastforce simp: regions_ok_def)
    then obtain j where j: "j < length v" "small_scan ?q n v 0 None U64_MAX = Some j" "min_fit ?q n v (v ! j)"
      using spec by auto
    obtain off sz where r: "v ! j = (off, sz)" by force
    have "best_region n block v = Some (off, sz)" using min_fit_best [OF nth_mem [OF j(1)] j(3)] r by simp
    then show ?thesis
      using take_region_small [OF assms j(1) r, of n] j r
      by (simp add: small_best_fit_def min_fit_def fits_def)
  qed
qed

section \<open>The trees\<close>

lemma find_sorted_min:
  assumes "sorted_wrt (<) xs" "find P xs = Some x"
  shows "x \<in> set xs \<and> P x \<and> (\<forall>y \<in> set xs. P y \<longrightarrow> x \<le> (y :: 'a::linorder))"
  using assms
proof (induction xs)
  case (Cons a xs)
  then show ?case by (cases "P a") fastforce+
qed simp

lemma large_best_fit_region:
  assumes "trees_inv (bo, bs)"
  shows "map_option prod.swap (find (\<lambda>(sz, off). qualifies block n off) (filter (\<lambda>x. (n, 0) \<le> x) bs)) =
    best_region n block bo"
proof (cases "find (\<lambda>(sz, off). qualifies block n off) (filter (\<lambda>x. (n, 0) \<le> x) bs)")
  case None
  then have "\<not> (n \<le> sz \<and> qualifies block n off)" if "(off, sz) \<in> set bo" for off sz
    using that assms by (force simp: trees_inv_def find_None_iff)
  then have "best_region n block bo = None" unfolding best_region_None by blast
  then show ?thesis using None by simp
next
  case (Some x)
  obtain off sz where x: "x = (sz, off)" by force
  have f: "(sz, off) \<in> set bs" "n \<le> sz" "qualifies block n off"
    "\<forall>y \<in> set bs. n \<le> fst y \<and> qualifies block n (snd y) \<longrightarrow> (sz, off) \<le> y"
    using find_sorted_min [OF bs_sorted_filter Some] assms x
    by (auto simp: trees_inv_def less_eq_prod_def case_prod_unfold)
  have "min_fit (qualifies block n) n bo (off, sz)"
    using f assms by (auto simp: min_fit_def fits_def trees_inv_def)
  moreover have "(off, sz) \<in> set bo" using f(1) assms by (auto simp: trees_inv_def)
  ultimately show ?thesis using min_fit_best Some x by simp
qed

lemma trees_insert:
  "trees_inv (bo, bs) \<Longrightarrow> off \<notin> fst ` set bo \<Longrightarrow> trees_inv (bt_update off sz bo, bs_insert (sz, off) bs)"
  by (force simp: trees_inv_def set_bt_update)

lemma trees_remove:
  assumes "trees_inv (bo, bs)" "map_of bo off = Some sz"
  shows "trees_inv (bt_delete off bo, bs_remove (sz, off) bs)"
proof -
  have "bt_sorted bo" using assms(1) by (simp add: trees_inv_def)
  then have "(off, s) \<in> set bo \<longleftrightarrow> s = sz" for s using assms(2) bt_member [of bo off s] by auto
  then show ?thesis using assms(1) by (auto simp: trees_inv_def set_bt_delete)
qed

lemma large_best_fit_view:
  assumes "trees_inv (bo, bs)" "regions_ok bo"
  shows "fst (large_best_fit n block bo bs) = best_region n block bo"
    and "fst (snd (large_best_fit n block bo bs)) =
      (case best_region n block bo of None \<Rightarrow> bo | Some r \<Rightarrow> take_region n r bo)"
    and "trees_inv (snd (large_best_fit n block bo bs))"
proof -
  note r = large_best_fit_region [OF assms(1), of block n]
  consider (none) "best_region n block bo = None"
    "find (\<lambda>(sz, off). qualifies block n off) (filter (\<lambda>x. (n, 0) \<le> x) bs) = None"
  | (some) off sz where "best_region n block bo = Some (off, sz)"
    "find (\<lambda>(sz, off). qualifies block n off) (filter (\<lambda>x. (n, 0) \<le> x) bs) = Some (sz, off)"
    using r by (cases "best_region n block bo") auto
  note cs = this
  show "fst (large_best_fit n block bo bs) = best_region n block bo"
    by (cases rule: cs) (auto simp: large_best_fit_def Let_def)
  show "fst (snd (large_best_fit n block bo bs)) =
      (case best_region n block bo of None \<Rightarrow> bo | Some r \<Rightarrow> take_region n r bo)"
  proof (cases rule: cs)
    case (some off sz)
    then show ?thesis using best_region_Some(2) [OF some(1)]
      by (auto simp: large_best_fit_def take_region_def Let_def)
  qed (auto simp: large_best_fit_def)
  show "trees_inv (snd (large_best_fit n block bo bs))"
  proof (cases rule: cs)
    case (some off sz)
    have m: "(off, sz) \<in> set bo" using best_region_Some(1) [OF some(1)] .
    have "map_of bo off = Some sz" using assms(1) m by (simp add: trees_inv_def bt_member)
    note rem = trees_remove [OF assms(1) this]
    have fresh: "off + n \<notin> fst ` set (bt_delete off bo)" if "n < sz"
    proof
      assume "off + n \<in> fst ` set (bt_delete off bo)"
      then obtain b where "(off + n, b) \<in> set bo" "n \<noteq> 0" by (auto simp: set_bt_delete)
      then show False using ok_pairwise [OF assms(2) m, of "off + n" b] \<open>n < sz\<close> by simp
    qed
    show ?thesis
      using trees_insert [OF rem fresh] rem some by (simp add: large_best_fit_def Let_def)
  qed (use assms(1) in \<open>auto simp: large_best_fit_def\<close>)
qed

section \<open>The interpretations\<close>

interpretation vec: freelist_backend "\<lambda>v. v" bt_sorted small_best_fit small_insert small_remove
  small_next_from small_prev_before
  by unfold_locales (auto simp: small_best_fit_view small_insert_view small_remove_view small_next_view
      small_prev_view intro!: ok_sorted take_region_space(1) split: option.split
      dest: best_region_Some(1,2))

interpretation hyb: freelist_backend iter_offset_order fl_inv best_fit fl_insert fl_remove next_from prev_before
proof
  fix f :: freelist and n off sz :: nat and block :: "nat option"
  assume f: "fl_inv f"
  show "bt_sorted (iter_offset_order f)" using f by (cases f) (auto simp: trees_inv_def)
  show "fst (fl_remove off f) = map_of (iter_offset_order f) off"
    using f by (cases f) (auto simp: small_remove_view split: option.split)
  show "iter_offset_order (snd (fl_remove off f)) = bt_delete off (iter_offset_order f)"
    using f by (cases f) (auto simp: small_remove_view bt_delete_absent split: option.split)
  show "fl_inv (snd (fl_remove off f))"
    using f by (cases f) (auto simp: small_remove_view trees_remove split: option.split)
  show "next_from off f = first_from off (iter_offset_order f)"
    using f by (cases f) (auto simp: small_next_view)
  show "prev_before off f = last_before off (iter_offset_order f)"
    using f by (cases f) (auto simp: small_prev_view)
  {
    assume "off \<notin> fst ` set (iter_offset_order f)"
    then show "iter_offset_order (fl_insert off sz f) = bt_update off sz (iter_offset_order f)"
      "fl_inv (fl_insert off sz f)"
      using f by (cases f; auto simp: small_insert_view trees_insert)+
  }
  {
    assume ok: "regions_ok (iter_offset_order f)"
    show "fst (best_fit n block f) = best_region n block (iter_offset_order f)"
      using f ok by (cases f) (auto simp: small_best_fit_view large_best_fit_view case_prod_unfold)
    show "iter_offset_order (snd (best_fit n block f)) =
        (case best_region n block (iter_offset_order f) of None \<Rightarrow> iter_offset_order f
          | Some r \<Rightarrow> take_region n r (iter_offset_order f))"
      using f ok
      by (cases f) (auto simp: small_best_fit_view large_best_fit_view case_prod_unfold cong: option.case_cong)
    show "fl_inv (snd (best_fit n block f))"
    proof (cases f)
      case (Small v)
      then show ?thesis using f ok vec.fit_inv [of v n block] by (simp add: Let_def case_prod_unfold)
    next
      case (Large bo bs)
      then show ?thesis using f ok large_best_fit_view(3) [of bo bs n block]
        by (simp add: Let_def case_prod_unfold)
    qed
  }
qed

section \<open>Promotion and demotion\<close>

lemma fold_bt_update:
  "bt_sorted acc \<Longrightarrow> distinct (map fst v) \<Longrightarrow>
    bt_sorted (fold (\<lambda>(off, sz). bt_update off sz) v acc) \<and>
    set (fold (\<lambda>(off, sz). bt_update off sz) v acc) = set v \<union> {r \<in> set acc. fst r \<notin> fst ` set v}"
proof (induction v arbitrary: acc)
  case (Cons r v)
  obtain off sz where r: "r = (off, sz)" by force
  have "bt_sorted (bt_update off sz acc)" using Cons.prems(1) by simp
  from Cons.IH [OF this] Cons.prems(2) show ?case by (force simp: r set_bt_update)
qed simp

lemma fold_bs_insert:
  "sorted_wrt (<) acc \<Longrightarrow> sorted_wrt (<) (fold (\<lambda>(off, sz). bs_insert (sz, off)) v acc) \<and>
    set (fold (\<lambda>(off, sz). bs_insert (sz, off)) v acc) = prod.swap ` set v \<union> set acc"
  by (induction v arbitrary: acc) auto

lemma promote_view [simp]:
  assumes "fl_inv f"
  shows "iter_offset_order (maybe_promote f) = iter_offset_order f" "fl_inv (maybe_promote f)"
proof -
  have bo: "fold (\<lambda>(off, sz). bt_update off sz) v [] = v" if "bt_sorted v" for v :: "region list"
    using fold_bt_update [of "[]" v] that by (intro bt_eqI) (auto simp: bt_sorted_distinct)
  have "iter_offset_order (maybe_promote f) = iter_offset_order f \<and> fl_inv (maybe_promote f)"
  proof (cases f)
    case (Small v)
    then show ?thesis using assms bo [of v] fold_bs_insert [of "[]" v] by (simp add: trees_inv_def)
  qed (use assms in simp)
  then show "iter_offset_order (maybe_promote f) = iter_offset_order f" "fl_inv (maybe_promote f)"
    by simp_all
qed

lemma demote_view [simp]:
  assumes "fl_inv f"
  shows "iter_offset_order (maybe_demote f) = iter_offset_order f" "fl_inv (maybe_demote f)"
proof -
  have "sort_key fst bo = bo" if "bt_sorted bo" for bo :: "region list"
    using that by (simp add: strict_sorted_iff sorted_sort_id sort_key_id_if_sorted)
  then show "iter_offset_order (maybe_demote f) = iter_offset_order f" "fl_inv (maybe_demote f)"
    using assms by (cases f; simp add: trees_inv_def)+
qed

lemma fl_new_view [simp]: "iter_offset_order fl_new = []" "fl_inv fl_new"
  by (simp_all add: fl_new_def)

lemma fl_len_view: "fl_len f = length (iter_offset_order f)"
  by (cases f) simp_all

lemma largest_view:
  assumes "fl_inv f"
  shows "largest f = Max (insert 0 (snd ` set (iter_offset_order f)))"
proof (cases f)
  case (Small v)
  then show ?thesis by (simp add: Max.set_eq_fold flip: set_map list.set(2))
next
  case (Large bo bs)
  then have s: "sorted_wrt (<) bs" and set: "set bs = prod.swap ` set bo" using assms by (auto simp: trees_inv_def)
  have sz: "snd ` set bo = fst ` set bs" unfolding set by (simp add: image_image)
  show ?thesis
  proof (cases bs rule: rev_cases)
    case Nil
    then show ?thesis using Large sz by simp
  next
    case (snoc xs x)
    have "fst y \<le> fst x" if "y \<in> set xs" for y
      using s that snoc by (auto simp: sorted_wrt_append less_prod_def less_le)
    then have "Max (insert 0 (fst ` set bs)) = fst x" unfolding snoc by (intro Max_eqI) auto
    then show ?thesis using Large snoc by (simp add: sz)
  qed
qed

text \<open>Two freelists that list the same regions, each in a well-formed representation of its own.\<close>

definition alike :: "freelist \<Rightarrow> freelist \<Rightarrow> bool" where
  "alike f g \<longleftrightarrow> fl_inv f \<and> fl_inv g \<and> iter_offset_order f = iter_offset_order g"

text \<open>C27: the representation of the freelist cannot be observed.  Take two freelists with the same
  regions, whatever mixture of vector and trees promotions and demotions have made of them.  Every
  query answers alike: the length, the largest region, the neighbours of an offset.  A best fit takes
  the smallest region that is large enough and meets the placement constraint, and the lowest of
  those, from both.  And every update (best fit, removal, insertion at an offset that is not yet
  listed, promotion, demotion) leaves two freelists with the same regions again, the ones the
  reference operation on the sorted list gives.\<close>

theorem freelist_hybrid_unobservable:
  assumes "alike f g" "regions_ok (iter_offset_order f)"
  shows "fl_len f = fl_len g \<and> largest f = largest g \<and>
    next_from off f = next_from off g \<and> prev_before off f = prev_before off g \<and>
    fst (best_fit n block f) = fst (best_fit n block g) \<and>
    fst (best_fit n block f) = best_region n block (iter_offset_order f) \<and>
    alike (snd (best_fit n block f)) (snd (best_fit n block g)) \<and>
    iter_offset_order (snd (best_fit n block f)) =
      (case best_region n block (iter_offset_order f) of None \<Rightarrow> iter_offset_order f
       | Some r \<Rightarrow> take_region n r (iter_offset_order f)) \<and>
    fst (fl_remove off f) = fst (fl_remove off g) \<and>
    alike (snd (fl_remove off f)) (snd (fl_remove off g)) \<and>
    iter_offset_order (snd (fl_remove off f)) = bt_delete off (iter_offset_order f) \<and>
    (off \<notin> fst ` set (iter_offset_order f) \<longrightarrow> alike (fl_insert off sz f) (fl_insert off sz g) \<and>
      iter_offset_order (fl_insert off sz f) = bt_update off sz (iter_offset_order f)) \<and>
    alike (maybe_promote f) g \<and> alike (maybe_demote f) g"
  using assms
  by (simp add: alike_def fl_len_view largest_view hyb.fit_region hyb.fit_view hyb.fit_inv hyb.next_view hyb.prev_view
      hyb.del_result hyb.del_view hyb.del_inv hyb.ins_view hyb.ins_inv cong: option.case_cong)

theorem freelist_hybrid_unobservable_witness:
  "let f = Small [(10, 9), (30, 4)]; g = Large [(10, 9), (30, 4)] [(4, 30), (9, 10)] in
    fst (best_fit 3 None f) = Some (30, 4) \<and> fst (best_fit 3 None g) = Some (30, 4) \<and>
    alike (snd (best_fit 3 None f)) (snd (best_fit 3 None g)) \<and>
    alike (fl_insert 50 2 f) (fl_insert 50 2 g) \<and> alike (snd (fl_remove 10 f)) (snd (fl_remove 10 g))"
proof -
  let ?f = "Small [(10, 9), (30, 4)]" and ?g = "Large [(10, 9), (30, 4)] [(4, 30), (9, 10)]"
  have a: "alike ?f ?g" by (auto simp: alike_def trees_inv_def)
  have r: "regions_ok (iter_offset_order ?f)" by (simp add: regions_ok_def U64_MAX_def)
  have "fst (best_fit 3 None ?f) = Some (30, 4)" by (simp add: small_best_fit_def qualifies_def U64_MAX_def)
  then show ?thesis
    using freelist_hybrid_unobservable [OF a r, of 50 3 None 2] freelist_hybrid_unobservable [OF a r, of 10 3 None 2]
    by (simp add: Let_def del: best_fit.simps fl_insert.simps fl_remove.simps)
qed

end
