(* ===== verification/Slot_Allocator.thy ===== *)
theory Slot_Allocator
  imports Freelist
begin

text \<open>
  The device space allocator, \<open>SlotAllocator\<close> in \<open>src/src/allocator.rs\<close>: reservations from the
  freelist or past the high-water mark, batches with rollback, frees with coalescing, the replay of
  redo entries, and the header the state is persisted in.  The redo log is a separate component: an
  operation takes whether the append and flush succeeded and returns the entries that became durable.
\<close>

section \<open>State\<close>

record slot_allocator =
  sa_freelist :: freelist
  sa_next_offset :: nat
  sa_data_region_start :: nat
  sa_device_size :: nat
  sa_alignment :: nat
  sa_device_id :: bytes
  sa_redo_log :: bool
  sa_redo_device_id :: u8
  sa_packed :: bool
  sa_append_only :: bool

datatype allocator_error =
    DeviceFull (requested: nat) (largest_free: nat)
  | InvalidFree nat nat
  | DoubleFree nat nat nat nat
  | UnsupportedVersion u32
  | HeaderCorruption u32 u32
  | CorruptedHeader
  | NoPersistedState
  | RedoLogFailure
  | FreelistOverflow nat nat
  | AllocDevice
  | AllocGetrandom
  | AllocInvalidSegmentSize nat nat nat

datatype reservation =
    FromFreelist nat nat
  | FromHighWater nat

datatype redo_region_op =
    AllocateRegion nat nat u8
  | FreeRegion nat nat u8
  | OtherRedoOp

definition DATA_REGION_OFFSET :: nat where "DATA_REGION_OFFSET = 1024 * 1024"
definition RECORD_ALIGN :: nat where "RECORD_ALIGN = 8"

definition sa_new :: "nat \<Rightarrow> nat \<Rightarrow> bytes \<Rightarrow> slot_allocator" where
  "sa_new device_size alignment device_id =
    \<lparr>sa_freelist = fl_new, sa_next_offset = DATA_REGION_OFFSET, sa_data_region_start = DATA_REGION_OFFSET,
     sa_device_size = device_size, sa_alignment = alignment, sa_device_id = device_id,
     sa_redo_log = False, sa_redo_device_id = 0, sa_packed = False, sa_append_only = False\<rparr>"

definition align_up :: "slot_allocator \<Rightarrow> nat \<Rightarrow> nat" where
  "align_up a sz = wrapping_mul64 (div_ceil sz (sa_alignment a)) (sa_alignment a)"

definition align_reservation :: "slot_allocator \<Rightarrow> nat \<Rightarrow> nat" where
  "align_reservation a sz =
    (if \<not> sa_packed a then align_up a sz
     else if sz \<le> sa_alignment a then wrapping_mul64 (div_ceil sz RECORD_ALIGN) RECORD_ALIGN
     else align_up a sz)"

section \<open>Reservations\<close>

definition high_water_offset :: "slot_allocator \<Rightarrow> nat \<Rightarrow> nat" where
  "high_water_offset a aligned_size =
    (let off = sa_next_offset a; block = sa_alignment a;
         need_bump = (if aligned_size \<le> block then block < off mod block + aligned_size else off mod block \<noteq> 0)
     in if sa_packed a \<and> need_bump then wrapping_mul64 (div_ceil off block) block else off)"

definition reserve_aligned ::
  "slot_allocator \<Rightarrow> nat \<Rightarrow> (allocator_error + nat \<times> reservation) \<times> slot_allocator" where
  "reserve_aligned a aligned_size =
    (let block = (if sa_packed a then Some (sa_alignment a) else None);
         (from_freelist, fl) =
           (if sa_append_only a then (None, sa_freelist a) else best_fit aligned_size block (sa_freelist a))
     in case from_freelist of
          Some (region_offset, region_size) \<Rightarrow>
            (Inr (region_offset, FromFreelist region_offset region_size), a\<lparr>sa_freelist := maybe_demote fl\<rparr>)
        | None \<Rightarrow>
            let off = high_water_offset a aligned_size;
                full = Inl (DeviceFull aligned_size (largest fl))
            in case checked_add64 off aligned_size of
                 None \<Rightarrow> (full, a\<lparr>sa_freelist := fl\<rparr>)
               | Some end \<Rightarrow>
                   if sa_device_size a < end then (full, a\<lparr>sa_freelist := fl\<rparr>)
                   else (Inr (off, FromHighWater (sa_next_offset a)),
                         a\<lparr>sa_freelist := fl, sa_next_offset := end\<rparr>))"

definition coalesce_adjacent :: "nat \<Rightarrow> nat \<Rightarrow> freelist \<Rightarrow> nat \<times> nat \<times> freelist" where
  "coalesce_adjacent = coalesce_with fl_remove next_from prev_before"

definition rollback_reservation :: "nat \<Rightarrow> reservation \<Rightarrow> slot_allocator \<Rightarrow> slot_allocator" where
  "rollback_reservation aligned_size r a =
    (case r of
       FromFreelist alloc_offset region_size \<Rightarrow>
         let fl = (if aligned_size < region_size then snd (fl_remove (alloc_offset + aligned_size) (sa_freelist a))
                   else sa_freelist a);
             (final_offset, final_size, fl) = coalesce_adjacent alloc_offset region_size fl
         in a\<lparr>sa_freelist := maybe_promote (fl_insert final_offset final_size fl)\<rparr>
     | FromHighWater previous_next_offset \<Rightarrow> a\<lparr>sa_next_offset := previous_next_offset\<rparr>)"

definition sa_allocate ::
  "slot_allocator \<Rightarrow> nat \<Rightarrow> bool \<Rightarrow> (allocator_error + nat) \<times> slot_allocator \<times> redo_region_op list" where
  "sa_allocate a sz flush_ok =
    (let aligned_size = align_reservation a sz in
     case reserve_aligned a aligned_size of
       (Inl e, a') \<Rightarrow> (Inl e, a', [])
     | (Inr (off, r), a') \<Rightarrow>
         if sa_redo_log a' then
           if flush_ok then (Inr off, a', [AllocateRegion off aligned_size (sa_redo_device_id a')])
           else (Inl RedoLogFailure, rollback_reservation aligned_size r a', [])
         else (Inr off, a', []))"

section \<open>Batches\<close>

record pending_batch =
  pb_regions :: "region option list"
  pb_rollback :: "(nat \<times> reservation) list"
  pb_redo_ops :: "redo_region_op list"

fun reserve_all :: "slot_allocator \<Rightarrow> nat list \<Rightarrow> pending_batch \<Rightarrow> (allocator_error + pending_batch) \<times> slot_allocator" where
  "reserve_all a [] p = (Inr p, a)"
| "reserve_all a (sz # sizes) p =
    (let aligned_size = align_reservation a sz in
     case reserve_aligned a aligned_size of
       (Inr (off, r), a') \<Rightarrow>
         reserve_all a' sizes
           (p\<lparr>pb_regions := pb_regions p @ [Some (off, aligned_size)],
              pb_rollback := pb_rollback p @ [(aligned_size, r)],
              pb_redo_ops := pb_redo_ops p @ [AllocateRegion off aligned_size (sa_redo_device_id a)]\<rparr>)
     | (Inl (DeviceFull n l), a') \<Rightarrow> reserve_all a' sizes (p\<lparr>pb_regions := pb_regions p @ [None]\<rparr>)
     | (Inl e, a') \<Rightarrow> (Inl e, fold (\<lambda>(n, r). rollback_reservation n r) (rev (pb_rollback p)) a'))"

definition reserve_batch :: "slot_allocator \<Rightarrow> nat list \<Rightarrow> (allocator_error + pending_batch) \<times> slot_allocator" where
  "reserve_batch a sizes = reserve_all a sizes \<lparr>pb_regions = [], pb_rollback = [], pb_redo_ops = []\<rparr>"

definition rollback_pending :: "pending_batch \<Rightarrow> slot_allocator \<Rightarrow> slot_allocator" where
  "rollback_pending p a = fold (\<lambda>(n, r). rollback_reservation n r) (rev (pb_rollback p)) a"

definition allocate_batch ::
  "slot_allocator \<Rightarrow> nat list \<Rightarrow> bool \<Rightarrow>
   (allocator_error + region option list) \<times> slot_allocator \<times> redo_region_op list" where
  "allocate_batch a sizes flush_ok =
    (case reserve_batch a sizes of
       (Inl e, a') \<Rightarrow> (Inl e, a', [])
     | (Inr p, a') \<Rightarrow>
         if sa_redo_log a' \<and> pb_redo_ops p \<noteq> [] then
           if flush_ok then (Inr (pb_regions p), a', pb_redo_ops p)
           else (Inl RedoLogFailure, rollback_pending p a', [])
         else (Inr (pb_regions p), a', []))"

section \<open>Frees\<close>

definition free_region_containing :: "slot_allocator \<Rightarrow> nat \<Rightarrow> region option" where
  "free_region_containing a off =
    (case prev_before (saturating_add64 off 1) (sa_freelist a) of
       Some (free_offset, free_size) \<Rightarrow>
         if free_offset \<le> off \<and> off < saturating_add64 free_offset free_size
         then Some (free_offset, free_size) else None
     | None \<Rightarrow> None)"

definition release :: "slot_allocator \<Rightarrow> nat \<Rightarrow> nat \<Rightarrow> slot_allocator" where
  "release a off aligned_size =
    (let (final_offset, final_size, fl) = coalesce_adjacent off aligned_size (sa_freelist a)
     in a\<lparr>sa_freelist := maybe_promote (fl_insert final_offset final_size fl)\<rparr>)"

definition sa_free ::
  "slot_allocator \<Rightarrow> nat \<Rightarrow> nat \<Rightarrow> bool \<Rightarrow> (allocator_error + unit) \<times> slot_allocator \<times> redo_region_op list" where
  "sa_free a off sz flush_ok =
    (let aligned_size = align_reservation a sz; fail = (\<lambda>e. (Inl e, a, [])) in
     if aligned_size = 0 then fail (InvalidFree off aligned_size)
     else case checked_add64 off aligned_size of
       None \<Rightarrow> fail (InvalidFree off aligned_size)
     | Some end \<Rightarrow>
         if off < sa_data_region_start a \<or> sa_device_size a < end then fail (InvalidFree off aligned_size)
         else case free_region_containing a off of
           Some (fo, fs) \<Rightarrow> fail (DoubleFree off aligned_size fo fs)
         | None \<Rightarrow>
             let done = (\<lambda>ops. (Inr (), release a off aligned_size, ops));
                 journal = (if \<not> sa_redo_log a then done []
                            else if flush_ok then done [FreeRegion off aligned_size (sa_redo_device_id a)]
                            else fail RedoLogFailure)
             in case next_from off (sa_freelist a) of
                  Some (fo, fs) \<Rightarrow> if fo < end then fail (DoubleFree off aligned_size fo fs) else journal
                | None \<Rightarrow> journal)"

section \<open>Replay\<close>

definition carve_allocation :: "slot_allocator \<Rightarrow> nat \<Rightarrow> nat \<Rightarrow> bool \<times> slot_allocator" where
  "carve_allocation a off sz =
    (case overlapping next_from prev_before off sz (sa_freelist a) of
       None \<Rightarrow> (False, a)
     | Some r \<Rightarrow>
         (True, a\<lparr>sa_freelist := maybe_demote (maybe_promote
            (carve_with fl_insert fl_remove r off (off + sz) (sa_freelist a)))\<rparr>))"

definition replay_allocate :: "slot_allocator \<Rightarrow> nat \<Rightarrow> nat \<Rightarrow> bool \<times> slot_allocator" where
  "replay_allocate a off sz =
    (let aligned_size = align_reservation a sz in
     case checked_add64 off aligned_size of
       None \<Rightarrow> (False, a)
     | Some end \<Rightarrow>
         if aligned_size = 0 \<or> off < sa_data_region_start a \<or> sa_device_size a < end then (False, a)
         else
           let bumped = sa_next_offset a < end;
               a = (if bumped then a\<lparr>sa_next_offset := end\<rparr> else a);
               (carved, a) = carve_allocation a off aligned_size
           in (bumped \<or> carved, a))"

definition replay_free :: "slot_allocator \<Rightarrow> nat \<Rightarrow> nat \<Rightarrow> bool \<times> slot_allocator" where
  "replay_free a off sz =
    (let aligned_size = align_reservation a sz in
     if aligned_size = 0 then (False, a)
     else case checked_add64 off aligned_size of
       None \<Rightarrow> (False, a)
     | Some end \<Rightarrow>
         let prev = prev_before (off + 1) (sa_freelist a) in
         if (case prev of Some (po, ps) \<Rightarrow> po \<le> off \<and> end \<le> saturating_add64 po ps | None \<Rightarrow> False)
         then (False, a)
         else if off < sa_data_region_start a \<or> sa_device_size a < end then (False, a)
         else if (case prev of Some (po, ps) \<Rightarrow> off < saturating_add64 po ps | None \<Rightarrow> False) then (False, a)
         else if (case next_from off (sa_freelist a) of Some (no, ns) \<Rightarrow> no < end | None \<Rightarrow> False)
         then (False, a)
         else (True, release a off aligned_size))"

fun replay_redo :: "redo_region_op \<Rightarrow> slot_allocator \<Rightarrow> bool \<times> slot_allocator" where
  "replay_redo (AllocateRegion off sz dev) a =
    (if dev \<noteq> sa_redo_device_id a then (False, a) else replay_allocate a off sz)"
| "replay_redo (FreeRegion off sz dev) a =
    (if dev \<noteq> sa_redo_device_id a then (False, a) else replay_free a off sz)"
| "replay_redo OtherRedoOp a = (False, a)"

definition reserve_recovered_live_region :: "slot_allocator \<Rightarrow> nat \<Rightarrow> nat \<Rightarrow> bool \<times> slot_allocator" where
  "reserve_recovered_live_region a off sz =
    (let aligned_size = align_reservation a sz in
     case checked_add64 off aligned_size of
       None \<Rightarrow> (False, a)
     | Some end \<Rightarrow>
         case free_region_containing a off of
           None \<Rightarrow> (False, a)
         | Some (fo, fs) \<Rightarrow>
             if aligned_size = 0 \<or> saturating_add64 fo fs < end then (False, a)
             else (True, a\<lparr>sa_freelist :=
               maybe_demote (carve_with fl_insert fl_remove (fo, fs) off end (sa_freelist a))\<rparr>))"

definition is_allocated_range :: "slot_allocator \<Rightarrow> nat \<Rightarrow> nat \<Rightarrow> bool" where
  "is_allocated_range a off sz =
    (let aligned_size = align_reservation a sz in
     case checked_add64 off aligned_size of
       None \<Rightarrow> False
     | Some end \<Rightarrow>
         \<not> (aligned_size = 0 \<or> off < sa_data_region_start a \<or> sa_next_offset a < end \<or> sa_device_size a < end) \<and>
         \<not> list_ex (\<lambda>(fo, fs). fo < end \<and> off < saturating_add64 fo fs) (iter_offset_order (sa_freelist a)))"

section \<open>Invariant\<close>

abbreviation sa_view :: "slot_allocator \<Rightarrow> region list" where
  "sa_view a \<equiv> iter_offset_order (sa_freelist a)"

text \<open>The block size is a power of two.  In packed mode the device ends at least one block below
  \<open>2 ^ 64\<close>, so that rounding the high-water mark up to a block does not wrap.\<close>

definition sa_config_ok :: "slot_allocator \<Rightarrow> bool" where
  "sa_config_ok a \<longleftrightarrow> (\<exists>k \<ge> 9. k < 64 \<and> sa_alignment a = 2 ^ k) \<and>
    0 < sa_data_region_start a \<and> sa_device_size a \<le> U64_MAX \<and>
    (sa_packed a \<longrightarrow> sa_device_size a + sa_alignment a \<le> 2 ^ 64)"

definition sa_inv :: "slot_allocator \<Rightarrow> bool" where
  "sa_inv a \<longleftrightarrow> sa_config_ok a \<and> fl_inv (sa_freelist a) \<and> regions_ok (sa_view a) \<and>
    space (sa_view a) \<subseteq> {sa_data_region_start a ..< sa_next_offset a} \<and>
    sa_data_region_start a \<le> sa_next_offset a \<and> sa_next_offset a \<le> sa_device_size a"

text \<open>Allocators that differ at most in the representation of their freelist.\<close>

definition same_alloc :: "slot_allocator \<Rightarrow> slot_allocator \<Rightarrow> bool" where
  "same_alloc a b \<longleftrightarrow> sa_view a = sa_view b \<and> a\<lparr>sa_freelist := fl_new\<rparr> = b\<lparr>sa_freelist := fl_new\<rparr>"

text \<open>A run of the allocator with the regions it has handed out and the redo entries that became
  durable.\<close>

definition live_ok :: "slot_allocator \<Rightarrow> region set \<Rightarrow> bool" where
  "live_ok a live \<longleftrightarrow>
    (\<forall>r \<in> live. span r \<subseteq> {sa_data_region_start a ..< sa_next_offset a} \<and> span r \<inter> space (sa_view a) = {}) \<and>
    (\<forall>r \<in> live. \<forall>r' \<in> live. r \<noteq> r' \<longrightarrow> span r \<inter> span r' = {})"

inductive alloc_run ::
  "slot_allocator \<Rightarrow> region set \<Rightarrow> slot_allocator \<Rightarrow> region set \<Rightarrow> redo_region_op list \<Rightarrow> bool" for a0 live0 where
  run_start: "alloc_run a0 live0 a0 live0 []"
| run_allocate: "alloc_run a0 live0 a live j \<Longrightarrow> sa_allocate a sz ok = (Inr off, a', ops) \<Longrightarrow>
    alloc_run a0 live0 a' (insert (off, align_reservation a sz) live) (j @ ops)"
| run_allocate_fail: "alloc_run a0 live0 a live j \<Longrightarrow> sa_allocate a sz ok = (Inl e, a', ops) \<Longrightarrow>
    alloc_run a0 live0 a' live (j @ ops)"
| run_batch: "alloc_run a0 live0 a live j \<Longrightarrow> allocate_batch a szs ok = (Inr rs, a', ops) \<Longrightarrow>
    alloc_run a0 live0 a' (live \<union> {r. Some r \<in> set rs}) (j @ ops)"
| run_batch_fail: "alloc_run a0 live0 a live j \<Longrightarrow> allocate_batch a szs ok = (Inl e, a', ops) \<Longrightarrow>
    alloc_run a0 live0 a' live (j @ ops)"
| run_free: "alloc_run a0 live0 a live j \<Longrightarrow> (off, align_reservation a sz) \<in> live \<Longrightarrow>
    sa_free a off sz ok = (Inr (), a', ops) \<Longrightarrow>
    alloc_run a0 live0 a' (live - {(off, align_reservation a sz)}) (j @ ops)"
| run_free_fail: "alloc_run a0 live0 a live j \<Longrightarrow> sa_free a off sz ok = (Inl e, a', ops) \<Longrightarrow>
    alloc_run a0 live0 a' live (j @ ops)"

definition replay_all :: "redo_region_op list \<Rightarrow> slot_allocator \<Rightarrow> slot_allocator" where
  "replay_all ops a = fold (\<lambda>op a. snd (replay_redo op a)) ops a"

definition undone_by :: "(nat \<times> reservation) list \<Rightarrow> slot_allocator \<Rightarrow> slot_allocator \<Rightarrow> bool" where
  "undone_by rb a' a \<longleftrightarrow> (\<forall>b. same_alloc b a' \<and> fl_inv (sa_freelist b) \<longrightarrow>
    same_alloc (fold (\<lambda>(n, r). rollback_reservation n r) (rev rb) b) a \<and>
    fl_inv (sa_freelist (fold (\<lambda>(n, r). rollback_reservation n r) (rev rb) b)))"

definition redone_by :: "redo_region_op list \<Rightarrow> slot_allocator \<Rightarrow> slot_allocator \<Rightarrow> bool" where
  "redone_by ops a a' \<longleftrightarrow> (\<forall>b. same_alloc b a \<and> fl_inv (sa_freelist b) \<longrightarrow>
    same_alloc (replay_all ops b) a' \<and> fl_inv (sa_freelist (replay_all ops b)))"

definition sa_config :: "slot_allocator \<Rightarrow> nat \<times> nat \<times> nat \<times> bool" where
  "sa_config a = (sa_alignment a, sa_device_size a, sa_data_region_start a, sa_packed a)"

section \<open>Alignment\<close>

lemma div_ceil_bounds: "0 < m \<Longrightarrow> n \<le> div_ceil n m * m \<and> div_ceil n m * m < n + m"
proof -
  assume m: "0 < m"
  have "(n + m - 1) div m * m + (n + m - 1) mod m = n + m - 1" by (rule div_mult_mod_eq)
  moreover have "(n + m - 1) mod m < m" using m by simp
  ultimately show ?thesis using m unfolding div_ceil_def by linarith
qed

lemma div_ceil_mult:
  assumes "0 < m" "m dvd n"
  shows "div_ceil n m * m = n"
proof -
  obtain c where n: "n = m * c" using assms(2) by blast
  have "m * c \<le> m * div_ceil n m" "m * div_ceil n m < m * (c + 1)"
    using div_ceil_bounds [OF assms(1), of n] n by (simp_all add: mult.commute)
  then have "c \<le> div_ceil n m" "div_ceil n m < c + 1"
    unfolding nat_mult_less_cancel_disj nat_mult_le_cancel_disj using assms(1) by auto
  then have "div_ceil n m = c" by simp
  then show ?thesis using n by simp
qed

lemma wrap_aligned: "0 < m \<Longrightarrow> m dvd n \<Longrightarrow> n < 2 ^ 64 \<Longrightarrow> wrapping_mul64 (div_ceil n m) m = n"
  by (simp add: wrapping_mul64_def div_ceil_mult)

lemma wrap_dvd:
  assumes "k \<le> 64"
  shows "2 ^ k dvd wrapping_mul64 c (2 ^ k)" "wrapping_mul64 c m < 2 ^ 64"
proof -
  have "(2 :: nat) ^ k dvd 2 ^ 64" using assms by (rule le_imp_power_dvd)
  then show "2 ^ k dvd wrapping_mul64 c (2 ^ k)" unfolding wrapping_mul64_def by (simp add: dvd_mod)
qed (simp add: wrapping_mul64_def)

lemma align_reservation_idem:
  assumes "sa_config_ok a"
  shows "align_reservation a (align_reservation a n) = align_reservation a n"
proof -
  obtain k where k: "9 \<le> k" "k < 64" "sa_alignment a = 2 ^ k" using assms by (auto simp: sa_config_ok_def)
  have al: "2 ^ k dvd align_up a n" "align_up a n < 2 ^ 64" for n
    using wrap_dvd [of k] k unfolding align_up_def by simp_all
  have idem: "align_up a m = m" if "2 ^ k dvd m" "m < 2 ^ 64" for m
    using wrap_aligned [of "2 ^ k" m] that k unfolding align_up_def by simp
  have eight: "RECORD_ALIGN dvd 2 ^ k"
    using le_imp_power_dvd [of 3 k "2 :: nat"] k(1) by (simp add: RECORD_ALIGN_def)
  have small: "wrapping_mul64 (div_ceil m RECORD_ALIGN) RECORD_ALIGN = m" if "RECORD_ALIGN dvd m" "m < 2 ^ 64" for m
    using wrap_aligned that by (simp add: RECORD_ALIGN_def)
  show ?thesis
  proof (cases "sa_packed a \<and> n \<le> 2 ^ k")
    case False
    then have r: "align_reservation a n = align_up a n" using k by (auto simp: align_reservation_def)
    have "RECORD_ALIGN dvd align_up a n" using al(1) eight by (rule dvd_trans [rotated])
    then show ?thesis unfolding r using al idem small by (simp add: align_reservation_def)
  next
    case True
    let ?r = "div_ceil n RECORD_ALIGN * RECORD_ALIGN"
    have "?r < n + RECORD_ALIGN" using div_ceil_bounds [of RECORD_ALIGN n] by (simp add: RECORD_ALIGN_def)
    moreover have "RECORD_ALIGN dvd ?r" by simp
    moreover obtain q where q: "2 ^ k = RECORD_ALIGN * q" using eight by blast
    ultimately have "RECORD_ALIGN * div_ceil n RECORD_ALIGN < RECORD_ALIGN * (q + 1)"
      using True by (simp add: mult.commute)
    then have "div_ceil n RECORD_ALIGN < q + 1" unfolding nat_mult_less_cancel_disj by simp
    then have le: "?r \<le> 2 ^ k" unfolding q by simp
    then have "?r < 2 ^ 64" using power_strict_increasing [OF k(2), of "2::nat"] by linarith
    then have "align_reservation a n = ?r"
      using True k by (simp add: align_reservation_def wrapping_mul64_def)
    then show ?thesis using True le small [of ?r] \<open>?r < 2 ^ 64\<close> k by (simp add: align_reservation_def)
  qed
qed

lemma align_reservation_ge:
  assumes "sa_config_ok a" "n + sa_alignment a \<le> 2 ^ 64"
  shows "n \<le> align_reservation a n"
proof -
  obtain k where k: "9 \<le> k" "k < 64" "sa_alignment a = 2 ^ k" using assms by (auto simp: sa_config_ok_def)
  have "(2 :: nat) ^ 9 \<le> 2 ^ k" using k(1) by (rule power_increasing) simp
  then have "n + RECORD_ALIGN \<le> 2 ^ 64" using assms(2) k(3) by (simp add: RECORD_ALIGN_def)
  then have "n \<le> wrapping_mul64 (div_ceil n RECORD_ALIGN) RECORD_ALIGN"
    using div_ceil_bounds [of RECORD_ALIGN n] by (simp add: wrapping_mul64_def RECORD_ALIGN_def)
  moreover have "n \<le> align_up a n"
    using div_ceil_bounds [of "sa_alignment a" n] assms(2) k(3)
    unfolding align_up_def by (simp add: wrapping_mul64_def)
  ultimately show ?thesis by (simp add: align_reservation_def)
qed

lemma align_cong:
  "sa_alignment a = sa_alignment b \<Longrightarrow> sa_packed a = sa_packed b \<Longrightarrow>
    align_reservation a n = align_reservation b n"
  by (simp add: align_reservation_def align_up_def)

section \<open>Reserving and rolling back\<close>

lemma sa_invD:
  assumes "sa_inv a"
  shows "sa_config_ok a" "fl_inv (sa_freelist a)" "regions_ok (sa_view a)"
    "space (sa_view a) \<subseteq> {sa_data_region_start a ..< sa_next_offset a}"
    "sa_data_region_start a \<le> sa_next_offset a" "sa_next_offset a \<le> sa_device_size a"
  using assms by (simp_all add: sa_inv_def)

lemma region_bounds:
  assumes "sa_inv a" "(off, n) \<in> set (sa_view a)"
  shows "sa_data_region_start a \<le> off" "off + n \<le> sa_next_offset a" "0 < n"
proof -
  show n: "0 < n" using assms sa_invD(3) ok_pos by blast
  have "{off ..< off + n} \<subseteq> space (sa_view a)" using assms(2) by (force simp: space_def span_def)
  then have "{off ..< off + n} \<subseteq> {sa_data_region_start a ..< sa_next_offset a}"
    using sa_invD(4) [OF assms(1)] by blast
  moreover have "off \<in> {off ..< off + n}" "off + n - 1 \<in> {off ..< off + n}" using n by auto
  ultimately have "off \<in> {sa_data_region_start a ..< sa_next_offset a}"
    "off + n - 1 \<in> {sa_data_region_start a ..< sa_next_offset a}" by blast+
  then show "sa_data_region_start a \<le> off" "off + n \<le> sa_next_offset a" using n by auto
qed

lemma high_water_offset_props:
  assumes "sa_inv a"
  shows "sa_next_offset a \<le> high_water_offset a n"
    "sa_packed a \<Longrightarrow> qualifies (Some (sa_alignment a)) n (high_water_offset a n)"
proof -
  let ?up = "div_ceil (sa_next_offset a) (sa_alignment a) * sa_alignment a"
  have al: "0 < sa_alignment a" using assms by (auto simp: sa_inv_def sa_config_ok_def)
  note b = div_ceil_bounds [OF al, of "sa_next_offset a"]
  have "wrapping_mul64 (div_ceil (sa_next_offset a) (sa_alignment a)) (sa_alignment a) = ?up" if "sa_packed a"
    using b that assms by (simp add: wrapping_mul64_def sa_inv_def sa_config_ok_def)
  then show "sa_next_offset a \<le> high_water_offset a n"
    "sa_packed a \<Longrightarrow> qualifies (Some (sa_alignment a)) n (high_water_offset a n)"
    using b by (auto simp: high_water_offset_def qualifies_def Let_def)
qed

text \<open>The two ways a reservation succeeds.\<close>

lemma reserve_cases:
  assumes "sa_inv a" "reserve_aligned a n = (Inr (off, r), a')"
  obtains (freelist) sz where "(off, sz) \<in> set (sa_view a)" "n \<le> sz" "r = FromFreelist off sz"
      "sa_packed a \<Longrightarrow> qualifies (Some (sa_alignment a)) n off"
      "a' = a\<lparr>sa_freelist := sa_freelist a'\<rparr>" "fl_inv (sa_freelist a')"
      "sa_view a' = take_region n (off, sz) (sa_view a)"
  | (high_water) "r = FromHighWater (sa_next_offset a)" "off = high_water_offset a n"
      "off + n \<le> sa_device_size a" "fl_inv (sa_freelist a')" "sa_view a' = sa_view a"
      "a' = a\<lparr>sa_freelist := sa_freelist a', sa_next_offset := off + n\<rparr>"
proof -
  note inv = sa_invD [OF assms(1)]
  let ?block = "if sa_packed a then Some (sa_alignment a) else None"
  show thesis
  proof (cases "\<not> sa_append_only a \<and> best_region n ?block (sa_view a) \<noteq> None")
    case True
    then obtain o' sz where b: "best_region n ?block (sa_view a) = Some (o', sz)" by auto
    obtain fl where fit: "best_fit n ?block (sa_freelist a) = (Some (o', sz), fl)"
      using hyb.fit_region [OF inv(2,3), of n ?block] b by (cases "best_fit n ?block (sa_freelist a)") simp
    have fl: "fl_inv fl" "iter_offset_order fl = take_region n (o', sz) (sa_view a)"
      using hyb.fit_inv [OF inv(2,3), of n ?block] hyb.fit_view [OF inv(2,3), of n ?block] fit b by simp_all
    have "off = o'" "r = FromFreelist o' sz" "a' = a\<lparr>sa_freelist := maybe_demote fl\<rparr>"
      using assms(2) True fit by (auto simp: reserve_aligned_def Let_def split: if_splits)
    then show thesis
      using best_region_Some [OF b] fl by (intro freelist [of sz]) (auto split: if_splits)
  next
    case False
    obtain fl where fl: "(if sa_append_only a then (None, sa_freelist a) else best_fit n ?block (sa_freelist a)) = (None, fl)"
      "fl_inv fl" "iter_offset_order fl = sa_view a"
    proof (cases "sa_append_only a")
      case no: False
      then have b: "best_region n ?block (sa_view a) = None" using False by blast
      obtain fl where "best_fit n ?block (sa_freelist a) = (None, fl)"
        using hyb.fit_region [OF inv(2,3), of n ?block] b by (cases "best_fit n ?block (sa_freelist a)") simp
      then show ?thesis
        using that no hyb.fit_inv [OF inv(2,3), of n ?block] hyb.fit_view [OF inv(2,3), of n ?block] b by simp
    qed (use that inv in simp)
    have "off = high_water_offset a n" "r = FromHighWater (sa_next_offset a)" "off + n \<le> sa_device_size a"
      "a' = a\<lparr>sa_freelist := fl, sa_next_offset := off + n\<rparr>"
      using assms(2) unfolding reserve_aligned_def Let_def fl(1)
      by (auto simp: checked_add64_def split: if_splits)
    then show thesis using fl by (intro high_water) auto
  qed
qed

lemma reserve_fail:
  assumes "sa_inv a" "reserve_aligned a n = (Inl e, a')"
  shows "same_alloc a' a \<and> fl_inv (sa_freelist a') \<and> (\<exists>l. e = DeviceFull n l)"
proof -
  note inv = sa_invD [OF assms(1)]
  let ?block = "if sa_packed a then Some (sa_alignment a) else None"
  obtain x fl where fl: "(if sa_append_only a then (None, sa_freelist a) else best_fit n ?block (sa_freelist a)) = (x, fl)"
    by force
  have x: "x = None"
    using assms(2) unfolding reserve_aligned_def Let_def fl by (auto split: option.splits prod.splits)
  have "fl_inv fl \<and> iter_offset_order fl = sa_view a"
    using fl x inv hyb.fit_inv [OF inv(2,3), of n ?block] hyb.fit_view [OF inv(2,3), of n ?block]
      hyb.fit_region [OF inv(2,3), of n ?block]
    by (cases "sa_append_only a") auto
  moreover have "a' = a\<lparr>sa_freelist := fl\<rparr> \<and> e = DeviceFull n (largest fl)"
    using assms(2) unfolding reserve_aligned_def Let_def fl x
    by (auto split: option.splits if_splits)
  ultimately show ?thesis by (auto simp: same_alloc_def)
qed

lemma reserve_space:
  assumes "sa_inv a" "reserve_aligned a n = (Inr (off, r), a')"
  shows "sa_inv a'"
    and "space (sa_view a') = space (sa_view a) - {off ..< off + n}"
    and "{off ..< off + n} \<subseteq> space (sa_view a) \<union> {sa_next_offset a ..< sa_next_offset a'}"
    and "sa_data_region_start a \<le> off" "off + n \<le> sa_next_offset a'" "sa_next_offset a \<le> sa_next_offset a'"
    and "sa_packed a \<Longrightarrow> qualifies (Some (sa_alignment a)) n off"
    and "a' = a\<lparr>sa_freelist := sa_freelist a', sa_next_offset := sa_next_offset a'\<rparr>"
proof -
  note inv = sa_invD [OF assms(1)]
  have *: "sa_inv a' \<and> space (sa_view a') = space (sa_view a) - {off ..< off + n} \<and>
    {off ..< off + n} \<subseteq> space (sa_view a) \<union> {sa_next_offset a ..< sa_next_offset a'} \<and>
    sa_data_region_start a \<le> off \<and> off + n \<le> sa_next_offset a' \<and> sa_next_offset a \<le> sa_next_offset a' \<and>
    (sa_packed a \<longrightarrow> qualifies (Some (sa_alignment a)) n off) \<and>
    a' = a\<lparr>sa_freelist := sa_freelist a', sa_next_offset := sa_next_offset a'\<rparr>"
    using assms
  proof (cases rule: reserve_cases)
    case (freelist sz)
    note t = take_region_space [OF inv(3) freelist(1,2)]
    note b = region_bounds [OF assms(1) freelist(1)]
    obtain fl where a': "a' = a\<lparr>sa_freelist := fl\<rparr>" using freelist(5) by blast
    have "{off ..< off + sz} \<subseteq> space (sa_view a)" using freelist(1) by (force simp: space_def span_def)
    then have "{off ..< off + n} \<subseteq> space (sa_view a)" "off + n \<le> sa_next_offset a"
      using freelist(2) b(2) by auto
    then show ?thesis
      using freelist(4,6,7) t b inv
      by (auto simp: a' sa_inv_def sa_config_ok_def)
  next
    case high_water
    note h = high_water_offset_props [OF assms(1), of n]
    obtain fl where a': "a' = a\<lparr>sa_freelist := fl, sa_next_offset := off + n\<rparr>" using high_water(6) by blast
    have "space (sa_view a) \<inter> {off ..< off + n} = {}" using inv(4) h(1) high_water(2) by fastforce
    then show ?thesis
      using high_water(2-5) h inv
      by (auto simp: a' sa_inv_def sa_config_ok_def)
  qed
  then show "sa_inv a'"
    and "space (sa_view a') = space (sa_view a) - {off ..< off + n}"
    and "{off ..< off + n} \<subseteq> space (sa_view a) \<union> {sa_next_offset a ..< sa_next_offset a'}"
    and "sa_data_region_start a \<le> off" "off + n \<le> sa_next_offset a'" "sa_next_offset a \<le> sa_next_offset a'"
    and "sa_packed a \<Longrightarrow> qualifies (Some (sa_alignment a)) n off"
    and "a' = a\<lparr>sa_freelist := sa_freelist a', sa_next_offset := sa_next_offset a'\<rparr>"
    by blast+
qed

text \<open>A view determines the behaviour; rolling back the last reservation restores it.\<close>

lemma same_alloc_refl [simp]: "same_alloc a a"
  by (simp add: same_alloc_def)

lemma same_allocD:
  assumes "same_alloc a b"
  shows "sa_view a = sa_view b" "sa_next_offset a = sa_next_offset b"
    "sa_data_region_start a = sa_data_region_start b" "sa_device_size a = sa_device_size b"
    "sa_alignment a = sa_alignment b" "sa_redo_log a = sa_redo_log b"
    "sa_redo_device_id a = sa_redo_device_id b" "sa_packed a = sa_packed b"
    "sa_append_only a = sa_append_only b" "sa_config_ok a = sa_config_ok b"
proof -
  have e: "a\<lparr>sa_freelist := fl_new\<rparr> = b\<lparr>sa_freelist := fl_new\<rparr>" and v: "sa_view a = sa_view b"
    using assms by (simp_all add: same_alloc_def)
  show "sa_view a = sa_view b" by (rule v)
  show "sa_next_offset a = sa_next_offset b"
    "sa_data_region_start a = sa_data_region_start b" "sa_device_size a = sa_device_size b"
    "sa_alignment a = sa_alignment b" "sa_redo_log a = sa_redo_log b"
    "sa_redo_device_id a = sa_redo_device_id b" "sa_packed a = sa_packed b"
    "sa_append_only a = sa_append_only b" "sa_config_ok a = sa_config_ok b"
    using e by (cases a; cases b; simp add: sa_config_ok_def)+
qed

lemma same_alloc_sym: "same_alloc a b \<Longrightarrow> same_alloc b a"
  by (simp add: same_alloc_def)

lemma same_alloc_trans: "same_alloc a b \<Longrightarrow> same_alloc b c \<Longrightarrow> same_alloc a c"
  by (simp add: same_alloc_def)

lemma same_alloc_inv: "same_alloc a b \<Longrightarrow> fl_inv (sa_freelist a) \<Longrightarrow> sa_inv b \<Longrightarrow> sa_inv a"
  using same_allocD [of a b] by (simp add: sa_inv_def)

lemma same_allocI:
  assumes "regions_ok (sa_view a)" "regions_ok (sa_view b)" "space (sa_view a) = space (sa_view b)"
    and "a\<lparr>sa_freelist := fl_new\<rparr> = b\<lparr>sa_freelist := fl_new\<rparr>"
  shows "same_alloc a b"
  using space_inject [OF assms(1-3)] assms(4) by (simp add: same_alloc_def)

lemma release_space:
  assumes "sa_inv a" "0 < n" "space (sa_view a) \<inter> {off ..< off + n} = {}"
    and "sa_data_region_start a \<le> off" "off + n \<le> sa_next_offset a"
  shows "sa_inv (release a off n)" "space (sa_view (release a off n)) = space (sa_view a) \<union> {off ..< off + n}"
    and "\<exists>fl. release a off n = a\<lparr>sa_freelist := fl\<rparr>"
proof -
  note inv = sa_invD [OF assms(1)]
  obtain o' s' fl where c: "coalesce_with fl_remove next_from prev_before off n (sa_freelist a) = (o', s', fl)"
    by (metis prod_cases3)
  have "sa_next_offset a \<le> U64_MAX" "0 < sa_data_region_start a" using inv(1,6) by (auto simp: sa_config_ok_def)
  then have sub: "space (sa_view a) \<union> {off ..< off + n} \<subseteq> {0 <..< U64_MAX}"
    using inv(4) assms(4,5) by fastforce
  note ins = hyb.coalesce [OF inv(2,3) assms(2,3) sub c]
  have r: "release a off n = a\<lparr>sa_freelist := maybe_promote (fl_insert o' s' fl)\<rparr>"
    using c by (simp add: release_def coalesce_adjacent_def)
  show "sa_inv (release a off n)" "space (sa_view (release a off n)) = space (sa_view a) \<union> {off ..< off + n}"
    using ins inv assms(4,5) by (auto simp: r sa_inv_def sa_config_ok_def)
  show "\<exists>fl. release a off n = a\<lparr>sa_freelist := fl\<rparr>" using r by blast
qed

lemma rollback_restores:
  assumes "sa_inv a" "reserve_aligned a n = (Inr (off, r), a')" "same_alloc b a'" "fl_inv (sa_freelist b)"
  shows "same_alloc (rollback_reservation n r b) a \<and> sa_inv (rollback_reservation n r b)"
  using assms(1,2)
proof (cases rule: reserve_cases)
  case high_water
  obtain fl where a': "a' = a\<lparr>sa_freelist := fl, sa_next_offset := off + n\<rparr>" using high_water(6) by blast
  have "same_alloc (rollback_reservation n r b) a"
    using assms(3) high_water(1,5) unfolding same_alloc_def
    by (cases a; cases b) (auto simp: rollback_reservation_def a')
  moreover have "fl_inv (sa_freelist (rollback_reservation n r b))"
    using assms(4) high_water(1) by (simp add: rollback_reservation_def)
  ultimately show ?thesis using same_alloc_inv assms(1) by blast
next
  case (freelist sz)
  note inv = sa_invD [OF assms(1)]
  note ra = region_bounds [OF assms(1) freelist(1)]
  obtain fl' where a': "a' = a\<lparr>sa_freelist := fl'\<rparr>" using freelist(5) by blast
  have vb: "sa_view b = take_region n (off, sz) (sa_view a)" using freelist(7) same_allocD(1) [OF assms(3)] by simp
  define fl where "fl = (if n < sz then snd (fl_remove (off + n) (sa_freelist b)) else sa_freelist b)"
  have v: "fl_inv fl" "iter_offset_order fl = bt_delete off (sa_view a)"
  proof -
    have "bt_delete (off + n) (bt_update (off + n) (sz - n) (bt_delete off (sa_view a))) = bt_delete off (sa_view a)"
      if "n < sz"
    proof (rule bt_eqI)
      have "off + n \<notin> fst ` set (bt_delete off (sa_view a))"
        using ok_pairwise [OF inv(3) freelist(1)] that by (fastforce simp: set_bt_delete)
      then show "set (bt_delete (off + n) (bt_update (off + n) (sz - n) (bt_delete off (sa_view a)))) =
          set (bt_delete off (sa_view a))"
        by (force simp: set_bt_delete [of "off + n"] set_bt_update)
    qed (use ok_sorted [OF inv(3)] in simp_all)
    then show "fl_inv fl" "iter_offset_order fl = bt_delete off (sa_view a)"
      using assms(4) vb freelist(2) by (auto simp: fl_def hyb.del_inv hyb.del_view take_region_def)
  qed
  note d = ok_delete [OF inv(3), of off] space_delete [OF inv(3) freelist(1)]
  obtain o' s' fl2 where c: "coalesce_with fl_remove next_from prev_before off sz fl = (o', s', fl2)"
    by (metis prod_cases3)
  have in_space: "{off ..< off + sz} \<subseteq> space (sa_view a)" using freelist(1) by (force simp: space_def span_def)
  have "space (sa_view a) \<subseteq> {0 <..< U64_MAX}"
    using inv(1,4,6) by (fastforce simp: sa_config_ok_def)
  then have ins: "fl_inv (fl_insert o' s' fl2)" "regions_ok (iter_offset_order (fl_insert o' s' fl2))"
    "space (iter_offset_order (fl_insert o' s' fl2)) = space (sa_view a)"
    using hyb.coalesce [OF v(1) _ ra(3) _ _ c] v(2) d in_space by auto
  have rb: "rollback_reservation n r b = b\<lparr>sa_freelist := maybe_promote (fl_insert o' s' fl2)\<rparr>"
    using c freelist(3) by (simp add: rollback_reservation_def fl_def coalesce_adjacent_def)
  have "same_alloc (rollback_reservation n r b) a"
    using ins inv(3) assms(3) unfolding rb
    by (intro same_allocI) (auto simp: same_alloc_def a')
  moreover have "fl_inv (sa_freelist (rollback_reservation n r b))" using ins by (simp add: rb)
  ultimately show ?thesis using same_alloc_inv assms(1) by blast
qed

section \<open>Freeing\<close>

lemma first_from_least:
  assumes "bt_sorted v" "r \<in> set v" "key \<le> fst r"
  shows "\<exists>r'. first_from key v = Some r' \<and> fst r' \<le> fst r"
  using assms unfolding first_from_def by (induction v) (auto simp: less_imp_le)

lemma last_before_within:
  assumes "regions_ok v" "(a, b) \<in> set v" "a \<le> off" "off < a + b"
  shows "last_before (off + 1) v = Some (a, b)"
proof (rule last_before_greatest)
  show "a' \<le> a" if "(a', b') \<in> set v" "a' < off + 1" for a' b'
    using ok_pairwise [OF assms(1,2) that(1)] assms(4) that(2) by auto
qed (use assms in \<open>simp_all add: ok_sorted\<close>)

lemma region_sum: "sa_inv a \<Longrightarrow> (fo, fs) \<in> set (sa_view a) \<Longrightarrow> saturating_add64 fo fs = fo + fs"
  using region_bounds(2) [of a fo fs] sa_invD(1,6) [of a]
  by (simp add: saturating_add64_def sa_config_ok_def)

lemma prev_view_sa: "sa_inv a \<Longrightarrow> prev_before off (sa_freelist a) = last_before off (sa_view a)"
  using hyb.prev_view sa_invD(2) by blast

lemma next_view_sa: "sa_inv a \<Longrightarrow> next_from off (sa_freelist a) = first_from off (sa_view a)"
  using hyb.next_view sa_invD(2) by blast

lemma containing_Some:
  assumes "sa_inv a" "free_region_containing a off = Some (fo, fs)"
  shows "(fo, fs) \<in> set (sa_view a) \<and> off \<in> {fo ..< fo + fs}"
  using assms last_before_Some [of _ "sa_view a"] region_sum [OF assms(1)]
  by (fastforce simp: free_region_containing_def prev_view_sa split: option.splits if_splits)

lemma containing_None:
  assumes "sa_inv a" "off < U64_MAX"
  shows "free_region_containing a off = None \<longleftrightarrow> off \<notin> space (sa_view a)"
proof
  assume none: "free_region_containing a off = None"
  show "off \<notin> space (sa_view a)"
  proof
    assume "off \<in> space (sa_view a)"
    then obtain fo fs where r: "(fo, fs) \<in> set (sa_view a)" "fo \<le> off" "off < fo + fs"
      by (auto simp: space_def span_def)
    have "saturating_add64 off 1 = off + 1" using assms(2) by (simp add: saturating_add64_def)
    then show False
      using none last_before_within [OF sa_invD(3) [OF assms(1)] r] r region_sum [OF assms(1) r(1)] assms(1)
      by (simp add: free_region_containing_def prev_view_sa)
  qed
next
  assume "off \<notin> space (sa_view a)"
  then show "free_region_containing a off = None"
    using containing_Some [OF assms(1), of off] by (cases "free_region_containing a off") (force simp: space_def span_def)+
qed

lemma disjoint_iff:
  assumes "regions_ok v" "off < e"
  shows "space v \<inter> {off ..< e} = {} \<longleftrightarrow>
    off \<notin> space v \<and> (case first_from off v of Some (fo, fs) \<Rightarrow> \<not> fo < e | None \<Rightarrow> True)"
proof
  assume d: "space v \<inter> {off ..< e} = {}"
  have "e \<le> fo" if "first_from off v = Some (fo, fs)" for fo fs
  proof (rule ccontr)
    assume "\<not> e \<le> fo"
    moreover have "(fo, fs) \<in> set v" "off \<le> fo" using first_from_Some [OF that] by auto
    moreover have "0 < fs" using ok_pos [OF assms(1)] calculation(2) by blast
    ultimately have "fo \<in> space v \<inter> {off ..< e}" by (force simp: space_def span_def)
    then show False using d by blast
  qed
  then show "off \<notin> space v \<and> (case first_from off v of Some (fo, fs) \<Rightarrow> \<not> fo < e | None \<Rightarrow> True)"
    using d assms(2) by (auto split: option.splits)
next
  assume r: "off \<notin> space v \<and> (case first_from off v of Some (fo, fs) \<Rightarrow> \<not> fo < e | None \<Rightarrow> True)"
  show "space v \<inter> {off ..< e} = {}"
  proof (rule ccontr)
    assume "space v \<inter> {off ..< e} \<noteq> {}"
    then obtain x where x: "x \<in> space v" "off \<le> x" "x < e" by auto
    then obtain fo fs where f: "(fo, fs) \<in> set v" "fo \<le> x" "x < fo + fs" by (auto simp: space_def span_def)
    then have "off \<le> fo" using r x(2) by (force simp: space_def span_def)
    then obtain r' where "first_from off v = Some r'" "fst r' \<le> fo"
      using first_from_least [OF ok_sorted [OF assms(1)] f(1), of off] by auto
    then show False using r f(2) x(3) by (cases r') simp
  qed
qed

text \<open>A free is refused exactly when its range is not a range of the data region or meets free
  space.\<close>

lemma sa_free_cases:
  fixes a off sz ok
  defines "n \<equiv> align_reservation a sz"
  assumes "sa_inv a"
  obtains (invalid) "n = 0 \<or> off < sa_data_region_start a \<or> sa_device_size a < off + n"
      "sa_free a off sz ok = (Inl (InvalidFree off n), a, [])"
  | (double) fo fs where "0 < n" "sa_data_region_start a \<le> off" "off + n \<le> sa_device_size a"
      "space (sa_view a) \<inter> {off ..< off + n} \<noteq> {}" "(fo, fs) \<in> set (sa_view a)"
      "sa_free a off sz ok = (Inl (DoubleFree off n fo fs), a, [])"
  | (journal) "sa_redo_log a" "\<not> ok" "sa_free a off sz ok = (Inl RedoLogFailure, a, [])"
  | (freed) "0 < n" "sa_data_region_start a \<le> off" "off + n \<le> sa_device_size a"
      "space (sa_view a) \<inter> {off ..< off + n} = {}"
      "sa_free a off sz ok = (Inr (), release a off n,
        if sa_redo_log a then [FreeRegion off n (sa_redo_device_id a)] else [])"
proof (cases "n = 0 \<or> off < sa_data_region_start a \<or> sa_device_size a < off + n")
  case True
  then show thesis
    using invalid unfolding sa_free_def n_def [symmetric]
    by (auto simp: Let_def checked_add64_def)
next
  case False
  then have n: "0 < n" "sa_data_region_start a \<le> off" "off + n \<le> sa_device_size a" by auto
  have le: "off + n \<le> U64_MAX" using n(3) sa_invD(1) [OF assms(2)] by (simp add: sa_config_ok_def)
  note d = disjoint_iff [OF sa_invD(3) [OF assms(2)], of off "off + n"]
  note c = containing_None [OF assms(2), of off]
  show thesis
  proof (cases "free_region_containing a off")
    case (Some r)
    then obtain fo fs where r: "r = (fo, fs)" by force
    then have m: "(fo, fs) \<in> set (sa_view a)" using containing_Some [OF assms(2)] Some by blast
    moreover have "space (sa_view a) \<inter> {off ..< off + n} \<noteq> {}" using c Some d n le by auto
    ultimately show thesis
      using double [OF n] Some r le n unfolding sa_free_def n_def [symmetric]
      by (simp add: Let_def checked_add64_def)
  next
    case None
    then have out: "off \<notin> space (sa_view a)" using c le n by simp
    show thesis
    proof (cases "\<exists>fo fs. first_from off (sa_view a) = Some (fo, fs) \<and> fo < off + n")
      case True
      then obtain fo fs where f: "first_from off (sa_view a) = Some (fo, fs)" "fo < off + n" by blast
      then have "(fo, fs) \<in> set (sa_view a)" using first_from_Some by blast
      moreover have "space (sa_view a) \<inter> {off ..< off + n} \<noteq> {}" using d f n by auto
      ultimately show thesis
        using double [OF n] None f le n unfolding sa_free_def n_def [symmetric]
        by (simp add: Let_def checked_add64_def next_view_sa [OF assms(2)])
    next
      case no: False
      then have "space (sa_view a) \<inter> {off ..< off + n} = {}"
        using d out n by (auto split: option.splits)
      moreover have "sa_free a off sz ok =
          (if sa_redo_log a \<and> \<not> ok then (Inl RedoLogFailure, a, [])
           else (Inr (), release a off n, if sa_redo_log a then [FreeRegion off n (sa_redo_device_id a)] else []))"
        using None no le n unfolding sa_free_def n_def [symmetric]
        by (cases "first_from off (sa_view a)")
          (auto simp: Let_def checked_add64_def next_view_sa [OF assms(2)])
      ultimately show thesis
        using freed [OF n] journal by (cases "sa_redo_log a \<and> \<not> ok") auto
    qed
  qed
qed

section \<open>Replaying\<close>

lemma reserve_zero:
  assumes "sa_inv a" "reserve_aligned a 0 = (Inr (off, r), a')"
  shows "same_alloc a' a"
  using assms
proof (cases rule: reserve_cases)
  case (freelist sz)
  obtain fl where a': "a' = a\<lparr>sa_freelist := fl\<rparr>" using freelist(5) by blast
  note t = take_region_space [OF sa_invD(3) [OF assms(1)] freelist(1), of 0]
  show ?thesis
    using t freelist(7) sa_invD(3) [OF assms(1)] by (intro same_allocI) (simp_all add: a')
next
  case high_water
  have "0 < sa_alignment a" using sa_invD(1) [OF assms(1)] by (auto simp: sa_config_ok_def)
  then have "\<not> sa_alignment a < sa_next_offset a mod sa_alignment a" by (simp add: not_less less_imp_le)
  then have "high_water_offset a 0 = sa_next_offset a" by (simp add: high_water_offset_def Let_def)
  then show ?thesis
    using high_water(5,6) high_water(2) unfolding same_alloc_def by (cases a; cases a') simp
qed

lemma carve_allocation_within:
  assumes "sa_inv a" "(fo, fs) \<in> set (sa_view a)" "fo \<le> off" "off + n \<le> fo + fs" "0 < n"
  shows "\<exists>fl. snd (carve_allocation a off n) = a\<lparr>sa_freelist := fl\<rparr> \<and> fl_inv fl \<and>
    regions_ok (iter_offset_order fl) \<and> space (iter_offset_order fl) = space (sa_view a) - {off ..< off + n}"
proof -
  note inv = sa_invD [OF assms(1)]
  have "off < U64_MAX"
    using region_bounds(2) [OF assms(1,2)] inv(1,6) assms(4,5) by (simp add: sa_config_ok_def)
  then have "saturating_add64 off 1 = off + 1" by (simp add: saturating_add64_def)
  then have o: "overlapping next_from prev_before off n (sa_freelist a) = Some (fo, fs)"
    using last_before_within [OF inv(3) assms(2,3)] assms(3-5)
    by (simp add: overlapping_def prev_view_sa [OF assms(1)])
  note c = hyb.carve [OF inv(2,3) assms(2), of off "off + n"]
  have "{off ..< off + n} \<inter> {fo ..< fo + fs} = {off ..< off + n}" using assms(3,4) by auto
  then show ?thesis using c o assms(3-5)
    by (intro exI [of _ "maybe_demote (maybe_promote
        (carve_with fl_insert fl_remove (fo, fs) off (off + n) (sa_freelist a)))"])
      (simp add: carve_allocation_def)
qed

lemma carve_allocation_beyond:
  assumes "sa_inv a" "sa_next_offset a \<le> off"
  shows "carve_allocation (a\<lparr>sa_next_offset := e\<rparr>) off n = (False, a\<lparr>sa_next_offset := e\<rparr>)"
proof -
  have below: "fo + fs \<le> off" if "(fo, fs) \<in> set (sa_view a)" for fo fs
    using region_bounds(2) [OF assms(1) that] assms(2) by simp
  have l: "\<not> off < fo + fs" if "last_before k (sa_view a) = Some (fo, fs)" for k fo fs
    using last_before_Some [OF that] below by (auto simp: not_less)
  have f: "\<not> off < fo + fs" if "first_from k (sa_view a) = Some (fo, fs)" for k fo fs
    using first_from_Some [OF that] below by (auto simp: not_less)
  have "overlapping next_from prev_before off n (sa_freelist a) = None"
    by (cases "last_before (saturating_add64 off 1) (sa_view a)"; cases "first_from off (sa_view a)")
      (auto simp: overlapping_def Let_def prev_view_sa [OF assms(1)] next_view_sa [OF assms(1)] dest: l f)
  then show ?thesis by (simp add: carve_allocation_def)
qed

lemma replay_allocate_reserve:
  assumes "sa_inv a" "reserve_aligned a n = (Inr (off, r), a')" "align_reservation a n = n"
    and "same_alloc b a" "fl_inv (sa_freelist b)"
  shows "same_alloc (snd (replay_allocate b off n)) a' \<and> fl_inv (sa_freelist (snd (replay_allocate b off n)))"
proof (cases "n = 0")
  case True
  have "replay_allocate b off n = (False, b)"
    using align_cong [of b a n] same_allocD [OF assms(4)] assms(3) True
    by (simp add: replay_allocate_def split: option.split)
  moreover have "same_alloc b a'"
    using same_alloc_trans [OF assms(4) same_alloc_sym [OF reserve_zero [OF assms(1)]]] assms(2) True by simp
  ultimately show ?thesis using assms(5) by simp
next
  case False
  note inv = sa_invD [OF assms(1)] and sd = same_allocD [OF assms(4)]
  have bi: "sa_inv b" using same_alloc_inv assms(1,4,5) by blast
  note rs = reserve_space [OF assms(1,2)]
  have al: "align_reservation b n = n" using align_cong [of b a n] sd assms(3) by simp
  have fits: "off + n \<le> sa_device_size b" "sa_data_region_start b \<le> off" "off + n \<le> U64_MAX"
    using rs(4,5) sa_invD(6) [OF rs(1)] sd(3,4) arg_cong [OF rs(8), of sa_device_size] inv(1)
    by (auto simp: sa_config_ok_def)
  have rep: "snd (replay_allocate b off n) =
      snd (carve_allocation (if sa_next_offset b < off + n then b\<lparr>sa_next_offset := off + n\<rparr> else b) off n)"
    using fits False al by (simp add: replay_allocate_def Let_def checked_add64_def case_prod_unfold)
  show ?thesis
    using assms(1,2)
  proof (cases rule: reserve_cases)
    case (freelist sz)
    obtain fl' where a': "a' = a\<lparr>sa_freelist := fl'\<rparr>" using freelist(5) by blast
    have m: "(off, sz) \<in> set (sa_view b)" using freelist(1) sd(1) by simp
    have "\<not> sa_next_offset b < off + n" using region_bounds(2) [OF bi m] freelist(2) by simp
    then obtain fl where fl: "snd (replay_allocate b off n) = b\<lparr>sa_freelist := fl\<rparr>" "fl_inv fl"
      "regions_ok (iter_offset_order fl)" "space (iter_offset_order fl) = space (sa_view b) - {off ..< off + n}"
      using carve_allocation_within [OF bi m _ _ , of off n] freelist(2) False rep by auto
    have "same_alloc (b\<lparr>sa_freelist := fl\<rparr>) a'"
      using fl rs(2) sa_invD(3) [OF rs(1)] sd(1) assms(4)
      by (intro same_allocI) (auto simp: a' same_alloc_def)
    then show ?thesis using fl by simp
  next
    case high_water
    have le: "sa_next_offset b \<le> off" using high_water_offset_props(1) [OF assms(1)] high_water(2) sd(2) by simp
    then have "snd (replay_allocate b off n) = b\<lparr>sa_next_offset := off + n\<rparr>"
      using carve_allocation_beyond [OF bi le] False by (simp add: rep)
    moreover obtain fl where "a' = a\<lparr>sa_freelist := fl, sa_next_offset := off + n\<rparr>"
      using high_water(6) by blast
    ultimately show ?thesis
      using high_water(5) assms(4,5) unfolding same_alloc_def by (cases a; cases b) simp
  qed
qed

lemma replay_free_release:
  assumes "sa_inv a" "0 < n" "space (sa_view a) \<inter> {off ..< off + n} = {}"
    and "sa_data_region_start a \<le> off" "off + n \<le> sa_next_offset a" "align_reservation a n = n"
    and "same_alloc b a" "fl_inv (sa_freelist b)"
  shows "same_alloc (snd (replay_free b off n)) (release a off n) \<and>
    fl_inv (sa_freelist (snd (replay_free b off n)))"
proof -
  note inv = sa_invD [OF assms(1)] and sd = same_allocD [OF assms(7)]
  have bi: "sa_inv b" using same_alloc_inv assms(1,7,8) by blast
  have al: "align_reservation b n = n" using align_cong [of b a n] sd assms(6) by simp
  have e: "off + n \<le> sa_device_size b" "off + n \<le> U64_MAX"
    using assms(5) inv(1,6) sd(4) by (auto simp: sa_config_ok_def)
  have d: "space (sa_view b) \<inter> {off ..< off + n} = {}" using assms(3) sd(1) by simp
  have "\<not> off < saturating_add64 po ps" if "last_before (Suc off) (sa_view b) = Some (po, ps)" for po ps
  proof -
    have r: "(po, ps) \<in> set (sa_view b)" "po \<le> off" using last_before_Some [OF that] by auto
    then show ?thesis
      using disjoint_sides [OF sa_invD(3) [OF bi] r(1) d assms(2)] region_sum [OF bi r(1)] assms(2) by simp
  qed
  moreover have "\<not> no < off + n" if "first_from off (sa_view b) = Some (no, ns)" for no ns
    using that d assms(2) disjoint_iff [OF sa_invD(3) [OF bi], of off "off + n"] by auto
  ultimately have "snd (replay_free b off n) = release b off n"
    using assms(2,4) e al sd(3)
    by (fastforce simp: replay_free_def Let_def checked_add64_def prev_view_sa [OF bi] next_view_sa [OF bi]
        split: option.splits)
  moreover note ra = release_space [OF assms(1-5)]
  moreover have rb: "sa_inv (release b off n)"
    "space (sa_view (release b off n)) = space (sa_view b) \<union> {off ..< off + n}"
    "\<exists>fl. release b off n = b\<lparr>sa_freelist := fl\<rparr>"
    using release_space [OF bi assms(2) d] assms(4,5) sd by auto
  moreover have "same_alloc (release b off n) (release a off n)"
  proof (rule same_allocI)
    show "(release b off n)\<lparr>sa_freelist := fl_new\<rparr> = (release a off n)\<lparr>sa_freelist := fl_new\<rparr>"
      using rb(3) ra(3) assms(7) by (auto simp: same_alloc_def)
  qed (use ra rb sd in \<open>auto dest: sa_invD(3)\<close>)
  ultimately show ?thesis using sa_invD(2) by simp
qed

section \<open>Runs\<close>

lemma live_ok_cong: "same_alloc a b \<Longrightarrow> live_ok a live = live_ok b live"
  using same_allocD(1-3) [of a b] by (simp add: live_ok_def)

lemma reserve_live:
  assumes "sa_inv a" "live_ok a live" "reserve_aligned a n = (Inr (off, r), a')"
  shows "live_ok a' (insert (off, n) live)"
proof -
  note rs = reserve_space [OF assms(1,3)]
  have start: "sa_data_region_start a' = sa_data_region_start a"
    using arg_cong [OF rs(8), of sa_data_region_start] by simp
  have new: "span (off, n) \<subseteq> {sa_data_region_start a' ..< sa_next_offset a'}"
    "span (off, n) \<inter> space (sa_view a') = {}"
    using rs(2,4,5) start by (auto simp: span_def)
  have apart: "span (off, n) \<inter> span x = {}" if "x \<in> live" for x
    using assms(2) that rs(3) unfolding live_ok_def by (fastforce simp: span_def)
  have old: "span x \<subseteq> {sa_data_region_start a' ..< sa_next_offset a'} \<and> span x \<inter> space (sa_view a') = {}"
    if "x \<in> live" for x
    using assms(2) that rs(2,6) start unfolding live_ok_def by fastforce
  show ?thesis
    using new apart old assms(2) unfolding live_ok_def by (auto simp: Int_commute)
qed

lemma redone_refl [simp]: "redone_by [] a a"
  by (simp add: redone_by_def replay_all_def)

lemma redone_trans: "redone_by xs a b \<Longrightarrow> redone_by ys b c \<Longrightarrow> redone_by (xs @ ys) a c"
  by (simp add: redone_by_def replay_all_def)

lemma redone_same: "redone_by ops a b \<Longrightarrow> same_alloc b c \<Longrightarrow> redone_by ops a c"
  unfolding redone_by_def using same_alloc_trans by blast

lemma redone_reserve:
  assumes "sa_inv a" "reserve_aligned a (align_reservation a sz) = (Inr (off, r), a')"
  shows "redone_by [AllocateRegion off (align_reservation a sz) (sa_redo_device_id a)] a a'"
proof -
  have "align_reservation a (align_reservation a sz) = align_reservation a sz"
    by (rule align_reservation_idem [OF sa_invD(1) [OF assms(1)]])
  note r = replay_allocate_reserve [OF assms this]
  show ?thesis
    unfolding redone_by_def replay_all_def
  proof (intro allI impI)
    fix b assume b: "same_alloc b a \<and> fl_inv (sa_freelist b)"
    have "sa_redo_device_id b = sa_redo_device_id a" using same_allocD(7) b by blast
    then show "same_alloc (fold (\<lambda>op a. snd (replay_redo op a))
          [AllocateRegion off (align_reservation a sz) (sa_redo_device_id a)] b) a' \<and>
        fl_inv (sa_freelist (fold (\<lambda>op a. snd (replay_redo op a))
          [AllocateRegion off (align_reservation a sz) (sa_redo_device_id a)] b))"
      using r [of b] b by simp
  qed
qed

lemma undone_reserve:
  assumes "sa_inv a" "reserve_aligned a n = (Inr (off, r), a')" "undone_by rb a'' a'"
  shows "undone_by ((n, r) # rb) a'' a"
  using assms(3) rollback_restores [OF assms(1,2)] sa_invD(2)
  unfolding undone_by_def by simp

lemma reserve_all_ok:
  assumes "sa_inv a" "live_ok a live"
  shows "\<exists>p' a' rs rb ops. reserve_all a szs p = (Inr p', a') \<and>
    pb_regions p' = pb_regions p @ rs \<and> pb_rollback p' = pb_rollback p @ rb \<and>
    pb_redo_ops p' = pb_redo_ops p @ ops \<and> length rs = length szs \<and>
    sa_inv a' \<and> sa_redo_log a' = sa_redo_log a \<and> live_ok a' (live \<union> {r. Some r \<in> set rs}) \<and>
    undone_by rb a' a \<and> redone_by ops a a'"
  using assms
proof (induction szs arbitrary: a live p)
  case Nil
  then show ?case by (auto simp: undone_by_def)
next
  case (Cons sz szs)
  let ?n = "align_reservation a sz"
  obtain x a1 where res: "reserve_aligned a ?n = (x, a1)" by force
  show ?case
  proof (cases x)
    case (Inr y)
    obtain off r where y: "y = (off, r)" by force
    have ok: "reserve_aligned a ?n = (Inr (off, r), a1)" using res Inr y by simp
    note rs = reserve_space [OF Cons.prems(1) ok]
    have log: "sa_redo_log a1 = sa_redo_log a" using arg_cong [OF rs(8), of sa_redo_log] by simp
    note IH = Cons.IH [OF rs(1) reserve_live [OF Cons.prems ok],
        of "p\<lparr>pb_regions := pb_regions p @ [Some (off, ?n)], pb_rollback := pb_rollback p @ [(?n, r)],
          pb_redo_ops := pb_redo_ops p @ [AllocateRegion off ?n (sa_redo_device_id a)]\<rparr>"]
    then obtain p' a' rs' rb ops where i: "reserve_all a (sz # szs) p = (Inr p', a')"
      "pb_regions p' = pb_regions p @ Some (off, ?n) # rs'" "pb_rollback p' = pb_rollback p @ (?n, r) # rb"
      "pb_redo_ops p' = pb_redo_ops p @ AllocateRegion off ?n (sa_redo_device_id a) # ops"
      "length rs' = length szs" "sa_inv a'" "sa_redo_log a' = sa_redo_log a"
      "live_ok a' (insert (off, ?n) live \<union> {r. Some r \<in> set rs'})" "undone_by rb a' a1" "redone_by ops a1 a'"
      using ok log by (auto simp: Let_def)
    have live: "insert (off, ?n) live \<union> {r. Some r \<in> set rs'} = live \<union> {q. Some q \<in> set (Some (off, ?n) # rs')}"
      by auto
    show ?thesis
      using i undone_reserve [OF Cons.prems(1) ok i(9)]
        redone_trans [OF redone_reserve [OF Cons.prems(1) ok] i(10)]
      unfolding live
      by (intro exI [of _ p'] exI [of _ a'] exI [of _ "Some (off, ?n) # rs'"] exI [of _ "(?n, r) # rb"]
          exI [of _ "AllocateRegion off ?n (sa_redo_device_id a) # ops"]) simp
  next
    case (Inl e)
    then have f: "same_alloc a1 a" "fl_inv (sa_freelist a1)" and e: "\<exists>l. e = DeviceFull ?n l"
      using reserve_fail [OF Cons.prems(1)] res by blast+
    have a1: "sa_inv a1" "live_ok a1 live"
      using same_alloc_inv f Cons.prems live_ok_cong by blast+
    obtain p' a' rs rb ops where i: "reserve_all a (sz # szs) p = (Inr p', a')"
      "pb_regions p' = pb_regions p @ None # rs" "pb_rollback p' = pb_rollback p @ rb"
      "pb_redo_ops p' = pb_redo_ops p @ ops" "length rs = length szs" "sa_inv a'"
      "sa_redo_log a' = sa_redo_log a1" "live_ok a' (live \<union> {r. Some r \<in> set rs})" "undone_by rb a' a1"
      "redone_by ops a1 a'"
      using Cons.IH [OF a1, of "p\<lparr>pb_regions := pb_regions p @ [None]\<rparr>"] res Inl e
      by (auto simp: Let_def)
    have "undone_by rb a' a" using i(9) f(1) same_alloc_trans unfolding undone_by_def by blast
    moreover have "redone_by ops a a'"
      using i(10) f(1) same_alloc_sym same_alloc_trans unfolding redone_by_def by blast
    ultimately show ?thesis
      using i same_allocD(6) [OF f(1)]
      by (intro exI [of _ p'] exI [of _ a'] exI [of _ "None # rs"] exI [of _ rb] exI [of _ ops]) simp
  qed
qed

lemma sa_allocate_ok:
  assumes "sa_inv a" "sa_allocate a sz ok = (Inr off, a', ops)"
  shows "\<exists>r. reserve_aligned a (align_reservation a sz) = (Inr (off, r), a') \<and>
    ops = (if sa_redo_log a then [AllocateRegion off (align_reservation a sz) (sa_redo_device_id a)] else [])"
proof -
  obtain x a1 where res: "reserve_aligned a (align_reservation a sz) = (x, a1)" by force
  then obtain o1 r where x: "x = Inr (o1, r)"
    using assms(2) by (cases x) (auto simp: sa_allocate_def Let_def)
  note rs = reserve_space(8) [OF assms(1) res [unfolded x]]
  show ?thesis
    using assms(2) res x arg_cong [OF rs, of sa_redo_log] arg_cong [OF rs, of sa_redo_device_id]
    by (auto simp: sa_allocate_def Let_def split: if_splits)
qed

lemma sa_allocate_fail:
  assumes "sa_inv a" "sa_allocate a sz ok = (Inl e, a', ops)"
  shows "ops = [] \<and> same_alloc a' a \<and> sa_inv a'"
proof -
  obtain x a1 where res: "reserve_aligned a (align_reservation a sz) = (x, a1)" by force
  show ?thesis
  proof (cases x)
    case (Inl e1)
    then have "same_alloc a1 a" "fl_inv (sa_freelist a1)"
      using reserve_fail [OF assms(1)] res by blast+
    moreover have "a' = a1" "ops = []" using assms(2) res Inl by (auto simp: sa_allocate_def Let_def)
    ultimately show ?thesis using same_alloc_inv assms(1) by blast
  next
    case (Inr y)
    obtain o1 r where y: "y = (o1, r)" by force
    have r: "reserve_aligned a (align_reservation a sz) = (Inr (o1, r), a1)" using res Inr y by simp
    then have "a' = rollback_reservation (align_reservation a sz) r a1" "ops = []"
      using assms(2) by (auto simp: sa_allocate_def Let_def split: if_splits)
    then show ?thesis
      using rollback_restores [OF assms(1) r same_alloc_refl] sa_invD(2) [OF reserve_space(1) [OF assms(1) r]]
      by simp
  qed
qed

lemma allocate_batch_ok:
  assumes "sa_inv a" "live_ok a live" "allocate_batch a szs ok = (x, a', ops)"
  shows "case x of
      Inr rs \<Rightarrow> sa_inv a' \<and> live_ok a' (live \<union> {r. Some r \<in> set rs}) \<and> length rs = length szs \<and>
        sa_redo_log a' = sa_redo_log a \<and> (sa_redo_log a \<longrightarrow> redone_by ops a a')
    | Inl e \<Rightarrow> e = RedoLogFailure \<and> ops = [] \<and> same_alloc a' a \<and> sa_inv a'"
proof -
  obtain p a1 rs rb ops1 where r: "reserve_all a szs \<lparr>pb_regions = [], pb_rollback = [], pb_redo_ops = []\<rparr> = (Inr p, a1)"
    "pb_regions p = rs" "pb_rollback p = rb" "pb_redo_ops p = ops1" "length rs = length szs" "sa_inv a1"
    "sa_redo_log a1 = sa_redo_log a" "live_ok a1 (live \<union> {r. Some r \<in> set rs})" "undone_by rb a1 a"
    "redone_by ops1 a a1"
    using reserve_all_ok [OF assms(1,2), of szs "\<lparr>pb_regions = [], pb_rollback = [], pb_redo_ops = []\<rparr>"] by auto
  have "same_alloc (rollback_pending p a1) a \<and> fl_inv (sa_freelist (rollback_pending p a1))"
    using r(9) r(3) sa_invD(2) [OF r(6)] unfolding undone_by_def rollback_pending_def by simp
  then have undo: "same_alloc (rollback_pending p a1) a" "sa_inv (rollback_pending p a1)"
    using same_alloc_inv assms(1) by blast+
  show ?thesis
  proof (cases "sa_redo_log a \<and> ops1 \<noteq> [] \<and> \<not> ok")
    case True
    then have "x = Inl RedoLogFailure" "a' = rollback_pending p a1" "ops = []"
      using assms(3) r(1,4,7) by (auto simp: allocate_batch_def reserve_batch_def)
    then show ?thesis using undo by simp
  next
    case False
    then have "x = Inr rs" "a' = a1" "ops = (if sa_redo_log a then ops1 else [])"
      using assms(3) r(1,2,4,7) by (auto simp: allocate_batch_def reserve_batch_def split: if_splits)
    then show ?thesis using r by simp
  qed
qed

lemma sa_config_same: "same_alloc a b \<Longrightarrow> sa_config a = sa_config b"
  using same_allocD [of a b] by (simp add: sa_config_def)

lemma sa_config_reserve: "sa_inv a \<Longrightarrow> reserve_aligned a n = (Inr (off, r), a') \<Longrightarrow> sa_config a' = sa_config a"
  using arg_cong [OF reserve_space(8) [of a n off r a'], of sa_config] by (simp add: sa_config_def)

lemma sa_config_reserve_all:
  "sa_inv a \<Longrightarrow> reserve_all a szs p = (Inr p', a') \<Longrightarrow> sa_config a' = sa_config a"
proof (induction szs arbitrary: a p)
  case (Cons sz szs)
  obtain x a1 where res: "reserve_aligned a (align_reservation a sz) = (x, a1)" by force
  show ?case
  proof (cases x)
    case (Inr y)
    obtain off r where y: "y = (off, r)" by force
    have ok: "reserve_aligned a (align_reservation a sz) = (Inr (off, r), a1)" using res Inr y by simp
    have "sa_config a' = sa_config a1"
      using Cons.IH [OF reserve_space(1) [OF Cons.prems(1) ok]] Cons.prems(2) ok by (auto simp: Let_def)
    then show ?thesis using sa_config_reserve [OF Cons.prems(1) ok] by simp
  next
    case (Inl e)
    then have "same_alloc a1 a" "sa_inv a1" "\<exists>l. e = DeviceFull (align_reservation a sz) l"
      using reserve_fail [OF Cons.prems(1)] res same_alloc_inv Cons.prems(1) by blast+
    then show ?thesis using Cons Inl res sa_config_same [of a1 a] by (auto simp: Let_def)
  qed
qed simp

lemma alloc_run_ok:
  assumes "alloc_run a0 live0 a live j" "sa_inv a0" "live_ok a0 live0"
  shows "sa_inv a \<and> live_ok a live \<and> sa_redo_log a = sa_redo_log a0 \<and> (sa_redo_log a0 \<longrightarrow> redone_by j a0 a)"
  using assms
proof (induction rule: alloc_run.induct)
  case run_start
  then show ?case by simp
next
  case (run_allocate a live j sz ok off a' ops)
  then have IH: "sa_inv a" "live_ok a live" "sa_redo_log a = sa_redo_log a0"
    "sa_redo_log a0 \<Longrightarrow> redone_by j a0 a" by blast+
  obtain r where r: "reserve_aligned a (align_reservation a sz) = (Inr (off, r), a')"
    "ops = (if sa_redo_log a then [AllocateRegion off (align_reservation a sz) (sa_redo_device_id a)] else [])"
    using sa_allocate_ok [OF IH(1) run_allocate.hyps(2)] by blast
  note rs = reserve_space [OF IH(1) r(1)]
  have "redone_by (j @ ops) a0 a'" if "sa_redo_log a0"
    using redone_trans [OF IH(4) [OF that] redone_reserve [OF IH(1) r(1)]] r(2) IH(3) that by simp
  then show ?case
    using rs(1) reserve_live [OF IH(1,2) r(1)] IH(3) arg_cong [OF rs(8), of sa_redo_log] by simp
next
  case (run_allocate_fail a live j sz ok e a' ops)
  then have IH: "sa_inv a" "live_ok a live" "sa_redo_log a = sa_redo_log a0"
    "sa_redo_log a0 \<Longrightarrow> redone_by j a0 a" by blast+
  have f: "ops = []" "same_alloc a' a" "sa_inv a'"
    using sa_allocate_fail [OF IH(1) run_allocate_fail.hyps(2)] by blast+
  then show ?case
    using IH live_ok_cong [OF f(2)] same_allocD(6) [OF f(2)] redone_same [OF IH(4) same_alloc_sym [OF f(2)]] by simp
next
  case (run_batch a live j szs ok rs a' ops)
  then have IH: "sa_inv a" "live_ok a live" "sa_redo_log a = sa_redo_log a0"
    "sa_redo_log a0 \<Longrightarrow> redone_by j a0 a" by blast+
  then show ?case
    using allocate_batch_ok [OF IH(1,2) run_batch.hyps(2)] redone_trans by auto
next
  case (run_batch_fail a live j szs ok e a' ops)
  then have IH: "sa_inv a" "live_ok a live" "sa_redo_log a = sa_redo_log a0"
    "sa_redo_log a0 \<Longrightarrow> redone_by j a0 a" by blast+
  have f: "ops = []" "same_alloc a' a" "sa_inv a'"
    using allocate_batch_ok [OF IH(1,2) run_batch_fail.hyps(2)] by simp_all
  then show ?case
    using IH live_ok_cong [OF f(2)] same_allocD(6) [OF f(2)] redone_same [OF IH(4) same_alloc_sym [OF f(2)]] by simp
next
  case (run_free a live j off sz ok a' ops)
  then have IH: "sa_inv a" "live_ok a live" "sa_redo_log a = sa_redo_log a0"
    "sa_redo_log a0 \<Longrightarrow> redone_by j a0 a" by blast+
  let ?n = "align_reservation a sz"
  from IH(1) show ?case
  proof (cases rule: sa_free_cases [where off = off and sz = sz and ok = ok])
    case freed
    have sp: "span (off, ?n) \<subseteq> {sa_data_region_start a ..< sa_next_offset a}"
      using IH(2) run_free.hyps(2) unfolding live_ok_def by blast
    have "off + ?n - 1 \<in> span (off, ?n)" using freed(1) by (simp add: span_def)
    then have "off + ?n - 1 \<in> {sa_data_region_start a ..< sa_next_offset a}" using sp by blast
    then have top: "off + ?n \<le> sa_next_offset a" using freed(1) by auto
    note rel = release_space [OF IH(1) freed(1,4,2) top]
    have a': "a' = release a off ?n" "ops = (if sa_redo_log a then [FreeRegion off ?n (sa_redo_device_id a)] else [])"
      using run_free.hyps(3) freed(5) by auto
    have idem: "align_reservation a ?n = ?n" by (rule align_reservation_idem [OF sa_invD(1) [OF IH(1)]])
    have "redone_by [FreeRegion off ?n (sa_redo_device_id a)] a a'"
      unfolding redone_by_def replay_all_def
    proof (intro allI impI)
      fix b assume b: "same_alloc b a \<and> fl_inv (sa_freelist b)"
      have "sa_redo_device_id b = sa_redo_device_id a" using same_allocD(7) b by blast
      then show "same_alloc (fold (\<lambda>op a. snd (replay_redo op a)) [FreeRegion off ?n (sa_redo_device_id a)] b) a' \<and>
          fl_inv (sa_freelist (fold (\<lambda>op a. snd (replay_redo op a)) [FreeRegion off ?n (sa_redo_device_id a)] b))"
        using replay_free_release [OF IH(1) freed(1,4,2) top idem, of b] b a' by simp
    qed
    then have "redone_by (j @ ops) a0 a'" if "sa_redo_log a0"
      using redone_trans [OF IH(4) [OF that]] a' IH(3) that by simp
    moreover have "live_ok a' (live - {(off, ?n)})"
    proof -
      have eq: "sa_data_region_start a' = sa_data_region_start a" "sa_next_offset a' = sa_next_offset a"
        using rel(3) a'(1) by auto
      have "span r \<inter> span (off, ?n) = {}" if "r \<in> live - {(off, ?n)}" for r
        using IH(2) run_free.hyps(2) that unfolding live_ok_def by blast
      moreover have "span (off, ?n) = {off ..< off + ?n}" by (simp add: span_def)
      ultimately have "span r \<inter> space (sa_view a') = {}" if "r \<in> live - {(off, ?n)}" for r
        using IH(2) that rel(2) unfolding live_ok_def a'(1) by blast
      then show ?thesis using IH(2) unfolding live_ok_def eq by blast
    qed
    ultimately show ?thesis using rel(1,3) a'(1) IH(3) by auto
  qed (use run_free.hyps(3) in simp_all)
next
  case (run_free_fail a live j off sz ok e a' ops)
  then have IH: "sa_inv a" "live_ok a live" "sa_redo_log a = sa_redo_log a0"
    "sa_redo_log a0 \<Longrightarrow> redone_by j a0 a" by blast+
  from IH(1) have "a' = a \<and> ops = []"
    by (cases rule: sa_free_cases [where off = off and sz = sz and ok = ok]) (use run_free_fail.hyps(2) in auto)
  then show ?case using IH by simp
qed

lemma alloc_run_config:
  assumes "alloc_run a0 live0 a live j" "sa_inv a0" "live_ok a0 live0"
  shows "sa_config a = sa_config a0"
  using assms
proof (induction rule: alloc_run.induct)
  case (run_allocate a live j sz ok off a' ops)
  then have "sa_inv a" using alloc_run_ok by blast
  then show ?case using run_allocate sa_allocate_ok sa_config_reserve by metis
next
  case (run_allocate_fail a live j sz ok e a' ops)
  then have "sa_inv a" using alloc_run_ok by blast
  then show ?case using run_allocate_fail sa_allocate_fail sa_config_same by metis
next
  case (run_batch a live j szs ok rs a' ops)
  then have a: "sa_inv a" using alloc_run_ok by blast
  obtain p where "reserve_all a szs \<lparr>pb_regions = [], pb_rollback = [], pb_redo_ops = []\<rparr> = (Inr p, a')"
    using run_batch.hyps(2)
    by (auto simp: allocate_batch_def reserve_batch_def split: prod.splits sum.splits if_splits)
  then show ?case using sa_config_reserve_all [OF a] run_batch by simp
next
  case (run_batch_fail a live j szs ok e a' ops)
  then have "sa_inv a" "live_ok a live" using alloc_run_ok by blast+
  then have "same_alloc a' a" using allocate_batch_ok run_batch_fail.hyps(2) by fastforce
  then show ?case using sa_config_same run_batch_fail by simp
next
  case (run_free a live j off sz ok a' ops)
  then have a: "sa_inv a" using alloc_run_ok by blast
  then have "\<exists>fl. a' = a\<lparr>sa_freelist := fl\<rparr>"
    by (cases rule: sa_free_cases [where off = off and sz = sz and ok = ok])
      (use run_free.hyps(3) in \<open>auto simp: release_def split: prod.splits\<close>)
  then show ?case using run_free by (auto simp: sa_config_def)
next
  case (run_free_fail a live j off sz ok e a' ops)
  then have a: "sa_inv a" using alloc_run_ok by blast
  then have "a' = a"
    by (cases rule: sa_free_cases [where off = off and sz = sz and ok = ok]) (use run_free_fail.hyps(2) in auto)
  then show ?case using run_free_fail by simp
qed simp

section \<open>Properties\<close>

lemma sa_new_inv:
  assumes "9 \<le> k" "k < 64" "DATA_REGION_OFFSET \<le> dev" "dev \<le> U64_MAX" "pk \<longrightarrow> dev + 2 ^ k \<le> 2 ^ 64"
  shows "sa_inv ((sa_new dev (2 ^ k) ident)\<lparr>sa_redo_log := log, sa_packed := pk, sa_append_only := ao\<rparr>)"
    "live_ok ((sa_new dev (2 ^ k) ident)\<lparr>sa_redo_log := log, sa_packed := pk, sa_append_only := ao\<rparr>) {}"
  using assms
  by (auto simp: sa_inv_def sa_config_ok_def sa_new_def live_ok_def regions_ok_def DATA_REGION_OFFSET_def)

text \<open>C23: no double allocation.  After any run of single and batch allocations, failed journal writes
  with their rollbacks, refused frees and frees of regions that were handed out, on a fresh allocator
  (in packed mode on a device that ends at least one block below \<open>2 ^ 64\<close>), the live regions are
  pairwise disjoint and inside the data region of the device.  The next allocation of a size that does
  not wrap when it is rounded up returns at least the requested number of bytes, inside the data
  region and disjoint from every live region; in packed mode it does not straddle a device block.\<close>

theorem allocation_disjoint:
  assumes "9 \<le> k" "k < 64" "DATA_REGION_OFFSET \<le> dev" "dev \<le> U64_MAX" "pk \<longrightarrow> dev + 2 ^ k \<le> 2 ^ 64"
    and "alloc_run ((sa_new dev (2 ^ k) ident)\<lparr>sa_redo_log := log, sa_packed := pk, sa_append_only := ao\<rparr>) {} a live j"
  shows "(\<forall>r \<in> live. span r \<subseteq> {DATA_REGION_OFFSET ..< dev}) \<and>
    (\<forall>r \<in> live. \<forall>r' \<in> live. r \<noteq> r' \<longrightarrow> span r \<inter> span r' = {}) \<and>
    (\<forall>sz ok off a' ops. sa_allocate a sz ok = (Inr off, a', ops) \<and> sz + 2 ^ k \<le> 2 ^ 64 \<longrightarrow>
      sz \<le> align_reservation a sz \<and> DATA_REGION_OFFSET \<le> off \<and> off + align_reservation a sz \<le> dev \<and>
      (\<forall>r \<in> live. span r \<inter> span (off, align_reservation a sz) = {}) \<and>
      (pk \<longrightarrow> qualifies (Some (2 ^ k)) (align_reservation a sz) off))"
proof -
  let ?a0 = "(sa_new dev (2 ^ k) ident)\<lparr>sa_redo_log := log, sa_packed := pk, sa_append_only := ao\<rparr>"
  have run: "sa_inv a" "live_ok a live"
    using alloc_run_ok [OF assms(6) sa_new_inv [OF assms(1-5)]] by blast+
  have cfg: "sa_alignment a = 2 ^ k \<and> sa_packed a = pk \<and> sa_device_size a = dev \<and>
      sa_data_region_start a = DATA_REGION_OFFSET"
    using alloc_run_config [OF assms(6) sa_new_inv [OF assms(1-5)]] by (simp add: sa_config_def sa_new_def)
  have "span r \<subseteq> {DATA_REGION_OFFSET ..< dev}" if "r \<in> live" for r
  proof -
    have "span r \<subseteq> {sa_data_region_start a ..< sa_next_offset a}" using run(2) that unfolding live_ok_def by blast
    then show ?thesis using sa_invD(6) [OF run(1)] cfg by fastforce
  qed
  moreover have "\<forall>r \<in> live. \<forall>r' \<in> live. r \<noteq> r' \<longrightarrow> span r \<inter> span r' = {}" using run(2) unfolding live_ok_def by blast
  moreover have "sz \<le> align_reservation a sz \<and> DATA_REGION_OFFSET \<le> off \<and> off + align_reservation a sz \<le> dev \<and>
      (\<forall>r \<in> live. span r \<inter> span (off, align_reservation a sz) = {}) \<and>
      (pk \<longrightarrow> qualifies (Some (2 ^ k)) (align_reservation a sz) off)"
    if al: "sa_allocate a sz ok = (Inr off, a', ops)" and sz: "sz + 2 ^ k \<le> 2 ^ 64" for sz ok off a' ops
  proof -
    obtain r where r: "reserve_aligned a (align_reservation a sz) = (Inr (off, r), a')"
      using sa_allocate_ok [OF run(1) al] by blast
    note rs = reserve_space [OF run(1) r]
    have "span q \<inter> span (off, align_reservation a sz) = {}" if "q \<in> live" for q
      using run(2) that rs(3) unfolding live_ok_def by (fastforce simp: span_def)
    moreover have "sz \<le> align_reservation a sz"
      using align_reservation_ge [OF sa_invD(1) [OF run(1)]] cfg sz by simp
    moreover have "off + align_reservation a sz \<le> dev"
      using rs(5) sa_invD(6) [OF rs(1)] arg_cong [OF rs(8), of sa_device_size] cfg by simp
    ultimately show ?thesis using rs(4,7) cfg by auto
  qed
  ultimately show ?thesis by blast
qed

theorem allocation_disjoint_witness:
  "\<exists>a a' ops. sa_allocate (sa_new (2 ^ 30) (2 ^ 12) []) 300 True = (Inr DATA_REGION_OFFSET, a, []) \<and>
    sa_allocate a 500 True = (Inr (DATA_REGION_OFFSET + 4096), a', ops) \<and>
    span (DATA_REGION_OFFSET, 4096) \<subseteq> {DATA_REGION_OFFSET ..< 2 ^ 30} \<and>
    span (DATA_REGION_OFFSET, 4096) \<inter> span (DATA_REGION_OFFSET + 4096, align_reservation a 500) = {}"
proof -
  let ?a = "(sa_new (2 ^ 30) (2 ^ 12) [])\<lparr>sa_redo_log := False, sa_packed := False, sa_append_only := False\<rparr>"
  have a: "?a = sa_new (2 ^ 30) (2 ^ 12) []" by (simp add: sa_new_def)
  let ?b = "?a\<lparr>sa_next_offset := DATA_REGION_OFFSET + 4096\<rparr>"
  note ev = sa_allocate_def reserve_aligned_def align_reservation_def align_up_def sa_new_def fl_new_def
    small_best_fit_def high_water_offset_def checked_add64_def U64_MAX_def DATA_REGION_OFFSET_def
    div_ceil_def wrapping_mul64_def
  have al: "sa_allocate ?a 300 True = (Inr DATA_REGION_OFFSET, ?b, [])" by (simp add: ev)
  have sz: "align_reservation ?a 300 = 4096" by (simp add: ev)
  obtain a' where al2: "sa_allocate ?b 500 True = (Inr (DATA_REGION_OFFSET + 4096), a', [])" by (simp add: ev)
  have run: "alloc_run ?a {} ?b {(DATA_REGION_OFFSET, 4096)} []"
    using run_allocate [OF run_start [of ?a "{}"] al] by (simp only: sz append_Nil)
  have bounds: "(9 :: nat) \<le> 12" "(12 :: nat) < 64" "DATA_REGION_OFFSET \<le> 2 ^ 30" "2 ^ 30 \<le> U64_MAX"
    "False \<longrightarrow> (2 ^ 30 + 2 ^ 12 :: nat) \<le> 2 ^ 64" "500 + 2 ^ 12 \<le> (2 ^ 64 :: nat)"
    by (simp_all add: DATA_REGION_OFFSET_def U64_MAX_def)
  note ok = allocation_disjoint [OF bounds(1-5) run]
  have "span (DATA_REGION_OFFSET, 4096) \<subseteq> {DATA_REGION_OFFSET ..< 2 ^ 30}" using ok by blast
  moreover have "span (DATA_REGION_OFFSET, 4096) \<inter> span (DATA_REGION_OFFSET + 4096, align_reservation ?b 500) = {}"
    using ok al2 bounds(6) by blast
  ultimately have "span (DATA_REGION_OFFSET, 4096) \<subseteq> {DATA_REGION_OFFSET ..< 2 ^ 30} \<and>
      span (DATA_REGION_OFFSET, 4096) \<inter> span (DATA_REGION_OFFSET + 4096, align_reservation ?b 500) = {}" ..
  then show ?thesis using al al2 unfolding a by blast
qed

text \<open>C24: recovery from the redo log.  Replaying, on the state a run started from, the entries that
  became durable during the run gives the free regions and the high-water mark the run ended with.
  Operations whose journal write failed left no trace in either.\<close>

theorem allocator_recovery:
  assumes "sa_inv a0" "live_ok a0 live0" "sa_redo_log a0" "alloc_run a0 live0 a live j"
  shows "iter_offset_order (sa_freelist (replay_all j a0)) = iter_offset_order (sa_freelist a) \<and>
    sa_next_offset (replay_all j a0) = sa_next_offset a"
proof -
  have "same_alloc (replay_all j a0) a"
    using alloc_run_ok [OF assms(4,1,2)] assms(3) sa_invD(2) [OF assms(1)] same_alloc_refl
    unfolding redone_by_def by blast
  then show ?thesis by (simp add: same_allocD(1,2))
qed

theorem allocator_recovery_witness:
  "\<exists>a j. j \<noteq> [] \<and> alloc_run ((sa_new (2 ^ 30) (2 ^ 12) [])\<lparr>sa_redo_log := True\<rparr>) {} a
      {(DATA_REGION_OFFSET, 4096)} j \<and>
    sa_next_offset (replay_all j ((sa_new (2 ^ 30) (2 ^ 12) [])\<lparr>sa_redo_log := True\<rparr>)) = sa_next_offset a"
proof -
  let ?a = "(sa_new (2 ^ 30) (2 ^ 12) [])\<lparr>sa_redo_log := True, sa_packed := False, sa_append_only := False\<rparr>"
  have a: "?a = (sa_new (2 ^ 30) (2 ^ 12) [])\<lparr>sa_redo_log := True\<rparr>" by (simp add: sa_new_def)
  have n: "align_reservation ?a 300 = 4096"
    by (simp add: align_reservation_def align_up_def sa_new_def div_ceil_def wrapping_mul64_def)
  obtain a' where al: "sa_allocate ?a 300 True = (Inr DATA_REGION_OFFSET, a', [AllocateRegion DATA_REGION_OFFSET 4096 0])"
    by (simp add: sa_allocate_def reserve_aligned_def align_reservation_def align_up_def sa_new_def fl_new_def
        small_best_fit_def high_water_offset_def checked_add64_def U64_MAX_def DATA_REGION_OFFSET_def
        div_ceil_def wrapping_mul64_def)
  have i: "sa_inv ?a" "live_ok ?a {}"
    using sa_new_inv [where k = 12 and dev = "2 ^ 30" and ident = "[]" and log = True and pk = False and ao = False] by (simp_all add: DATA_REGION_OFFSET_def U64_MAX_def)
  have r: "alloc_run ?a {} a' {(DATA_REGION_OFFSET, 4096)} [AllocateRegion DATA_REGION_OFFSET 4096 0]"
    using run_allocate [OF run_start al] n by simp
  have "sa_redo_log ?a" by simp
  note w = allocator_recovery [OF i this r, THEN conjunct2]
  show ?thesis using r w unfolding a by blast
qed

text \<open>C25: what a free does.  It succeeds exactly on a non-empty range of the data region that meets no
  free space; then, for a range below the high-water mark, exactly those bytes join the free space
  and the regions stay disjoint and coalesced.  A range that meets free space is rejected as a double
  free, any other range as invalid, a failed journal write as such, each without a change.\<close>

theorem free_contract:
  assumes "sa_inv a"
  shows "let n = align_reservation a sz; valid = (0 < n \<and> sa_data_region_start a \<le> off \<and> off + n \<le> sa_device_size a);
             free_bytes = space (iter_offset_order (sa_freelist a)) \<inter> {off ..< off + n}
         in case sa_free a off sz ok of
              (Inr u, a', ops) \<Rightarrow> valid \<and> free_bytes = {} \<and>
                (off + n \<le> sa_next_offset a \<longrightarrow> regions_ok (iter_offset_order (sa_freelist a')) \<and>
                  space (iter_offset_order (sa_freelist a')) =
                    space (iter_offset_order (sa_freelist a)) \<union> {off ..< off + n})
            | (Inl e, a', ops) \<Rightarrow> a' = a \<and> ops = [] \<and>
                (case e of
                   InvalidFree x y \<Rightarrow> x = off \<and> y = n \<and> \<not> valid
                 | DoubleFree x y fo fs \<Rightarrow> x = off \<and> y = n \<and> valid \<and> free_bytes \<noteq> {} \<and>
                     (fo, fs) \<in> set (iter_offset_order (sa_freelist a))
                 | RedoLogFailure \<Rightarrow> sa_redo_log a \<and> \<not> ok
                 | _ \<Rightarrow> False)"
  using assms
proof (cases rule: sa_free_cases [where off = off and sz = sz and ok = ok])
  case freed
  then show ?thesis
    using release_space [OF assms freed(1,4,2)] by (auto simp: Let_def dest: sa_invD(3))
qed (auto simp: Let_def)

theorem free_contract_witness:
  "case sa_free (sa_new (2 ^ 30) (2 ^ 12) []) 7 300 True of
     (Inr u, a', ops) \<Rightarrow> False
   | (Inl e, a', ops) \<Rightarrow> a' = sa_new (2 ^ 30) (2 ^ 12) [] \<and> ops = []"
proof -
  have "(sa_new (2 ^ 30) (2 ^ 12) [])\<lparr>sa_redo_log := False, sa_packed := False, sa_append_only := False\<rparr> =
      sa_new (2 ^ 30) (2 ^ 12) []" by (simp add: sa_new_def)
  then have "sa_inv (sa_new (2 ^ 30) (2 ^ 12) [])"
    using sa_new_inv(1) [where k = 12 and dev = "2 ^ 30" and ident = "[]" and log = False and pk = False and ao = False] by (simp add: DATA_REGION_OFFSET_def U64_MAX_def)
  from free_contract [OF this, of 300 7 True] show ?thesis
    by (auto simp: Let_def sa_new_def DATA_REGION_OFFSET_def split: prod.splits sum.splits)
qed

text \<open>C26: a batch is all or nothing.  Rolling back a reserved batch, or failing to journal one,
  restores the free regions and the high-water mark from before the batch, whatever mixture of
  reused regions and fresh space it had taken.\<close>

theorem batch_rollback:
  assumes "sa_inv a" "live_ok a live" "reserve_batch a szs = (x, a')"
  shows "\<exists>p. x = Inr p \<and> length (pb_regions p) = length szs \<and>
    iter_offset_order (sa_freelist (rollback_pending p a')) = iter_offset_order (sa_freelist a) \<and>
    sa_next_offset (rollback_pending p a') = sa_next_offset a"
proof -
  obtain p rs rb ops where r: "x = Inr p" "pb_regions p = rs" "pb_rollback p = rb" "length rs = length szs"
    "sa_inv a'" "undone_by rb a' a"
    using reserve_all_ok [OF assms(1,2), of szs "\<lparr>pb_regions = [], pb_rollback = [], pb_redo_ops = []\<rparr>"] assms(3)
    by (auto simp: reserve_batch_def)
  then have "same_alloc (rollback_pending p a') a"
    using sa_invD(2) [OF r(5)] unfolding undone_by_def rollback_pending_def by simp
  then show ?thesis using r same_allocD(1,2) by blast
qed

theorem batch_rollback_witness:
  "\<exists>p a'. reserve_batch (sa_new (2 ^ 30) (2 ^ 12) []) [300, 5000] = (Inr p, a') \<and>
    sa_next_offset (rollback_pending p a') = sa_next_offset (sa_new (2 ^ 30) (2 ^ 12) [])"
proof -
  have "(sa_new (2 ^ 30) (2 ^ 12) [])\<lparr>sa_redo_log := False, sa_packed := False, sa_append_only := False\<rparr> =
      sa_new (2 ^ 30) (2 ^ 12) []" by (simp add: sa_new_def)
  then have i: "sa_inv (sa_new (2 ^ 30) (2 ^ 12) [])" "live_ok (sa_new (2 ^ 30) (2 ^ 12) []) {}"
    using sa_new_inv [where k = 12 and dev = "2 ^ 30" and ident = "[]" and log = False and pk = False and ao = False] by (simp_all add: DATA_REGION_OFFSET_def U64_MAX_def)
  obtain x a' where "reserve_batch (sa_new (2 ^ 30) (2 ^ 12) []) [300, 5000] = (x, a')" by force
  with batch_rollback [OF i this] show ?thesis by blast
qed

end
