(* ===== verification/Allocator_Header.thy ===== *)
theory Allocator_Header
  imports Slot_Allocator
begin

text \<open>
  The device header the slot allocator persists its state in and recovers it from:
  \<open>persist_header_no_sync\<close> and \<open>recover\<close> of \<open>src/src/allocator.rs\<close>.  The device is its list of bytes;
  the checksum is a parameter.
\<close>

definition ALLOCATOR_MAGIC :: u64 where "ALLOCATOR_MAGIC = 0x54455241414C4C43"
definition HEADER_VERSION :: u32 where "HEADER_VERSION = 1"
definition HEADER_VERSION_PACKED :: u32 where "HEADER_VERSION_PACKED = 2"
definition HEADER_CRC_OFFSET :: nat where "HEADER_CRC_OFFSET = 44"
definition FREELIST_OFFSET :: nat where "FREELIST_OFFSET = 48"

definition MAX_PERSISTED_FREE_REGIONS :: nat where
  "MAX_PERSISTED_FREE_REGIONS = (DATA_REGION_OFFSET - FREELIST_OFFSET) div 16"

definition region_bytes :: "region \<Rightarrow> bytes" where
  "region_bytes r = u64_le (of_nat (fst r)) @ u64_le (of_nat (snd r))"

definition header_image :: "slot_allocator \<Rightarrow> bytes" where
  "header_image a =
    u64_le ALLOCATOR_MAGIC @ u64_le (of_nat (sa_next_offset a)) @
    u64_le (of_nat (fl_len (sa_freelist a))) @ sa_device_id a @
    u32_le (if sa_packed a then HEADER_VERSION_PACKED else HEADER_VERSION) @ u32_le 0 @
    concat (map region_bytes (iter_offset_order (sa_freelist a)))"

definition persist_header :: "(bytes \<Rightarrow> u32) \<Rightarrow> slot_allocator \<Rightarrow> allocator_error + bytes" where
  "persist_header crc a =
    (let entries = fl_len (sa_freelist a) in
     if MAX_PERSISTED_FREE_REGIONS < entries then Inl (FreelistOverflow entries MAX_PERSISTED_FREE_REGIONS)
     else
       let covered = header_image a;
           aligned_len = align_up a (FREELIST_OFFSET + entries * 16)
       in Inr (overwrite HEADER_CRC_OFFSET (u32_le (crc covered)) covered @
               replicate (aligned_len - length covered) 0))"

definition read_region :: "bytes \<Rightarrow> nat \<Rightarrow> region" where
  "read_region buf i =
    (let base = FREELIST_OFFSET + i * 16
     in (unat (le_val (slice base 8 buf) :: u64), unat (le_val (slice (base + 8) 8 buf) :: u64)))"

text \<open>\<open>pread_exact_at\<close> fails with a device error when the device is shorter than the buffer.\<close>

definition sa_recover ::
  "(bytes \<Rightarrow> u32) \<Rightarrow> nat \<Rightarrow> nat \<Rightarrow> bytes \<Rightarrow> allocator_error + slot_allocator" where
  "sa_recover crc device_size alignment dev =
    (let header_size = max alignment FREELIST_OFFSET; header_buf = take header_size dev in
     if length dev < header_size then Inl AllocDevice
     else if (le_val (slice 0 8 header_buf) :: u64) \<noteq> ALLOCATOR_MAGIC then
       Inl (if list_all (\<lambda>b. b = 0) header_buf then NoPersistedState else CorruptedHeader)
     else
       let next_offset = unat (le_val (slice 8 8 header_buf) :: u64);
           count = unat (le_val (slice 16 8 header_buf) :: u64);
           device_id = slice 24 16 header_buf;
           version = (le_val (slice 40 4 header_buf) :: u32)
       in if version \<noteq> HEADER_VERSION \<and> version \<noteq> HEADER_VERSION_PACKED then Inl (UnsupportedVersion version)
          else if MAX_PERSISTED_FREE_REGIONS < count then Inl CorruptedHeader
          else
            let total_size = count * 16 + FREELIST_OFFSET;
                aligned_total = div_ceil total_size alignment * alignment
            in if length dev < aligned_total then Inl AllocDevice
               else
                 let buf = take aligned_total dev;
                     stored = (le_val (slice HEADER_CRC_OFFSET 4 buf) :: u32);
                     computed = crc (overwrite HEADER_CRC_OFFSET [0, 0, 0, 0] (take total_size buf))
                 in if computed \<noteq> stored then Inl (HeaderCorruption stored computed)
                    else Inr \<lparr>sa_freelist =
                           maybe_promote (fold (\<lambda>i fl. let (o', s) = read_region buf i in fl_insert o' s fl)
                             [0 ..< count] fl_new),
                         sa_next_offset = next_offset, sa_data_region_start = DATA_REGION_OFFSET,
                         sa_device_size = device_size, sa_alignment = alignment, sa_device_id = device_id,
                         sa_redo_log = False, sa_redo_device_id = 0,
                         sa_packed = (version = HEADER_VERSION_PACKED), sa_append_only = False\<rparr>)"

section \<open>Decoding what was encoded\<close>

lemma length_region_bytes [simp]: "length (region_bytes r) = 16"
  by (simp add: region_bytes_def)

lemma length_regions [simp]: "length (concat (map region_bytes rs)) = 16 * length rs"
  by (induction rs) simp_all

lemma drop_regions: "drop (16 * i) (concat (map region_bytes rs)) = concat (map region_bytes (drop i rs))"
proof (induction i arbitrary: rs)
  case (Suc i)
  show ?case
  proof (cases rs)
    case (Cons r rs')
    have "drop (16 * Suc i) (concat (map region_bytes rs)) = drop (16 * i) (concat (map region_bytes rs'))"
      using Cons by simp
    then show ?thesis using Suc.IH Cons by simp
  qed simp
qed simp

lemma slice_regions:
  assumes "i < length rs"
  shows "slice (i * 16) 8 (concat (map region_bytes rs) @ pad) = u64_le (of_nat (fst (rs ! i)))"
    and "slice (i * 16 + 8) 8 (concat (map region_bytes rs) @ pad) = u64_le (of_nat (snd (rs ! i)))"
proof -
  have d: "drop (i * 16) (concat (map region_bytes rs)) = region_bytes (rs ! i) @ concat (map region_bytes (drop (Suc i) rs))"
    using drop_regions [of i rs] assms by (simp add: Cons_nth_drop_Suc [symmetric] mult.commute)
  have le: "i * 16 + 16 \<le> length (concat (map region_bytes rs))" using assms by simp
  show "slice (i * 16) 8 (concat (map region_bytes rs) @ pad) = u64_le (of_nat (fst (rs ! i)))"
    using le d by (simp add: slice_def region_bytes_def)
  have "drop (i * 16 + 8) (concat (map region_bytes rs)) =
      u64_le (of_nat (snd (rs ! i))) @ concat (map region_bytes (drop (Suc i) rs))"
    using d by (metis (no_types, lifting) add.commute append_assoc append_eq_conv_conj drop_drop
        length_le_bytes region_bytes_def)
  then show "slice (i * 16 + 8) 8 (concat (map region_bytes rs) @ pad) = u64_le (of_nat (snd (rs ! i)))"
    using le by (simp add: slice_def)
qed

lemma fold_insert_sorted:
  "bt_sorted (acc @ rs) \<Longrightarrow> fold (\<lambda>(o', s). fl_insert o' s) rs (Small acc) = Small (acc @ rs)"
proof (induction rs arbitrary: acc)
  case (Cons r rs)
  obtain o' s where r: "r = (o', s)" by force
  have lt: "\<forall>q \<in> set acc. fst q < o'" using Cons.prems r by (auto simp: sorted_wrt_append)
  then have "search_pos o' acc = length acc" by (simp add: search_pos_def takeWhile_eq_all_conv [THEN iffD2])
  then have "small_insert o' s acc = acc @ [r]" by (simp add: small_insert_def r Let_def)
  then show ?case using Cons.IH [of "acc @ [r]"] Cons.prems r by simp
qed simp

lemma div_ceil_le:
  assumes "0 < m" "m dvd M" "x \<le> M"
  shows "div_ceil x m * m \<le> M"
proof (rule ccontr)
  assume "\<not> ?thesis"
  then have lt: "M < div_ceil x m * m" by simp
  obtain c where M: "M = m * c" using assms(2) by blast
  then have "c < div_ceil x m" using lt by (simp add: mult.commute)
  then have "c + 1 \<le> div_ceil x m" by simp
  then have "m * (c + 1) \<le> m * div_ceil x m" by (rule mult_le_mono2)
  then have "M + m \<le> div_ceil x m * m" using M by (simp add: mult.commute)
  then show False using div_ceil_bounds [OF assms(1), of x] assms(3) by simp
qed

text \<open>Recovery from a device laid out as a header.\<close>

lemma recover_layout:
  fixes rs :: "region list" and ident :: bytes
  assumes dev: "dev = u64_le ALLOCATOR_MAGIC @ u64_le (of_nat nxt) @ u64_le (of_nat (length rs)) @ ident @
      u32_le (if pk then HEADER_VERSION_PACKED else HEADER_VERSION) @ u32_le c @
      concat (map region_bytes rs) @ rest"
    and c: "c = crc (u64_le ALLOCATOR_MAGIC @ u64_le (of_nat nxt) @ u64_le (of_nat (length rs)) @ ident @
      u32_le (if pk then HEADER_VERSION_PACKED else HEADER_VERSION) @ u32_le 0 @ concat (map region_bytes rs))"
    and ident: "length ident = 16" and n: "length rs \<le> MAX_PERSISTED_FREE_REGIONS" and nxt: "nxt < 2 ^ 64"
    and al: "0 < alignment" "alignment dvd DATA_REGION_OFFSET" "DATA_REGION_OFFSET \<le> length dev"
    and rs: "bt_sorted rs" "\<forall>(o', s) \<in> set rs. o' < 2 ^ 64 \<and> s < 2 ^ 64"
  shows "\<exists>a. sa_recover crc device_size alignment dev = Inr a \<and> iter_offset_order (sa_freelist a) = rs \<and>
    sa_next_offset a = nxt \<and> sa_device_id a = ident \<and> sa_packed a = pk"
proof -
  let ?h = "max alignment FREELIST_OFFSET"
  let ?t = "length rs * 16 + FREELIST_OFFSET"
  let ?at = "div_ceil ?t alignment * alignment"
  have n20: "?t \<le> DATA_REGION_OFFSET"
    using n by (simp add: MAX_PERSISTED_FREE_REGIONS_def FREELIST_OFFSET_def DATA_REGION_OFFSET_def)
  have at: "?t \<le> ?at" "?at \<le> length dev"
    using div_ceil_bounds [OF al(1), of ?t] div_ceil_le [OF al(1,2) n20] al(3) by auto
  have h: "?h \<le> length dev" "48 \<le> ?h"
    using al dvd_imp_le [OF al(2)] by (auto simp: FREELIST_OFFSET_def DATA_REGION_OFFSET_def)
  have f: "slice 0 8 dev = u64_le ALLOCATOR_MAGIC" "slice 8 8 dev = u64_le (of_nat nxt)"
    "slice 16 8 dev = u64_le (of_nat (length rs))" "slice 24 16 dev = ident"
    "slice 40 4 dev = u32_le (if pk then HEADER_VERSION_PACKED else HEADER_VERSION)"
    "slice 44 4 dev = u32_le c"
    using ident by (simp_all add: dev codec)
  have lr: "unat (of_nat (length rs) :: u64) = length rs"
    using n20 by (simp add: unat_of_nat DATA_REGION_OFFSET_def FREELIST_OFFSET_def)
  have nx: "unat (of_nat nxt :: u64) = nxt" using nxt by (simp add: unat_of_nat)
  have s: "slice x k (take ?h dev) = slice x k dev" if "x + k \<le> 48" for x k
    using that h by (intro slice_take) simp
  have b: "slice x k (take ?at dev) = slice x k dev" if "x + k \<le> ?t" for x k
    using that at by (intro slice_take) simp
  have reg: "read_region (take ?at dev) i = rs ! i" if "i < length rs" for i
  proof -
    have "slice (FREELIST_OFFSET + i * 16) 8 dev = u64_le (of_nat (fst (rs ! i)))"
      "slice (FREELIST_OFFSET + i * 16 + 8) 8 dev = u64_le (of_nat (snd (rs ! i)))"
      using ident slice_regions [OF that, of rest]
      by (simp_all add: dev codec add.commute [of 8] FREELIST_OFFSET_def)
    moreover have "slice (FREELIST_OFFSET + i * 16) 8 (take ?at dev) = slice (FREELIST_OFFSET + i * 16) 8 dev"
      "slice (FREELIST_OFFSET + i * 16 + 8) 8 (take ?at dev) = slice (FREELIST_OFFSET + i * 16 + 8) 8 dev"
      using that by (auto intro!: b)
    moreover have "fst (rs ! i) < 2 ^ 64" "snd (rs ! i) < 2 ^ 64"
      using rs(2) nth_mem [OF that] by (auto simp: case_prod_unfold)
    ultimately show ?thesis
      by (simp add: read_region_def Let_def unat_of_nat)
  qed
  have four: "replicate 4 (0 :: u8) = [0, 0, 0, 0]" by (simp add: numeral_eq_Suc)
  have take: "overwrite HEADER_CRC_OFFSET [0, 0, 0, 0] (take ?t (take ?at dev)) =
      u64_le ALLOCATOR_MAGIC @ u64_le (of_nat nxt) @ u64_le (of_nat (length rs)) @ ident @
      u32_le (if pk then HEADER_VERSION_PACKED else HEADER_VERSION) @ u32_le 0 @ concat (map region_bytes rs)"
    using at(1) ident
    by (simp add: dev codec FREELIST_OFFSET_def HEADER_CRC_OFFSET_def min_absorb1 four)
  have fold: "fold (\<lambda>i fl. let (o', s) = read_region (take ?at dev) i in fl_insert o' s fl) [0 ..< length rs] fl_new = Small rs"
  proof -
    have "fold (\<lambda>i fl. let (o', s) = read_region (take ?at dev) i in fl_insert o' s fl) [0 ..< length rs] fl_new =
        fold (\<lambda>i fl. (\<lambda>(o', s). fl_insert o' s) (rs ! i) fl) [0 ..< length rs] fl_new"
      by (rule fold_cong) (auto simp: reg case_prod_unfold Let_def)
    also have "\<dots> = fold (\<lambda>(o', s). fl_insert o' s) (map ((!) rs) [0 ..< length rs]) fl_new"
      by (simp add: fold_map comp_def case_prod_unfold)
    finally show ?thesis using fold_insert_sorted [of "[]" rs] rs(1) by (simp add: map_nth fl_new_def)
  qed
  have v: "HEADER_VERSION \<noteq> HEADER_VERSION_PACKED" by (simp add: HEADER_VERSION_def HEADER_VERSION_PACKED_def)
  have hf: "slice 0 8 (take ?h dev) = u64_le ALLOCATOR_MAGIC" "slice 8 8 (take ?h dev) = u64_le (of_nat nxt)"
    "slice 16 8 (take ?h dev) = u64_le (of_nat (length rs))" "slice 24 16 (take ?h dev) = ident"
    "slice 40 4 (take ?h dev) = u32_le (if pk then HEADER_VERSION_PACKED else HEADER_VERSION)"
    using f by (simp_all add: s del: max.bounded_iff)
  have cf: "slice HEADER_CRC_OFFSET 4 (take ?at dev) = u32_le c"
    using f(6) b [of 44 4] by (simp add: HEADER_CRC_OFFSET_def FREELIST_OFFSET_def)
  have "sa_recover crc device_size alignment dev = Inr \<lparr>sa_freelist = maybe_promote (Small rs),
      sa_next_offset = nxt, sa_data_region_start = DATA_REGION_OFFSET, sa_device_size = device_size,
      sa_alignment = alignment, sa_device_id = ident, sa_redo_log = False, sa_redo_device_id = 0,
      sa_packed = pk, sa_append_only = False\<rparr>"
    using h at n v c take fold [unfolded Let_def]
    by (simp add: sa_recover_def Let_def hf cf lr nx del: max.bounded_iff)
  moreover have "iter_offset_order (maybe_promote (Small rs)) = rs" using promote_view(1) [of "Small rs"] rs(1) by simp
  ultimately show ?thesis by (simp del: maybe_promote.simps)
qed

text \<open>C28: persisting and recovering.  From a device that starts with the persisted header, recovery
  reads back the free regions, the high-water mark, the device identity and whether the device is
  packed; a freelist too long for the header is refused rather than truncated.\<close>

theorem header_persist_recover:
  assumes "sa_inv a" "length (sa_device_id a) = 16" "sa_data_region_start a = DATA_REGION_OFFSET"
    and "length dev = sa_device_size a" "DATA_REGION_OFFSET \<le> sa_device_size a"
    and "sa_alignment a \<le> DATA_REGION_OFFSET"
  shows "case persist_header crc a of
      Inl e \<Rightarrow> e = FreelistOverflow (length (iter_offset_order (sa_freelist a))) MAX_PERSISTED_FREE_REGIONS \<and>
        MAX_PERSISTED_FREE_REGIONS < length (iter_offset_order (sa_freelist a))
    | Inr img \<Rightarrow> \<exists>a'. sa_recover crc (sa_device_size a) (sa_alignment a) (overwrite 0 img dev) = Inr a' \<and>
        iter_offset_order (sa_freelist a') = iter_offset_order (sa_freelist a) \<and>
        sa_next_offset a' = sa_next_offset a \<and> sa_device_id a' = sa_device_id a \<and> sa_packed a' = sa_packed a"
proof (cases "MAX_PERSISTED_FREE_REGIONS < length (sa_view a)")
  case True
  then show ?thesis by (simp add: persist_header_def Let_def fl_len_view)
next
  case False
  note inv = sa_invD [OF assms(1)]
  obtain k where k: "9 \<le> k" "sa_alignment a = 2 ^ k" using inv(1) by (auto simp: sa_config_ok_def)
  have "k \<le> 20"
    using assms(6) k(2) power_le_imp_le_exp [of "2::nat" k 20] by (simp add: DATA_REGION_OFFSET_def)
  then have al: "sa_alignment a dvd DATA_REGION_OFFSET" "0 < sa_alignment a"
    using le_imp_power_dvd [of k 20 "2::nat"] k(2) by (simp_all add: DATA_REGION_OFFSET_def)
  let ?rs = "sa_view a"
  let ?t = "FREELIST_OFFSET + length ?rs * 16"
  have t: "?t \<le> DATA_REGION_OFFSET"
    using False by (simp add: MAX_PERSISTED_FREE_REGIONS_def FREELIST_OFFSET_def DATA_REGION_OFFSET_def)
  have au: "align_up a ?t = div_ceil ?t (sa_alignment a) * sa_alignment a"
    using div_ceil_le [OF al(2,1) t]
    by (simp add: align_up_def wrapping_mul64_def DATA_REGION_OFFSET_def)
  then have le: "?t \<le> align_up a ?t" "align_up a ?t \<le> DATA_REGION_OFFSET"
    using div_ceil_bounds [OF al(2), of ?t] div_ceil_le [OF al(2,1) t] by auto
  have len: "length (header_image a) = ?t"
    using assms(2) by (simp add: header_image_def fl_len_view FREELIST_OFFSET_def)
  let ?pad = "replicate (align_up a ?t - ?t) (0 :: u8)"
  let ?img = "overwrite 44 (u32_le (crc (header_image a))) (header_image a) @ ?pad"
  have img: "persist_header crc a = Inr ?img"
    using False len by (simp add: persist_header_def Let_def fl_len_view HEADER_CRC_OFFSET_def)
  have limg: "length ?img \<le> length dev"
    using len le assms(4,5) by (simp add: FREELIST_OFFSET_def)
  have dev: "overwrite 0 ?img dev = u64_le ALLOCATOR_MAGIC @ u64_le (of_nat (sa_next_offset a)) @
      u64_le (of_nat (length ?rs)) @ sa_device_id a @
      u32_le (if sa_packed a then HEADER_VERSION_PACKED else HEADER_VERSION) @ u32_le (crc (header_image a)) @
      concat (map region_bytes ?rs) @ ?pad @ drop (length ?img) dev"
    using assms(2) by (simp add: header_image_def fl_len_view codec overwrite_def)
  have "\<exists>a'. sa_recover crc (sa_device_size a) (sa_alignment a) (overwrite 0 ?img dev) = Inr a' \<and>
    iter_offset_order (sa_freelist a') = ?rs \<and> sa_next_offset a' = sa_next_offset a \<and>
    sa_device_id a' = sa_device_id a \<and> sa_packed a' = sa_packed a"
  proof (rule recover_layout [OF dev])
    show "crc (header_image a) = crc (u64_le ALLOCATOR_MAGIC @ u64_le (of_nat (sa_next_offset a)) @
        u64_le (of_nat (length ?rs)) @ sa_device_id a @
        u32_le (if sa_packed a then HEADER_VERSION_PACKED else HEADER_VERSION) @ u32_le 0 @
        concat (map region_bytes ?rs))"
      by (simp add: header_image_def fl_len_view)
    show "sa_next_offset a < 2 ^ 64" using inv(1,6) by (auto simp: sa_config_ok_def U64_MAX_def)
    show "DATA_REGION_OFFSET \<le> length (overwrite 0 ?img dev)" using limg assms(4,5) by simp
    show "\<forall>(o', s) \<in> set ?rs. o' < 2 ^ 64 \<and> s < 2 ^ 64"
      using region_bounds(2) [OF assms(1)] inv(1,6) by (fastforce simp: sa_config_ok_def U64_MAX_def)
  qed (use assms(2) False al ok_sorted [OF inv(3)] in simp_all)
  then show ?thesis by (simp add: img)
qed

theorem header_persist_recover_witness:
  "\<exists>img a'. persist_header (\<lambda>b. of_nat (length b)) (sa_new (2 ^ 20) (2 ^ 9) (replicate 16 7)) = Inr img \<and>
    sa_recover (\<lambda>b. of_nat (length b)) (2 ^ 20) (2 ^ 9) (overwrite 0 img (replicate (2 ^ 20) 0)) = Inr a' \<and>
    sa_device_id a' = replicate 16 7"
proof -
  let ?a = "sa_new (2 ^ 20) (2 ^ 9) (replicate 16 7)"
  have "?a = ?a\<lparr>sa_redo_log := False, sa_packed := False, sa_append_only := False\<rparr>" by (simp add: sa_new_def)
  then have inv: "sa_inv ?a"
    using sa_new_inv(1) [where k = 9 and dev = "2 ^ 20" and ident = "replicate 16 7" and log = False
        and pk = False and ao = False]
    by (simp add: DATA_REGION_OFFSET_def U64_MAX_def)
  have c: "length (sa_device_id ?a) = 16" "sa_data_region_start ?a = DATA_REGION_OFFSET"
    "length (replicate (2 ^ 20) (0 :: u8)) = sa_device_size ?a" "DATA_REGION_OFFSET \<le> sa_device_size ?a"
    "sa_alignment ?a \<le> DATA_REGION_OFFSET" "sa_device_size ?a = 2 ^ 20" "sa_alignment ?a = 2 ^ 9"
    "sa_device_id ?a = replicate 16 7"
    by (simp_all add: sa_new_def DATA_REGION_OFFSET_def)
  have "\<exists>img. persist_header (\<lambda>b. of_nat (length b)) ?a = Inr img"
    by (simp add: persist_header_def Let_def sa_new_def fl_new_def)
  then obtain img where img: "persist_header (\<lambda>b. of_nat (length b)) ?a = Inr img" by blast
  show ?thesis
    using header_persist_recover [OF inv c(1-5), of "\<lambda>b. of_nat (length b)"] img
    by (simp only: img sum.case c(6,7,8)) blast
qed

end
