(* ===== verification/Segment_Allocator.thy ===== *)
theory Segment_Allocator
  imports Slot_Allocator
begin

text \<open>
  The log-structured allocator, \<open>SegmentAllocator\<close> in \<open>src/src/segment_allocator.rs\<close>: the device
  is carved into segments of equal size, records are appended at a cursor inside the open segment,
  fully dead segments are reclaimed and reused, and after a crash the cursor and the list of
  reusable segments are rebuilt from the offsets of the live index entries.  Sizes and offsets are
  natural numbers, with the widths written out where the code narrows, saturates or rounds a request
  up.  The sums of an offset and an aligned size, and the rounding of the cursor to a block, are exact:
  they are those of the code as long as a device and one segment together stay below \<open>2 ^ 64\<close> bytes.
\<close>

section \<open>State\<close>

record segment_meta =
  sm_used :: nat
  sm_dead :: nat

record segment_allocator =
  sg_data_region_start :: nat
  sg_device_size :: nat
  sg_alignment :: nat
  sg_device_id :: bytes
  sg_segment_size :: nat
  sg_segment_count :: nat
  sg_segments :: "segment_meta list"
  sg_free_segments :: "nat list"
  sg_open_segment :: nat
  sg_cursor :: nat
  sg_packed :: bool
  sg_redo_log :: bool
  sg_redo_device_id :: u8
  sg_pinned :: bool

datatype segment_allocator_error =
    SegDeviceFull nat nat nat nat
  | InvalidSegmentSize nat nat nat
  | SegInvalidFree nat nat
  | SegDevice
  | SegGetrandom
  | SegNoPersistedState
  | SegCorruptedHeader string
  | SegHeaderCorruption u32 u32
  | SegUnsupportedVersion u32
  | SegmentTableOverflow nat nat

definition meta_default :: segment_meta where
  "meta_default = \<lparr>sm_used = 0, sm_dead = 0\<rparr>"

definition seg_new ::
  "nat \<Rightarrow> nat \<Rightarrow> bytes \<Rightarrow> nat \<Rightarrow> segment_allocator_error + segment_allocator" where
  "seg_new device_size alignment device_id segment_size =
    (let data_capacity = device_size - DATA_REGION_OFFSET in
     if segment_size = 0 \<or> segment_size mod alignment \<noteq> 0 \<or> data_capacity < segment_size
     then Inl (InvalidSegmentSize segment_size alignment data_capacity)
     else let segment_count = data_capacity div segment_size mod 2 ^ 32 in
       Inr \<lparr>sg_data_region_start = DATA_REGION_OFFSET, sg_device_size = device_size, sg_alignment = alignment,
            sg_device_id = device_id, sg_segment_size = segment_size, sg_segment_count = segment_count,
            sg_segments = replicate segment_count meta_default, sg_free_segments = [],
            sg_open_segment = 0, sg_cursor = DATA_REGION_OFFSET, sg_packed = False,
            sg_redo_log = False, sg_redo_device_id = 0, sg_pinned = False\<rparr>)"

definition seg_set_packed :: "bool \<Rightarrow> segment_allocator \<Rightarrow> segment_allocator" where
  "seg_set_packed b a = a\<lparr>sg_packed := b\<rparr>"

definition set_lifecycle_pinned :: "bool \<Rightarrow> segment_allocator \<Rightarrow> segment_allocator" where
  "set_lifecycle_pinned b a = a\<lparr>sg_pinned := b\<rparr>"

section \<open>Geometry\<close>

definition segment_start :: "segment_allocator \<Rightarrow> nat \<Rightarrow> nat" where
  "segment_start a i = sg_data_region_start a + i * sg_segment_size a"

definition segment_of :: "segment_allocator \<Rightarrow> nat \<Rightarrow> nat option" where
  "segment_of a off =
    (if off < sg_data_region_start a then None
     else let idx = (off - sg_data_region_start a) div sg_segment_size a
          in if sg_segment_count a \<le> idx then None else Some idx)"

definition seg_align_reservation :: "segment_allocator \<Rightarrow> nat \<Rightarrow> nat" where
  "seg_align_reservation a sz =
    (let block = sg_alignment a in
     if \<not> sg_packed a then wrapping_mul64 (div_ceil sz block) block
     else if sz \<le> block then wrapping_mul64 (div_ceil sz RECORD_ALIGN) RECORD_ALIGN
     else wrapping_mul64 (div_ceil sz block) block)"

definition open_segment_remaining :: "segment_allocator \<Rightarrow> nat" where
  "open_segment_remaining a =
    segment_start a (sg_open_segment a) + sg_segment_size a - sg_cursor a"

definition rposition :: "('a \<Rightarrow> bool) \<Rightarrow> 'a list \<Rightarrow> nat option" where
  "rposition p xs =
    (case filter (\<lambda>i. p (xs ! i)) [0..<length xs] of [] \<Rightarrow> None | is \<Rightarrow> Some (last is))"

definition highest_used :: "segment_allocator \<Rightarrow> nat" where
  "highest_used a =
    (case rposition (\<lambda>s. 0 < sm_used s) (sg_segments a) of Some i \<Rightarrow> i | None \<Rightarrow> sg_open_segment a)"

section \<open>Allocation\<close>

definition open_at :: "nat \<Rightarrow> segment_allocator \<Rightarrow> segment_allocator" where
  "open_at i a = a\<lparr>sg_open_segment := i, sg_cursor := segment_start a i\<rparr>"

text \<open>The code computes the successor with \<open>saturating_add(1)\<close> on \<open>u32\<close>.  The segment count is itself a
  \<open>u32\<close>, so a saturated successor and an exact one are refused by the same bound below.\<close>

definition frontier_next :: "segment_allocator \<Rightarrow> nat" where
  "frontier_next a = max (sg_open_segment a) (highest_used a) + 1"

definition advance_to_next_segment :: "segment_allocator \<Rightarrow> bool \<times> segment_allocator" where
  "advance_to_next_segment a =
    (case (sg_pinned a, sg_free_segments a) of
       (False, reused # rest) \<Rightarrow> (True, open_at reused (a\<lparr>sg_free_segments := rest\<rparr>))
     | _ \<Rightarrow>
         let nxt = frontier_next a in
         if sg_segment_count a \<le> nxt then (False, a) else (True, open_at nxt a))"

definition place_offset :: "segment_allocator \<Rightarrow> nat \<Rightarrow> nat" where
  "place_offset a aligned_size =
    (let off = sg_cursor a; block = sg_alignment a;
         need_bump = (if aligned_size \<le> block then block < off mod block + aligned_size else off mod block \<noteq> 0)
     in if sg_packed a \<and> need_bump then div_ceil off block * block else off)"

definition append_at :: "segment_allocator \<Rightarrow> nat \<Rightarrow> nat \<Rightarrow> segment_allocator" where
  "append_at a off aligned_size =
    (let consumed = off + aligned_size - sg_cursor a; i = sg_open_segment a; s = sg_segments a ! i
     in a\<lparr>sg_segments := (sg_segments a)[i := s\<lparr>sm_used := sm_used s + consumed\<rparr>],
          sg_cursor := off + aligned_size\<rparr>)"

definition place_measure :: "segment_allocator \<Rightarrow> nat \<times> nat" where
  "place_measure a =
    (if sg_pinned a then 0 else length (sg_free_segments a),
     sg_segment_count a - max (sg_open_segment a) (highest_used a))"

lemma advance_decreases:
  assumes "advance_to_next_segment a = (True, a')"
  shows "(place_measure a', place_measure a) \<in> less_than <*lex*> less_than"
proof (cases "\<not> sg_pinned a \<and> sg_free_segments a \<noteq> []")
  case True
  then show ?thesis using assms
    by (auto simp: advance_to_next_segment_def place_measure_def open_at_def split: list.splits bool.splits)
next
  case False
  then have "frontier_next a < sg_segment_count a" and a': "a' = open_at (frontier_next a) a"
    using assms by (auto simp: advance_to_next_segment_def Let_def split: list.splits bool.splits if_splits)
  then show ?thesis by (auto simp: a' place_measure_def open_at_def frontier_next_def)
qed

function seg_place ::
  "segment_allocator \<Rightarrow> nat \<Rightarrow> (segment_allocator_error + nat) \<times> segment_allocator" where
  "seg_place a aligned_size =
    (let seg_end = segment_start a (sg_open_segment a) + sg_segment_size a; off = place_offset a aligned_size in
     if off + aligned_size \<le> seg_end then (Inr off, append_at a off aligned_size)
     else case advance_to_next_segment a of
       (True, a') \<Rightarrow> seg_place a' aligned_size
     | (False, a') \<Rightarrow>
         (Inl (SegDeviceFull aligned_size (seg_end - sg_cursor a') (sg_open_segment a') (sg_segment_size a')), a'))"
  by pat_completeness auto
termination
  by (relation "inv_image (less_than <*lex*> less_than) (\<lambda>(a, n). place_measure a)")
    (auto intro: advance_decreases)

declare seg_place.simps [simp del]

definition seg_allocate ::
  "segment_allocator \<Rightarrow> nat \<Rightarrow> (segment_allocator_error + nat) \<times> segment_allocator" where
  "seg_allocate a sz =
    (let aligned_size = seg_align_reservation a sz in
     if aligned_size = 0 \<or> sg_segment_size a < aligned_size
     then (Inl (SegDeviceFull aligned_size (open_segment_remaining a) (sg_open_segment a) (sg_segment_size a)), a)
     else seg_place a aligned_size)"

fun seg_allocate_batch ::
  "segment_allocator \<Rightarrow> nat list \<Rightarrow> (segment_allocator_error + region option list) \<times> segment_allocator" where
  "seg_allocate_batch a [] = (Inr [], a)"
| "seg_allocate_batch a (sz # szs) =
    (let next_slot = (\<lambda>slot a'. case seg_allocate_batch a' szs of
                       (Inr out, a'') \<Rightarrow> (Inr (slot # out), a'') | (Inl e, a'') \<Rightarrow> (Inl e, a''))
     in case seg_allocate a sz of
       (Inr off, a') \<Rightarrow> next_slot (Some (off, seg_align_reservation a' sz)) a'
     | (Inl (SegDeviceFull _ _ _ _), a') \<Rightarrow> next_slot None a'
     | (Inl e, a') \<Rightarrow> (Inl e, a'))"

section \<open>Deferred batches\<close>

record seg_pending =
  sp_regions :: "region option list"
  sp_pre_cursor :: nat
  sp_pre_open_segment :: nat
  sp_pre_open_used :: nat

definition restore_cursor :: "nat \<Rightarrow> nat \<Rightarrow> nat \<Rightarrow> segment_allocator \<Rightarrow> segment_allocator" where
  "restore_cursor pre_cursor pre_open_segment pre_open_used a =
    (let segs = fold (\<lambda>i segs. segs[i := (segs ! i)\<lparr>sm_used := 0\<rparr>])
                  [pre_open_segment + 1..<sg_open_segment a + 1] (sg_segments a);
         s = segs ! pre_open_segment
     in a\<lparr>sg_segments := segs[pre_open_segment := s\<lparr>sm_used := pre_open_used\<rparr>],
          sg_open_segment := pre_open_segment, sg_cursor := pre_cursor\<rparr>)"

definition seg_reserve_batch ::
  "segment_allocator \<Rightarrow> nat list \<Rightarrow> (segment_allocator_error + seg_pending) \<times> segment_allocator" where
  "seg_reserve_batch a szs =
    (let pre_used = sm_used (sg_segments a ! sg_open_segment a) in
     case seg_allocate_batch a szs of
       (Inr regions, a') \<Rightarrow>
         (Inr \<lparr>sp_regions = regions, sp_pre_cursor = sg_cursor a, sp_pre_open_segment = sg_open_segment a,
               sp_pre_open_used = pre_used\<rparr>, a')
     | (Inl e, a') \<Rightarrow> (Inl e, restore_cursor (sg_cursor a) (sg_open_segment a) pre_used a'))"

definition seg_commit_pending :: "seg_pending \<Rightarrow> segment_allocator \<Rightarrow> segment_allocator" where
  "seg_commit_pending pending a = a"

definition seg_rollback_pending :: "seg_pending \<Rightarrow> segment_allocator \<Rightarrow> segment_allocator" where
  "seg_rollback_pending pending a =
    restore_cursor (sp_pre_cursor pending) (sp_pre_open_segment pending) (sp_pre_open_used pending) a"

section \<open>Freeing, reclaiming and recovery\<close>

definition seg_free ::
  "segment_allocator \<Rightarrow> nat \<Rightarrow> nat \<Rightarrow> (segment_allocator_error + unit) \<times> segment_allocator" where
  "seg_free a off sz =
    (let aligned_size = seg_align_reservation a sz; refuse = (Inl (SegInvalidFree off aligned_size), a) in
     case checked_add64 off aligned_size of
       None \<Rightarrow> refuse
     | Some end \<Rightarrow>
         if aligned_size = 0 \<or> off < sg_data_region_start a \<or> sg_device_size a < end then refuse
         else case segment_of a off of
           None \<Rightarrow> refuse
         | Some i \<Rightarrow>
             let s = sg_segments a ! i in
             (Inr (), a\<lparr>sg_segments := (sg_segments a)[i := s\<lparr>sm_dead := sm_dead s + aligned_size\<rparr>]\<rparr>))"

definition segment_live :: "segment_allocator \<Rightarrow> nat \<Rightarrow> nat" where
  "segment_live a i = sm_used (sg_segments a ! i) - sm_dead (sg_segments a ! i)"

definition has_live :: "segment_allocator \<Rightarrow> nat list \<Rightarrow> nat \<Rightarrow> bool" where
  "has_live a live_offsets i \<longleftrightarrow> Some i \<in> set (map (segment_of a) live_offsets)"

definition reclaim_one :: "nat list \<Rightarrow> nat \<Rightarrow> nat list \<times> segment_allocator \<Rightarrow> nat list \<times> segment_allocator" where
  "reclaim_one live_offsets i st =
    (let (reclaimed, a) = st; s = sg_segments a ! i in
     if i = sg_open_segment a \<or> sm_used s = 0 \<or> sm_dead s < sm_used s \<or> has_live a live_offsets i then st
     else (reclaimed @ [i],
           a\<lparr>sg_segments := (sg_segments a)[i := meta_default], sg_free_segments := sg_free_segments a @ [i]\<rparr>))"

definition reclaim_fully_dead_segments :: "segment_allocator \<Rightarrow> nat list \<Rightarrow> nat list \<times> segment_allocator" where
  "reclaim_fully_dead_segments a live_offsets =
    (if sg_pinned a then ([], a)
     else fold (reclaim_one live_offsets) [0..<sg_segment_count a] ([], a))"

definition seg_is_allocated_range :: "segment_allocator \<Rightarrow> nat \<Rightarrow> nat \<Rightarrow> bool" where
  "seg_is_allocated_range a off sz =
    (let aligned = seg_align_reservation a sz in
     case checked_add64 off aligned of
       None \<Rightarrow> False
     | Some end \<Rightarrow> aligned \<noteq> 0 \<and> sg_data_region_start a \<le> off \<and> end \<le> sg_device_size a)"

definition set_cursor_at_least :: "nat \<Rightarrow> segment_allocator \<Rightarrow> segment_allocator" where
  "set_cursor_at_least e a =
    (if e \<le> sg_cursor a then a
     else let e' = min e (sg_device_size a) in
       if e' \<le> sg_cursor a then a
       else let idx = (e' - sg_data_region_start a) div sg_segment_size a in
         a\<lparr>sg_cursor := e', sg_open_segment := min (idx mod 2 ^ 32) (sg_segment_count a - 1)\<rparr>)"

definition reconcile_one :: "nat list \<Rightarrow> nat \<Rightarrow> segment_allocator \<Rightarrow> segment_allocator" where
  "reconcile_one live_offsets i a =
    (if i = sg_open_segment a \<or> has_live a live_offsets i then a
     else a\<lparr>sg_segments := (sg_segments a)[i := meta_default], sg_free_segments := sg_free_segments a @ [i]\<rparr>)"

definition reconcile_recovered_free_list :: "nat list \<Rightarrow> segment_allocator \<Rightarrow> segment_allocator" where
  "reconcile_recovered_free_list live_offsets a =
    (let frontier = max (sg_open_segment a) (highest_used a) in
     fold (reconcile_one live_offsets) [0..<frontier + 1] (a\<lparr>sg_free_segments := []\<rparr>))"

text \<open>One store's share of \<open>recover_allocator_frontiers\<close> (\<open>src/src/recovery.rs\<close>): the highest live offset
  moves the cursor past the end of its record, whose size is read from its header, and the list of
  reusable segments is rebuilt from every live offset.\<close>

definition recover_frontier :: "(nat \<Rightarrow> nat) \<Rightarrow> nat list \<Rightarrow> segment_allocator \<Rightarrow> segment_allocator" where
  "recover_frontier record_size live_offsets a =
    (let a' = (case live_offsets of
                 [] \<Rightarrow> a
               | _ \<Rightarrow> let top = Max (set live_offsets); align = sg_alignment a
                      in set_cursor_at_least (div_ceil (top + record_size top) align * align) a)
     in reconcile_recovered_free_list live_offsets a')"

section \<open>Invariant\<close>

definition used_at :: "segment_allocator \<Rightarrow> nat \<Rightarrow> nat" where
  "used_at a i = sm_used (sg_segments a ! i)"

definition seg_geometry :: "segment_allocator \<Rightarrow> bool" where
  "seg_geometry a \<longleftrightarrow>
    0 < sg_alignment a \<and> 0 < sg_segment_size a \<and> sg_segment_size a mod sg_alignment a = 0 \<and>
    sg_data_region_start a mod sg_alignment a = 0 \<and>
    (sg_device_size a - sg_data_region_start a) div sg_segment_size a = sg_segment_count a \<and>
    sg_segment_count a < 2 ^ 32 \<and> sg_data_region_start a \<le> sg_device_size a \<and>
    length (sg_segments a) = sg_segment_count a \<and> sg_open_segment a < sg_segment_count a \<and>
    segment_start a (sg_open_segment a) \<le> sg_cursor a"

definition free_list_ok :: "segment_allocator \<Rightarrow> bool" where
  "free_list_ok a \<longleftrightarrow> distinct (sg_free_segments a) \<and> sg_open_segment a \<notin> set (sg_free_segments a) \<and>
    (\<forall>i \<in> set (sg_free_segments a). i < sg_segment_count a \<and> sg_segments a ! i = meta_default) \<and>
    (sg_pinned a \<longrightarrow> (\<forall>i \<in> set (sg_free_segments a). i < frontier_next a))"

text \<open>A live region lies in one segment that is accounted as used, and below the cursor if that
  segment is the open one.\<close>

definition region_held :: "segment_allocator \<Rightarrow> region \<Rightarrow> bool" where
  "region_held a r \<longleftrightarrow> (\<exists>i < sg_segment_count a.
     0 < snd r \<and> segment_start a i \<le> fst r \<and> fst r + snd r \<le> segment_start a (Suc i) \<and>
     0 < used_at a i \<and> (i = sg_open_segment a \<longrightarrow> fst r + snd r \<le> sg_cursor a))"

definition disjoint_regions :: "region set \<Rightarrow> bool" where
  "disjoint_regions live \<longleftrightarrow> (\<forall>r \<in> live. \<forall>q \<in> live. r \<noteq> q \<longrightarrow> span r \<inter> span q = {})"

text \<open>The placement rule of packed mode: a small record never straddles a device block and a large one
  starts on a block boundary.\<close>

definition block_placed :: "segment_allocator \<Rightarrow> region \<Rightarrow> bool" where
  "block_placed a r \<longleftrightarrow> \<not> sg_packed a \<or>
    (if snd r \<le> sg_alignment a then fst r mod sg_alignment a + snd r \<le> sg_alignment a
     else fst r mod sg_alignment a = 0)"

definition seg_inv :: "segment_allocator \<Rightarrow> region set \<Rightarrow> bool" where
  "seg_inv a live \<longleftrightarrow> seg_geometry a \<and> free_list_ok a \<and> disjoint_regions live \<and>
    (\<forall>r \<in> live. region_held a r \<and> block_placed a r)"

text \<open>Histories of one store from a state and the records live in it: allocations, failed allocations, committed
  batches, frees of live records, reclaims with the offsets of all live records, rolled back batches, and
  pinning.  Two steps have a condition the code does not check.  A batch is rolled back only if the segments
  after the one it started in, up to the one it ended in, were unused before it; a pin is taken only while
  every reusable segment lies below the append frontier.  \<open>rollback_reopens_live_segment\<close> and
  \<open>pin_reopens_live_segment\<close> below show what happens otherwise.\<close>

inductive seg_run :: "segment_allocator \<Rightarrow> region set \<Rightarrow> segment_allocator \<Rightarrow> region set \<Rightarrow> bool" for a0 live0 where
  Start: "seg_run a0 live0 a0 live0"
| Alloc: "seg_run a0 live0 a live \<Longrightarrow> seg_allocate a sz = (Inr off, a') \<Longrightarrow>
    seg_run a0 live0 a' (insert (off, seg_align_reservation a sz) live)"
| Full: "seg_run a0 live0 a live \<Longrightarrow> seg_allocate a sz = (Inl e, a') \<Longrightarrow> seg_run a0 live0 a' live"
| Batch: "seg_run a0 live0 a live \<Longrightarrow> seg_reserve_batch a szs = (Inr p, a') \<Longrightarrow>
    seg_run a0 live0 (seg_commit_pending p a') (live \<union> {r. Some r \<in> set (sp_regions p)})"
| Rollback: "seg_run a0 live0 a live \<Longrightarrow> seg_reserve_batch a szs = (Inr p, a') \<Longrightarrow>
    \<forall>i \<in> {sg_open_segment a <.. sg_open_segment a'}. used_at a i = 0 \<Longrightarrow>
    seg_run a0 live0 (seg_rollback_pending p a') live"
| Free: "seg_run a0 live0 a live \<Longrightarrow> (off, seg_align_reservation a sz) \<in> live \<Longrightarrow>
    seg_free a off sz = (Inr (), a') \<Longrightarrow>
    seg_run a0 live0 a' (live - {(off, seg_align_reservation a sz)})"
| Reclaim: "seg_run a0 live0 a live \<Longrightarrow> fst ` live \<subseteq> set offs \<Longrightarrow>
    seg_run a0 live0 (snd (reclaim_fully_dead_segments a offs)) live"
| Pin: "seg_run a0 live0 a live \<Longrightarrow> \<forall>i \<in> set (sg_free_segments a). i < frontier_next a \<Longrightarrow>
    seg_run a0 live0 (set_lifecycle_pinned True a) live"
| Unpin: "seg_run a0 live0 a live \<Longrightarrow> seg_run a0 live0 (set_lifecycle_pinned False a) live"

section \<open>Lemmas\<close>

lemma rposition_eq:
  "rposition p xs = (if \<exists>i < length xs. p (xs ! i) then Some (GREATEST i. i < length xs \<and> p (xs ! i)) else None)"
proof (cases "filter (\<lambda>i. p (xs ! i)) [0..<length xs] = []")
  case True
  then have "\<not> (\<exists>i < length xs. p (xs ! i))" by (auto simp: filter_empty_conv)
  with True show ?thesis by (simp add: rposition_def)
next
  case False
  let ?is = "filter (\<lambda>i. p (xs ! i)) [0..<length xs]"
  have mem: "k \<in> set ?is \<longleftrightarrow> k < length xs \<and> p (xs ! k)" for k by auto
  have last: "last ?is \<in> set ?is" using False by (rule last_in_set)
  have top: "k \<le> last ?is" if "k \<in> set ?is" for k
  proof -
    have dec: "?is = butlast ?is @ [last ?is]" using False by simp
    have "sorted ?is" by (simp add: sorted_wrt_filter)
    then have "\<forall>x \<in> set (butlast ?is). x \<le> last ?is" by (subst (asm) dec) (simp add: sorted_append)
    moreover have "k \<in> set (butlast ?is) \<or> k = last ?is"
      using that by (subst (asm) dec) (simp only: set_append, auto)
    ultimately show ?thesis by auto
  qed
  have "(GREATEST i. i < length xs \<and> p (xs ! i)) = last ?is"
    using last top unfolding mem by (intro Greatest_equality) auto
  moreover have "\<exists>i < length xs. p (xs ! i)" using last unfolding mem by auto
  moreover have "rposition p xs = Some (last ?is)"
    using False by (auto simp: rposition_def split: list.splits)
  ultimately show ?thesis by simp
qed

text \<open>What lies below the append frontier: everything up to the open segment or up to a used segment.\<close>

lemma frontier_iff:
  assumes "length (sg_segments a) = sg_segment_count a"
  shows "j < frontier_next a \<longleftrightarrow> j \<le> sg_open_segment a \<or> (\<exists>i < sg_segment_count a. j \<le> i \<and> 0 < used_at a i)"
proof (cases "\<exists>i < sg_segment_count a. 0 < used_at a i")
  case True
  let ?P = "\<lambda>i. i < length (sg_segments a) \<and> 0 < sm_used (sg_segments a ! i)"
  have h: "highest_used a = Greatest ?P"
    using True assms by (auto simp: highest_used_def rposition_eq used_at_def)
  obtain k where k: "?P k" using True assms by (auto simp: used_at_def)
  have bd: "\<And>y. ?P y \<Longrightarrow> y \<le> length (sg_segments a)" by simp
  have top: "?P (Greatest ?P)" by (rule GreatestI_nat [of ?P, OF k bd])
  have le: "i \<le> Greatest ?P" if "?P i" for i by (rule Greatest_le_nat [of ?P, OF that bd])
  show ?thesis (is "_ \<longleftrightarrow> _ \<or> ?E")
  proof -
    have "?E" if "j \<le> highest_used a" using that top unfolding h used_at_def assms [symmetric] by blast
    moreover have "j \<le> highest_used a" if ex: ?E
    proof -
      obtain i where "?P i" "j \<le> i" using ex unfolding used_at_def assms [symmetric] by blast
      then show ?thesis unfolding h using le le_trans by blast
    qed
    ultimately have "j \<le> highest_used a \<longleftrightarrow> ?E" by (rule iffI)
    then show ?thesis by (auto simp: frontier_next_def)
  qed
next
  case False
  then have "rposition (\<lambda>s. 0 < sm_used s) (sg_segments a) = None"
    using assms by (simp add: rposition_eq used_at_def)
  then show ?thesis using False by (auto simp: frontier_next_def highest_used_def)
qed

lemma above_frontier_unused:
  "length (sg_segments a) = sg_segment_count a \<Longrightarrow> i < sg_segment_count a \<Longrightarrow> frontier_next a \<le> i \<Longrightarrow>
   used_at a i = 0"
  using frontier_iff [of a i] by (metis gr0I leD order_refl)

lemma open_at_simps [simp]:
  "sg_open_segment (open_at i a) = i" "sg_cursor (open_at i a) = segment_start a i"
  "sg_segments (open_at i a) = sg_segments a" "sg_segment_count (open_at i a) = sg_segment_count a"
  "sg_segment_size (open_at i a) = sg_segment_size a" "sg_data_region_start (open_at i a) = sg_data_region_start a"
  "sg_alignment (open_at i a) = sg_alignment a" "sg_packed (open_at i a) = sg_packed a"
  "sg_device_size (open_at i a) = sg_device_size a" "sg_pinned (open_at i a) = sg_pinned a"
  "sg_free_segments (open_at i a) = sg_free_segments a"
  by (simp_all add: open_at_def)

lemma segment_start_cong:
  "sg_data_region_start b = sg_data_region_start a \<Longrightarrow> sg_segment_size b = sg_segment_size a \<Longrightarrow>
   segment_start b i = segment_start a i"
  by (simp add: segment_start_def)

lemma segment_start_open_at [simp]: "segment_start (open_at j a) i = segment_start a i"
  by (simp add: segment_start_def)

lemma segment_start_mono: "i \<le> j \<Longrightarrow> segment_start a i \<le> segment_start a j"
  by (simp add: segment_start_def)

lemma frontier_mono:
  assumes "length (sg_segments a) = sg_segment_count a" "length (sg_segments b) = sg_segment_count b"
    "sg_segment_count b = sg_segment_count a" "sg_open_segment a \<le> sg_open_segment b"
    "\<And>i. i < sg_segment_count a \<Longrightarrow> used_at a i \<le> used_at b i"
  shows "j < frontier_next a \<Longrightarrow> j < frontier_next b"
  unfolding frontier_iff [OF assms(1)] frontier_iff [OF assms(2)]
  using assms(3,4) assms(5) by (metis le_trans less_le_trans)

text \<open>Opening an unused segment that is not on the list of reusable ones keeps every live region held.\<close>

lemma open_unused:
  assumes inv: "seg_inv a live" and i: "i < sg_segment_count a" "used_at a i = 0" "i \<notin> set (sg_free_segments a)"
    and up: "sg_pinned a \<Longrightarrow> sg_open_segment a \<le> i"
  shows "seg_inv (open_at i a) live"
proof -
  have held: "region_held (open_at i a) r" if "region_held a r" for r
    using that i(2) unfolding region_held_def used_at_def by (auto simp: segment_start_def)
  have g: "seg_geometry a" and f: "free_list_ok a" using inv by (simp_all add: seg_inv_def)
  have len: "length (sg_segments a) = sg_segment_count a" using g by (simp add: seg_geometry_def)
  have "seg_geometry (open_at i a)" using g i(1) by (simp add: seg_geometry_def)
  moreover have "j < frontier_next (open_at i a)" if "sg_pinned a" "j < frontier_next a" for j
    by (rule frontier_mono [OF _ _ _ _ _ that(2)]) (use len up [OF that(1)] in \<open>auto simp: used_at_def\<close>)
  then have "free_list_ok (open_at i a)" using f i(3) by (simp add: free_list_ok_def)
  ultimately show ?thesis using inv held by (simp add: seg_inv_def block_placed_def)
qed

lemma frontier_next_free [simp]: "frontier_next (a\<lparr>sg_free_segments := fs\<rparr>) = frontier_next a"
  by (simp add: frontier_next_def highest_used_def cong: option.case_cong)

lemma seg_inv_drop_free:
  assumes "seg_inv a live" "sg_free_segments a = i # rest"
  shows "seg_inv (a\<lparr>sg_free_segments := rest\<rparr>) live"
  using assms
  by (auto simp: seg_inv_def seg_geometry_def free_list_ok_def region_held_def block_placed_def used_at_def
      segment_start_def)

lemma advance_unused:
  assumes inv: "seg_inv a live" and adv: "advance_to_next_segment a = (True, b)"
  shows "seg_inv b live"
proof (cases "\<not> sg_pinned a \<and> sg_free_segments a \<noteq> []")
  case True
  then obtain i rest where c: "sg_free_segments a = i # rest" "\<not> sg_pinned a" by (cases "sg_free_segments a") auto
  let ?a = "a\<lparr>sg_free_segments := rest\<rparr>"
  have b: "b = open_at i ?a" using c adv by (simp add: advance_to_next_segment_def)
  have "i < sg_segment_count a" "used_at a i = 0" "i \<notin> set rest"
    using inv c by (auto simp: seg_inv_def free_list_ok_def used_at_def meta_default_def)
  then show ?thesis unfolding b using seg_inv_drop_free [OF inv c(1)] c(2)
    by (intro open_unused) (simp_all add: used_at_def)
next
  case False
  then have n: "frontier_next a < sg_segment_count a" and b: "b = open_at (frontier_next a) a"
    and p: "sg_pinned a \<or> sg_free_segments a = []"
    using adv by (auto simp: advance_to_next_segment_def Let_def split: list.splits bool.splits if_splits)
  have len: "length (sg_segments a) = sg_segment_count a" using inv by (simp add: seg_inv_def seg_geometry_def)
  have "frontier_next a \<notin> set (sg_free_segments a)" using p inv by (auto simp: seg_inv_def free_list_ok_def)
  then show ?thesis unfolding b
    by (intro open_unused [OF inv n above_frontier_unused [OF len n order_refl]]) (simp_all add: frontier_next_def)
qed

lemma place_offset_bounds:
  assumes "seg_geometry a"
  shows "sg_cursor a \<le> place_offset a n" "block_placed a (place_offset a n, n)"
proof -
  have p: "0 < sg_alignment a" using assms by (simp add: seg_geometry_def)
  show "sg_cursor a \<le> place_offset a n"
    using div_ceil_bounds [OF p, of "sg_cursor a"] by (simp add: place_offset_def Let_def)
  show "block_placed a (place_offset a n, n)" by (simp add: place_offset_def block_placed_def Let_def)
qed

lemma append_at_simps [simp]:
  "sg_segment_count (append_at a off n) = sg_segment_count a" "sg_segment_size (append_at a off n) = sg_segment_size a"
  "sg_open_segment (append_at a off n) = sg_open_segment a" "sg_free_segments (append_at a off n) = sg_free_segments a"
  "sg_data_region_start (append_at a off n) = sg_data_region_start a" "sg_alignment (append_at a off n) = sg_alignment a"
  "sg_packed (append_at a off n) = sg_packed a" "sg_device_size (append_at a off n) = sg_device_size a"
  "sg_pinned (append_at a off n) = sg_pinned a" "sg_cursor (append_at a off n) = off + n"
  "length (sg_segments (append_at a off n)) = length (sg_segments a)"
  "segment_start (append_at a off n) i = segment_start a i"
  by (simp_all add: append_at_def segment_start_def Let_def)

lemma block_placed_append [simp]: "block_placed (append_at a off n) r = block_placed a r"
  by (simp add: block_placed_def)

lemma used_append_at:
  "i < length (sg_segments a) \<Longrightarrow> used_at (append_at a off n) i =
     (if i = sg_open_segment a then used_at a i + (off + n - sg_cursor a) else used_at a i)"
  by (auto simp: append_at_def used_at_def Let_def nth_list_update)

lemma segment_start_Suc: "segment_start a (Suc i) = segment_start a i + sg_segment_size a"
  by (simp add: segment_start_def)

text \<open>A region past the cursor of the open segment meets no live region.\<close>

lemma fresh_disjoint:
  assumes inv: "seg_inv a live" and off: "sg_cursor a \<le> off"
    and fit: "off + n \<le> segment_start a (Suc (sg_open_segment a))" and r: "r \<in> live"
  shows "span r \<inter> span (off, n) = {}"
proof -
  obtain i where i: "i < sg_segment_count a" "segment_start a i \<le> fst r" "fst r + snd r \<le> segment_start a (Suc i)"
      "i = sg_open_segment a \<longrightarrow> fst r + snd r \<le> sg_cursor a"
    using inv r by (auto simp: seg_inv_def region_held_def)
  have open_start: "segment_start a (sg_open_segment a) \<le> sg_cursor a"
    using inv by (simp add: seg_inv_def seg_geometry_def)
  consider "i = sg_open_segment a" | "i < sg_open_segment a" | "sg_open_segment a < i" by linarith
  then have "fst r + snd r \<le> off \<or> off + n \<le> fst r"
  proof cases
    case 2
    then show ?thesis using segment_start_mono [of "Suc i" "sg_open_segment a" a] i(3) open_start off by simp
  next
    case 3
    then show ?thesis using segment_start_mono [of "Suc (sg_open_segment a)" i a] i(2) fit by simp
  qed (use i(4) off in auto)
  then show ?thesis by (auto simp: span_def)
qed

lemma append_inv:
  assumes inv: "seg_inv a live" and n: "0 < n" and off: "off = place_offset a n"
    and fit: "off + n \<le> segment_start a (Suc (sg_open_segment a))"
  shows "seg_inv (append_at a off n) (insert (off, n) live)"
proof -
  let ?b = "append_at a off n"
  have g: "seg_geometry a" and f: "free_list_ok a" using inv by (simp_all add: seg_inv_def)
  have len: "length (sg_segments a) = sg_segment_count a" and opn: "sg_open_segment a < sg_segment_count a"
    using g by (simp_all add: seg_geometry_def)
  have ge: "sg_cursor a \<le> off" and bp: "block_placed a (off, n)" using place_offset_bounds [OF g] off by simp_all
  have used: "used_at a i \<le> used_at ?b i" if "i < sg_segment_count a" for i
    using that len by (simp add: used_append_at)
  have geo: "seg_geometry ?b" using g ge by (simp add: seg_geometry_def)
  have fr: "j < frontier_next ?b" if "j < frontier_next a" for j
    by (rule frontier_mono [OF _ _ _ _ _ that]) (use len used in auto)
  have same: "sg_segments ?b ! i = sg_segments a ! i" if "i \<noteq> sg_open_segment a" for i
    using that by (simp add: append_at_def Let_def)
  have "sg_segments ?b ! i = meta_default" if "i \<in> set (sg_free_segments a)" for i
    using same [of i] that f unfolding free_list_ok_def by metis
  then have free: "free_list_ok ?b" using f fr by (simp add: free_list_ok_def)
  have held: "region_held ?b r" if h: "region_held a r" for r
  proof -
    obtain i where i: "i < sg_segment_count a" "0 < snd r" "segment_start a i \<le> fst r"
        "fst r + snd r \<le> segment_start a (Suc i)" "0 < used_at a i"
        "i = sg_open_segment a \<longrightarrow> fst r + snd r \<le> sg_cursor a"
      using h by (auto simp: region_held_def)
    then show ?thesis using used [OF i(1)] ge by (auto simp: region_held_def intro!: exI [of _ i])
  qed
  have new: "region_held ?b (off, n)"
    using g n ge fit len opn
    by (auto simp: region_held_def used_append_at seg_geometry_def intro!: exI [of _ "sg_open_segment a"])
  have dis: "span r \<inter> span (off, n) = {}" if "r \<in> live" for r by (rule fresh_disjoint [OF inv ge fit that])
  then have "disjoint_regions (insert (off, n) live)"
    using inv unfolding seg_inv_def disjoint_regions_def by blast
  then show ?thesis
    using inv geo free held new bp by (simp add: seg_inv_def)
qed

lemma seg_place_inv:
  assumes "seg_inv a live" "0 < n" "seg_place a n = (r, b)"
  shows "seg_inv b (case r of Inr off \<Rightarrow> insert (off, n) live | Inl e \<Rightarrow> live) \<and>
    sg_packed b = sg_packed a \<and> sg_alignment b = sg_alignment a"
  using assms
proof (induction a n rule: seg_place.induct)
  case (1 a n)
  show ?case
  proof (cases "place_offset a n + n \<le> segment_start a (sg_open_segment a) + sg_segment_size a")
    case True
    then have "r = Inr (place_offset a n)" "b = append_at a (place_offset a n) n"
      using 1(4) by (simp_all add: seg_place.simps [of a n] Let_def)
    then show ?thesis using append_inv [OF 1(2,3) refl] True by (simp add: segment_start_Suc)
  next
    case False
    obtain ok a' where adv: "advance_to_next_segment a = (ok, a')" by fastforce
    have cfg: "sg_packed a' = sg_packed a" "sg_alignment a' = sg_alignment a"
      using adv by (auto simp: advance_to_next_segment_def Let_def split: list.splits bool.splits if_splits)
    show ?thesis
    proof (cases ok)
      case True
      then have "seg_place a' n = (r, b)" using 1(4) False adv by (simp add: seg_place.simps [of a n] Let_def)
      moreover have "seg_inv a' live" using advance_unused [OF 1(2)] adv True by simp
      ultimately show ?thesis using 1(1) [OF refl refl False adv [symmetric], of] True 1(3) cfg by simp
    next
      case no: False
      then have "a' = a" using adv
        by (auto simp: advance_to_next_segment_def Let_def split: list.splits bool.splits if_splits)
      moreover have "(\<exists>e. r = Inl e) \<and> b = a'"
        using 1(4) False adv no by (auto simp: seg_place.simps [of a n] Let_def)
      ultimately show ?thesis using 1(2) by auto
    qed
  qed
qed

lemma seg_align_cong:
  "sg_packed b = sg_packed a \<Longrightarrow> sg_alignment b = sg_alignment a \<Longrightarrow>
   seg_align_reservation b sz = seg_align_reservation a sz"
  by (simp add: seg_align_reservation_def)

lemma seg_allocate_inv:
  assumes "seg_inv a live" "seg_allocate a sz = (r, b)"
  shows "seg_inv b (case r of Inr off \<Rightarrow> insert (off, seg_align_reservation a sz) live | Inl e \<Rightarrow> live)"
    and "sg_packed b = sg_packed a" and "sg_alignment b = sg_alignment a"
  using assms seg_place_inv [OF assms(1), of "seg_align_reservation a sz" r b]
  by (auto simp: seg_allocate_def Let_def split: if_splits)

lemma seg_allocate_batch_inv:
  assumes "seg_inv a live" "seg_allocate_batch a szs = (Inr regions, b)"
  shows "seg_inv b (live \<union> {r. Some r \<in> set regions})"
  using assms
proof (induction szs arbitrary: a live regions)
  case (Cons sz szs)
  obtain r a' where al: "seg_allocate a sz = (r, a')" by fastforce
  note step = seg_allocate_inv [OF Cons.prems(1) al]
  show ?case
  proof (cases r)
    case (Inr off)
    then obtain out where out: "seg_allocate_batch a' szs = (Inr out, b)"
      "regions = Some (off, seg_align_reservation a' sz) # out"
      using Cons.prems(2) al by (auto split: prod.splits sum.splits)
    have "insert (off, seg_align_reservation a sz) live \<union> {r. Some r \<in> set out} =
        live \<union> {r. Some r \<in> set regions}"
      using seg_align_cong [OF step(2,3)] by (auto simp: out)
    then show ?thesis using Cons.IH [OF _ out(1)] step(1) Inr by fastforce
  next
    case (Inl e)
    then obtain out where out: "seg_allocate_batch a' szs = (Inr out, b)" "regions = None # out"
      using Cons.prems(2) al by (auto split: prod.splits sum.splits segment_allocator_error.splits)
    have "{r. Some r \<in> set out} = {r. Some r \<in> set regions}" by (auto simp: out)
    then show ?thesis using Cons.IH [OF _ out(1)] step(1) Inl by fastforce
  qed
qed simp

text \<open>What an allocation leaves as it was: the configuration, the dead bytes, the used bytes it does not raise,
  and the end of the list of reusable segments.  If it took no segment from that list, the open segment moved
  up and the segments outside the passage are untouched.\<close>

definition seg_frame :: "segment_allocator \<Rightarrow> segment_allocator" where
  "seg_frame a = a\<lparr>sg_segments := [], sg_free_segments := [], sg_open_segment := 0, sg_cursor := 0\<rparr>"

definition grown :: "segment_allocator \<Rightarrow> segment_allocator \<Rightarrow> bool" where
  "grown a b \<longleftrightarrow> seg_frame b = seg_frame a \<and> length (sg_segments b) = length (sg_segments a) \<and>
    (\<forall>i < length (sg_segments a). used_at a i \<le> used_at b i \<and> sm_dead (sg_segments b ! i) = sm_dead (sg_segments a ! i)) \<and>
    (\<exists>taken. sg_free_segments a = taken @ sg_free_segments b) \<and>
    (sg_free_segments b = sg_free_segments a \<longrightarrow> sg_open_segment a \<le> sg_open_segment b \<and>
      (\<forall>i. i < sg_open_segment a \<or> sg_open_segment b < i \<longrightarrow> sg_segments b ! i = sg_segments a ! i))"

lemma seg_frameD:
  assumes "seg_frame b = seg_frame a"
  shows "sg_data_region_start b = sg_data_region_start a" "sg_device_size b = sg_device_size a"
    "sg_alignment b = sg_alignment a" "sg_segment_size b = sg_segment_size a" "sg_segment_count b = sg_segment_count a"
    "sg_packed b = sg_packed a" "sg_pinned b = sg_pinned a"
  using assms by (cases a; cases b; simp add: seg_frame_def)+

lemma grown_refl: "grown a a"
  by (simp add: grown_def)

lemma grownD:
  assumes "grown a b"
  shows "seg_frame b = seg_frame a" "length (sg_segments b) = length (sg_segments a)"
    "i < length (sg_segments a) \<Longrightarrow> used_at a i \<le> used_at b i"
    "i < length (sg_segments a) \<Longrightarrow> sm_dead (sg_segments b ! i) = sm_dead (sg_segments a ! i)"
    "\<exists>taken. sg_free_segments a = taken @ sg_free_segments b"
    "sg_free_segments b = sg_free_segments a \<Longrightarrow> sg_open_segment a \<le> sg_open_segment b"
    "sg_free_segments b = sg_free_segments a \<Longrightarrow> i < sg_open_segment a \<or> sg_open_segment b < i \<Longrightarrow>
      sg_segments b ! i = sg_segments a ! i"
  using assms unfolding grown_def by blast+

lemma grown_trans:
  assumes ab: "grown a b" and bc: "grown b c"
  shows "grown a c"
proof -
  have taken: "\<exists>taken. sg_free_segments a = taken @ sg_free_segments c"
    using grownD(5) [OF ab] grownD(5) [OF bc] by force
  have "sg_open_segment a \<le> sg_open_segment c \<and>
      (\<forall>i. i < sg_open_segment a \<or> sg_open_segment c < i \<longrightarrow> sg_segments c ! i = sg_segments a ! i)"
    if c: "sg_free_segments c = sg_free_segments a"
  proof -
    have b: "sg_free_segments b = sg_free_segments a" "sg_free_segments c = sg_free_segments b"
      using grownD(5) [OF ab] grownD(5) [OF bc] c by (metis append_assoc append_self_conv2 append_is_Nil_conv)+
    note up = grownD(6) [OF ab b(1)] grownD(6) [OF bc b(2)]
    have "sg_segments c ! i = sg_segments a ! i" if "i < sg_open_segment a \<or> sg_open_segment c < i" for i
      using grownD(7) [OF ab b(1), of i] grownD(7) [OF bc b(2), of i] up that by fastforce
    then show ?thesis using up by simp
  qed
  moreover have "used_at a i \<le> used_at c i \<and> sm_dead (sg_segments c ! i) = sm_dead (sg_segments a ! i)"
    if "i < length (sg_segments a)" for i
    using grownD(2-4) [OF ab] grownD(3,4) [OF bc] that le_trans [of "used_at a i" "used_at b i" "used_at c i"] by simp
  moreover have "seg_frame c = seg_frame a" "length (sg_segments c) = length (sg_segments a)"
    using grownD(1,2) [OF ab] grownD(1,2) [OF bc] by simp_all
  ultimately show ?thesis using taken unfolding grown_def by blast
qed

lemma grown_advance:
  assumes "advance_to_next_segment a = (ok, b)"
  shows "grown a b"
proof -
  consider "b = a" | i rest where "sg_free_segments a = i # rest" "b = open_at i (a\<lparr>sg_free_segments := rest\<rparr>)"
    | "b = open_at (frontier_next a) a"
    using assms by (auto simp: advance_to_next_segment_def Let_def split: list.splits bool.splits if_splits)
  then show ?thesis
  proof cases
    case 3
    then show ?thesis by (simp add: grown_def seg_frame_def open_at_def used_at_def frontier_next_def)
  qed (simp_all add: grown_refl, simp add: grown_def seg_frame_def open_at_def used_at_def)
qed

lemma grown_append: "grown a (append_at a off n)"
proof -
  have "sg_segments (append_at a off n) ! i = sg_segments a ! i" if "i \<noteq> sg_open_segment a" for i
    using that by (simp add: append_at_def Let_def)
  moreover have "sm_dead (sg_segments (append_at a off n) ! i) = sm_dead (sg_segments a ! i)" for i
    by (cases "i = sg_open_segment a"; cases "sg_open_segment a < length (sg_segments a)")
      (simp_all add: append_at_def Let_def list_update_beyond)
  moreover have "seg_frame (append_at a off n) = seg_frame a" by (simp add: seg_frame_def append_at_def Let_def)
  ultimately show ?thesis by (auto simp: grown_def used_append_at)
qed

lemma grown_place: "seg_place a n = (r, b) \<Longrightarrow> grown a b"
proof (induction a n rule: seg_place.induct)
  case (1 a n)
  let ?fits = "place_offset a n + n \<le> segment_start a (sg_open_segment a) + sg_segment_size a"
  obtain ok a' where adv: "advance_to_next_segment a = (ok, a')" by fastforce
  show ?case
  proof (cases "?fits \<or> \<not> ok")
    case True
    then have "b = append_at a (place_offset a n) n \<or> b = a'"
      using 1(2) adv by (auto simp: seg_place.simps [of a n] Let_def split: if_splits)
    then show ?thesis using grown_append grown_advance [OF adv] by auto
  next
    case False
    then have "seg_place a' n = (r, b)" using 1(2) adv by (simp add: seg_place.simps [of a n] Let_def)
    then have "grown a' b" using 1(1) [OF refl refl _ adv [symmetric]] False by simp
    then show ?thesis using grown_trans [OF grown_advance [OF adv]] by simp
  qed
qed

lemma grown_batch: "seg_allocate_batch a szs = (r, b) \<Longrightarrow> grown a b"
proof (induction szs arbitrary: a r)
  case (Cons sz szs)
  obtain x a' where al: "seg_allocate a sz = (x, a')" by fastforce
  have "grown a a'" using al grown_place grown_refl by (auto simp: seg_allocate_def Let_def split: if_splits)
  moreover have "b = a' \<or> (\<exists>r'. seg_allocate_batch a' szs = (r', b))"
    using Cons.prems al by (auto split: prod.splits sum.splits segment_allocator_error.splits)
  ultimately show ?case using Cons.IH grown_trans by blast
qed (simp add: grown_refl)

lemma fold_reset:
  "length (fold (\<lambda>i segs. segs[i := (segs ! i)\<lparr>sm_used := 0\<rparr>]) js xs) = length xs \<and>
   fold (\<lambda>i segs. segs[i := (segs ! i)\<lparr>sm_used := 0\<rparr>]) js xs ! j =
    (if j \<in> set js \<and> j < length xs then (xs ! j)\<lparr>sm_used := 0\<rparr> else xs ! j)"
proof (induction js arbitrary: xs)
  case (Cons k js)
  then show ?case by (cases "j = k"; cases "k < length xs") (simp_all add: list_update_beyond)
qed simp

text \<open>The rollback of a batch: the segments it resets are those after the one that was open before.\<close>

lemma restore_cursor_simps:
  assumes "opn < length (sg_segments b)"
  shows "seg_frame (restore_cursor cur opn us b) = seg_frame b"
    "sg_open_segment (restore_cursor cur opn us b) = opn" "sg_cursor (restore_cursor cur opn us b) = cur"
    "sg_free_segments (restore_cursor cur opn us b) = sg_free_segments b"
    "length (sg_segments (restore_cursor cur opn us b)) = length (sg_segments b)"
    "i < length (sg_segments b) \<Longrightarrow> sg_segments (restore_cursor cur opn us b) ! i =
      (if i = opn then (sg_segments b ! i)\<lparr>sm_used := us\<rparr>
       else if opn < i \<and> i \<le> sg_open_segment b then (sg_segments b ! i)\<lparr>sm_used := 0\<rparr> else sg_segments b ! i)"
proof -
  let ?segs = "fold (\<lambda>i segs. segs[i := (segs ! i)\<lparr>sm_used := 0\<rparr>]) [opn + 1..<sg_open_segment b + 1] (sg_segments b)"
  obtain segs where s: "?segs = segs" "length segs = length (sg_segments b)"
      "segs ! j = (if j \<in> set [opn + 1..<sg_open_segment b + 1] \<and> j < length (sg_segments b)
        then (sg_segments b ! j)\<lparr>sm_used := 0\<rparr> else sg_segments b ! j)" for j
    using fold_reset by blast
  have c: "restore_cursor cur opn us b = b\<lparr>sg_segments := segs[opn := (segs ! opn)\<lparr>sm_used := us\<rparr>],
      sg_open_segment := opn, sg_cursor := cur\<rparr>"
    by (simp only: restore_cursor_def s(1) Let_def)
  show "seg_frame (restore_cursor cur opn us b) = seg_frame b"
    "sg_open_segment (restore_cursor cur opn us b) = opn" "sg_cursor (restore_cursor cur opn us b) = cur"
    "sg_free_segments (restore_cursor cur opn us b) = sg_free_segments b"
    "length (sg_segments (restore_cursor cur opn us b)) = length (sg_segments b)"
    by (simp_all add: c s(2) seg_frame_def)
  show "i < length (sg_segments b) \<Longrightarrow> sg_segments (restore_cursor cur opn us b) ! i =
      (if i = opn then (sg_segments b ! i)\<lparr>sm_used := us\<rparr>
       else if opn < i \<and> i \<le> sg_open_segment b then (sg_segments b ! i)\<lparr>sm_used := 0\<rparr> else sg_segments b ! i)"
    using assms by (auto simp: c s(2,3) nth_list_update)
qed

lemma restore_batch_inv:
  assumes inv: "seg_inv a live" and batch: "seg_allocate_batch a szs = (Inr rs, b)"
    and unused: "\<forall>i \<in> {sg_open_segment a <.. sg_open_segment b}. used_at a i = 0"
  shows "seg_inv (restore_cursor (sg_cursor a) (sg_open_segment a) (used_at a (sg_open_segment a)) b) live"
    (is "seg_inv ?c live")
proof -
  have g: "seg_geometry a" and f: "free_list_ok a" using inv by (simp_all add: seg_inv_def)
  note gr = grown_batch [OF batch]
  have len: "length (sg_segments b) = sg_segment_count a" "length (sg_segments a) = sg_segment_count a"
    and opn: "sg_open_segment a < length (sg_segments b)"
    using g gr by (simp_all add: seg_geometry_def grown_def)
  note c = restore_cursor_simps [OF opn, where cur = "sg_cursor a" and us = "used_at a (sg_open_segment a)"]
  have fr: "seg_frame ?c = seg_frame a" using c(1) gr by (simp add: grown_def)
  note same = seg_frameD [OF fr]
  have start: "segment_start ?c i = segment_start a i" for i using same by (simp add: segment_start_def)
  have used: "used_at a i \<le> used_at ?c i" if "i < sg_segment_count a" for i
    using that c(6) [where i = i] unused gr len by (auto simp: used_at_def grown_def)
  have geo: "seg_geometry ?c" using g c(2,3,5) same len start by (simp add: seg_geometry_def)
  have held: "region_held ?c r" if "region_held a r" for r
    using that used c(2,3) same start unfolding region_held_def by (metis less_le_trans)
  have "seg_inv b (live \<union> {r. Some r \<in> set rs})" by (rule seg_allocate_batch_inv [OF inv batch])
  then have fb: "sg_segments b ! i = meta_default" if "i \<in> set (sg_free_segments b)" for i
    using that by (simp add: seg_inv_def free_list_ok_def)
  have sub: "set (sg_free_segments b) \<subseteq> set (sg_free_segments a)" "distinct (sg_free_segments b)"
    using gr f by (auto simp: grown_def free_list_ok_def)
  have "sg_segments ?c ! i = meta_default" if i: "i \<in> set (sg_free_segments b)" for i
  proof -
    have "i \<noteq> sg_open_segment a" "i < sg_segment_count a" using i sub f by (auto simp: free_list_ok_def)
    then show ?thesis using c(6) [where i = i] fb [OF i] len by (simp add: meta_default_def)
  qed
  moreover have "j < frontier_next ?c" if "j < frontier_next a" for j
    by (rule frontier_mono [OF _ _ _ _ _ that]) (use len c(2,5) same used in auto)
  ultimately have "free_list_ok ?c" using f sub c(2,4) same by (auto simp: free_list_ok_def)
  then show ?thesis using inv geo held same by (auto simp: seg_inv_def block_placed_def)
qed

lemma restore_batch_exact:
  assumes g: "seg_geometry a" and batch: "seg_allocate_batch a szs = (Inr rs, b)"
    and unused: "\<forall>i \<in> {sg_open_segment a <.. sg_open_segment b}. used_at a i = 0"
    and free: "sg_free_segments b = sg_free_segments a"
  shows "restore_cursor (sg_cursor a) (sg_open_segment a) (used_at a (sg_open_segment a)) b = a" (is "?c = a")
proof -
  note gr = grown_batch [OF batch]
  have len: "length (sg_segments b) = length (sg_segments a)" and opn: "sg_open_segment a < length (sg_segments b)"
    using g gr by (simp_all add: seg_geometry_def grown_def)
  note c = restore_cursor_simps [OF opn, where cur = "sg_cursor a" and us = "used_at a (sg_open_segment a)"]
  have "sg_segments ?c ! i = sg_segments a ! i" if i: "i < length (sg_segments a)" for i
  proof -
    have "sm_dead (sg_segments b ! i) = sm_dead (sg_segments a ! i)" using gr i by (simp add: grown_def)
    moreover have "sg_segments b ! i = sg_segments a ! i" if "i < sg_open_segment a \<or> sg_open_segment b < i"
      using gr free that unfolding grown_def by blast
    ultimately show ?thesis using c(6) [where i = i] unused i len by (auto simp: used_at_def not_less intro!: segment_meta.equality)
  qed
  then have "sg_segments ?c = sg_segments a" using c(5) len by (intro nth_equalityI) simp_all
  moreover have "seg_frame ?c = seg_frame a" using c(1) gr by (simp add: grown_def)
  ultimately show ?thesis using c(2-4) free by (cases a; cases ?c) (simp add: seg_frame_def)
qed

lemma reserve_batch_Inr:
  "seg_reserve_batch a szs = (Inr p, b) \<longleftrightarrow> (\<exists>rs. seg_allocate_batch a szs = (Inr rs, b) \<and>
    p = \<lparr>sp_regions = rs, sp_pre_cursor = sg_cursor a, sp_pre_open_segment = sg_open_segment a,
         sp_pre_open_used = used_at a (sg_open_segment a)\<rparr>)"
  by (auto simp: seg_reserve_batch_def used_at_def Let_def split: prod.splits sum.splits)

lemma seg_inv_subset:
  "seg_inv a live \<Longrightarrow> live' \<subseteq> live \<Longrightarrow> seg_inv a live'"
  unfolding seg_inv_def disjoint_regions_def by (meson subset_iff)

text \<open>The segment of a live region is the one that holds it.\<close>

lemma segment_of_iff:
  assumes "0 < sg_segment_size a"
  shows "segment_of a off = Some i \<longleftrightarrow>
    i < sg_segment_count a \<and> segment_start a i \<le> off \<and> off < segment_start a (Suc i)"
proof (cases "off < sg_data_region_start a")
  case True
  then show ?thesis by (simp add: segment_of_def segment_start_def)
next
  case False
  then obtain d where d: "off = sg_data_region_start a + d" using le_Suc_ex not_less by blast
  have "d div sg_segment_size a = i \<longleftrightarrow> i * sg_segment_size a \<le> d \<and> d < Suc i * sg_segment_size a"
    using assms by (metis div_less_iff_less_mult less_Suc_eq_le le_less_Suc_eq less_eq_div_iff_mult_less_eq
        mult.commute order_refl)
  then show ?thesis by (auto simp: segment_of_def segment_start_def d Let_def)
qed

lemma held_segment:
  assumes "seg_geometry a" "region_held a r"
  obtains i where "segment_of a (fst r) = Some i" "i < sg_segment_count a" "0 < used_at a i"
    "segment_start a i \<le> fst r" "fst r + snd r \<le> segment_start a (Suc i)"
  using assms segment_of_iff [of a "fst r"] by (auto simp: region_held_def seg_geometry_def)

lemma seg_free_inv:
  assumes inv: "seg_inv a live" and fr: "seg_free a off sz = (Inr (), b)" and mem: "(off, n) \<in> live"
  shows "seg_inv b live"
proof -
  have "seg_geometry a" "region_held a (off, n)" using inv mem by (auto simp: seg_inv_def)
  then obtain k where k: "segment_of a off = Some k" "0 < used_at a k" by (rule held_segment) simp
  have "used_at a i = 0" if "i \<in> set (sg_free_segments a)" for i
    using that inv by (simp add: seg_inv_def free_list_ok_def used_at_def meta_default_def)
  then have free: "segment_of a off \<noteq> Some i" if "i \<in> set (sg_free_segments a)" for i
    using that k by force
  obtain i where i: "segment_of a off = Some i" and
    b: "b = a\<lparr>sg_segments := (sg_segments a)[i := (sg_segments a ! i)\<lparr>sm_dead := sm_dead (sg_segments a ! i) +
             seg_align_reservation a sz\<rparr>]\<rparr>"
    using fr by (auto simp: seg_free_def Let_def split: option.splits if_splits)
  have u: "used_at b j = used_at a j" for j
    by (cases "j = i"; cases "i < length (sg_segments a)") (simp_all add: b used_at_def list_update_beyond)
  have "region_held b r = region_held a r" for r
    unfolding region_held_def u by (simp add: b segment_start_def)
  moreover have "block_placed b r = block_placed a r" for r by (simp add: b block_placed_def)
  moreover have "seg_geometry b" using inv by (simp add: seg_inv_def seg_geometry_def b segment_start_def)
  moreover have "free_list_ok b"
  proof -
    have len: "length (sg_segments a) = sg_segment_count a" using inv by (simp add: seg_inv_def seg_geometry_def)
    have "j < frontier_next b \<longleftrightarrow> j < frontier_next a" for j
      using frontier_iff [of a j] frontier_iff [of b j] len u by (simp add: b)
    moreover have "i \<notin> set (sg_free_segments a)" using free i by blast
    then have "sg_segments b ! j = sg_segments a ! j" if "j \<in> set (sg_free_segments a)" for j
      using that by (simp add: b) (metis nth_list_update_neq)
    ultimately show ?thesis using inv by (simp add: seg_inv_def free_list_ok_def) (simp add: b)
  qed
  ultimately show ?thesis using inv by (simp add: seg_inv_def)
qed

text \<open>Putting a segment without live records on the list of reusable ones.\<close>

lemma release_segment:
  assumes inv: "seg_inv a live" and pin: "\<not> sg_pinned a" and i: "i < sg_segment_count a" "i \<noteq> sg_open_segment a"
    "i \<notin> set (sg_free_segments a)" and dead: "\<And>r. r \<in> live \<Longrightarrow> segment_of a (fst r) \<noteq> Some i"
  shows "seg_inv (a\<lparr>sg_segments := (sg_segments a)[i := meta_default],
                   sg_free_segments := sg_free_segments a @ [i]\<rparr>) live" (is "seg_inv ?b live")
proof -
  have g: "seg_geometry a" using inv by (simp add: seg_inv_def)
  have len: "length (sg_segments a) = sg_segment_count a" using g by (simp add: seg_geometry_def)
  have held: "region_held ?b r" if r: "r \<in> live" for r
  proof -
    obtain k where k: "k < sg_segment_count a" "0 < snd r" "segment_start a k \<le> fst r"
        "fst r + snd r \<le> segment_start a (Suc k)" "0 < used_at a k"
        "k = sg_open_segment a \<longrightarrow> fst r + snd r \<le> sg_cursor a"
      using inv r by (auto simp: seg_inv_def region_held_def)
    have "segment_of a (fst r) = Some k" using segment_of_iff [of a "fst r" k] g k by (simp add: seg_geometry_def)
    then have "k \<noteq> i" using dead [OF r] by blast
    then show ?thesis using k by (auto simp: region_held_def used_at_def segment_start_def intro!: exI [of _ k])
  qed
  have "seg_geometry ?b" using g by (simp add: seg_geometry_def segment_start_def)
  moreover have "free_list_ok ?b"
    using inv pin i len by (auto simp: seg_inv_def free_list_ok_def nth_list_update)
  ultimately show ?thesis using inv held by (simp add: seg_inv_def block_placed_def)
qed

lemma reclaim_one_inv:
  assumes inv: "seg_inv a live" and pin: "\<not> sg_pinned a" and i: "i < sg_segment_count a"
    and offs: "fst ` live \<subseteq> set offs" and b: "reclaim_one offs i (rs, a) = (rs', b)"
  shows "seg_inv b live \<and> \<not> sg_pinned b \<and> sg_segment_count b = sg_segment_count a"
proof (cases "i = sg_open_segment a \<or> used_at a i = 0 \<or> sm_dead (sg_segments a ! i) < used_at a i \<or> has_live a offs i")
  case True
  then show ?thesis using assms by (auto simp: reclaim_one_def Let_def used_at_def)
next
  case False
  then have b': "b = a\<lparr>sg_segments := (sg_segments a)[i := meta_default],
      sg_free_segments := sg_free_segments a @ [i]\<rparr>"
    using b by (auto simp: reclaim_one_def Let_def used_at_def)
  have "i \<notin> set (sg_free_segments a)"
    using False inv by (auto simp: seg_inv_def free_list_ok_def used_at_def meta_default_def)
  moreover have "segment_of a (fst r) \<noteq> Some i" if "r \<in> live" for r
  proof
    assume "segment_of a (fst r) = Some i"
    moreover have "fst r \<in> set offs" using offs that by auto
    ultimately have "Some i \<in> segment_of a ` set offs" by (metis imageI)
    then show False using False by (simp add: has_live_def)
  qed
  ultimately have "seg_inv b live" unfolding b' using release_segment [OF inv pin i] False by auto
  then show ?thesis using pin by (simp add: b')
qed

lemma reclaim_inv:
  assumes "seg_inv a live" "fst ` live \<subseteq> set offs"
  shows "seg_inv (snd (reclaim_fully_dead_segments a offs)) live"
proof (cases "sg_pinned a")
  case False
  have "seg_inv (snd (fold (reclaim_one offs) idxs (rs, b))) live"
    if "\<forall>i \<in> set idxs. i < sg_segment_count b" "seg_inv b live" "\<not> sg_pinned b" for idxs rs b
    using that
  proof (induction idxs arbitrary: rs b)
    case (Cons i js)
    obtain rs' b' where st: "reclaim_one offs i (rs, b) = (rs', b')" by fastforce
    note keep = reclaim_one_inv [OF Cons.prems(2,3) _ assms(2) st]
    then show ?case using Cons.IH [of b' rs'] Cons.prems keep by (simp add: st)
  qed simp
  then show ?thesis using assms(1) False by (simp add: reclaim_fully_dead_segments_def)
qed (use assms in \<open>simp add: reclaim_fully_dead_segments_def\<close>)

lemma pin_inv:
  "seg_inv a live \<Longrightarrow> (b \<Longrightarrow> \<forall>i \<in> set (sg_free_segments a). i < frontier_next a) \<Longrightarrow>
   seg_inv (set_lifecycle_pinned b a) live"
proof -
  have "frontier_next (a\<lparr>sg_pinned := b\<rparr>) = frontier_next a"
    by (simp add: frontier_next_def highest_used_def cong: option.case_cong)
  then show "seg_inv a live \<Longrightarrow> (b \<Longrightarrow> \<forall>i \<in> set (sg_free_segments a). i < frontier_next a) \<Longrightarrow> ?thesis"
    by (auto simp: seg_inv_def seg_geometry_def free_list_ok_def region_held_def block_placed_def used_at_def
        segment_start_def set_lifecycle_pinned_def)
qed

lemma seg_run_inv:
  assumes "seg_run a0 live0 a live" "seg_inv a0 live0"
  shows "seg_inv a live"
  using assms
proof (induction rule: seg_run.induct)
  case (Alloc a live sz off a')
  then show ?case using seg_allocate_inv(1) [of a live sz "Inr off" a'] by simp
next
  case (Full a live sz e a')
  then show ?case using seg_allocate_inv(1) [of a live sz "Inl e" a'] by simp
next
  case (Batch a live szs p a')
  then obtain regions where "seg_allocate_batch a szs = (Inr regions, a')" "sp_regions p = regions"
    by (auto simp: seg_reserve_batch_def Let_def split: prod.splits sum.splits)
  then show ?case using seg_allocate_batch_inv Batch by (simp add: seg_commit_pending_def)
next
  case (Rollback a live szs p a')
  then show ?case using restore_batch_inv by (auto simp: reserve_batch_Inr seg_rollback_pending_def)
next
  case (Free a live off sz a')
  then show ?case using seg_free_inv seg_inv_subset by (metis Diff_subset)
next
  case (Reclaim a live offs)
  then show ?case using reclaim_inv by blast
next
  case (Pin a live)
  then show ?case by (intro pin_inv) simp_all
next
  case (Unpin a live)
  then show ?case by (intro pin_inv) simp_all
qed simp

lemma segment_end_in_device:
  assumes "seg_geometry a" "i < sg_segment_count a"
  shows "segment_start a (Suc i) \<le> sg_device_size a"
proof -
  have "Suc i \<le> (sg_device_size a - sg_data_region_start a) div sg_segment_size a"
    using assms by (simp add: seg_geometry_def)
  then have "Suc i * sg_segment_size a \<le> sg_device_size a - sg_data_region_start a"
    by (metis div_times_less_eq_dividend le_trans mult_le_mono1)
  then show ?thesis using assms(1) unfolding segment_start_def seg_geometry_def by linarith
qed

lemma seg_new_inv:
  assumes "seg_new ds al dev ss = Inr a" "0 < al" "al dvd DATA_REGION_OFFSET"
    "(ds - DATA_REGION_OFFSET) div ss < 2 ^ 32"
  shows "seg_inv (seg_set_packed p a) {}"
proof -
  have ss: "0 < ss" "ss mod al = 0" "ss \<le> ds - DATA_REGION_OFFSET" and
    a: "a = \<lparr>sg_data_region_start = DATA_REGION_OFFSET, sg_device_size = ds, sg_alignment = al,
            sg_device_id = dev, sg_segment_size = ss, sg_segment_count = (ds - DATA_REGION_OFFSET) div ss,
            sg_segments = replicate ((ds - DATA_REGION_OFFSET) div ss) meta_default, sg_free_segments = [],
            sg_open_segment = 0, sg_cursor = DATA_REGION_OFFSET, sg_packed = False,
            sg_redo_log = False, sg_redo_device_id = 0, sg_pinned = False\<rparr>"
    using assms by (auto simp: seg_new_def Let_def split: if_splits)
  have "0 < (ds - DATA_REGION_OFFSET) div ss" using ss by (simp add: div_greater_zero_iff)
  moreover have "DATA_REGION_OFFSET \<le> ds" using ss by simp
  ultimately show ?thesis using ss assms(2,3,4)
    by (simp add: seg_inv_def seg_geometry_def free_list_ok_def disjoint_regions_def a seg_set_packed_def
        segment_start_def)
qed

lemma seg_inv_regions:
  assumes inv: "seg_inv a live"
  shows "disjoint_regions live \<and>
    (\<forall>(off, n) \<in> live. sg_data_region_start a \<le> off \<and> off + n \<le> sg_device_size a \<and> block_placed a (off, n) \<and>
      (\<exists>i < sg_segment_count a. segment_start a i \<le> off \<and> off + n \<le> segment_start a (Suc i)))"
proof -
  have g: "seg_geometry a" using inv by (simp add: seg_inv_def)
  have "sg_data_region_start a \<le> off \<and> off + n \<le> sg_device_size a \<and> block_placed a (off, n) \<and>
      (\<exists>i < sg_segment_count a. segment_start a i \<le> off \<and> off + n \<le> segment_start a (Suc i))"
    if m: "(off, n) \<in> live" for off n
  proof -
    have h: "region_held a (off, n)" "block_placed a (off, n)" using inv m by (auto simp: seg_inv_def)
    obtain i where i: "i < sg_segment_count a" "segment_start a i \<le> off" "off + n \<le> segment_start a (Suc i)"
      using held_segment [OF g h(1)] by auto
    moreover have "sg_data_region_start a \<le> segment_start a i" by (simp add: segment_start_def)
    ultimately show ?thesis using h(2) segment_end_in_device [OF g i(1)] by (meson le_trans)
  qed
  then show ?thesis using inv by (auto simp: seg_inv_def)
qed

text \<open>C29: over every history of a freshly formatted log-structured store that \<open>seg_run\<close> admits, the live
  regions are pairwise disjoint, each lies inside the data region and inside one segment, and in packed mode
  a small record never straddles a device block and a large one starts on a block.  The histories consist of
  single allocations, failed ones, committed batches, frees of live records, reclaims of dead segments given
  the offsets of all live records, backup pins taken while every reusable segment lies below the append
  frontier, and rollbacks of batches for which the segments after the first open one up to the last open one
  were unused before the batch.\<close>

theorem segment_allocation_safe:
  assumes "seg_new ds al dev ss = Inr a0" "0 < al" "al dvd DATA_REGION_OFFSET"
    "(ds - DATA_REGION_OFFSET) div ss < 2 ^ 32" "seg_run (seg_set_packed p a0) {} a live"
  shows "disjoint_regions live \<and>
    (\<forall>(off, n) \<in> live. sg_data_region_start a \<le> off \<and> off + n \<le> sg_device_size a \<and> block_placed a (off, n) \<and>
      (\<exists>i < sg_segment_count a. segment_start a i \<le> off \<and> off + n \<le> segment_start a (Suc i)))"
  using seg_inv_regions [OF seg_run_inv [OF assms(5) seg_new_inv [OF assms(1-4)]]] .

text \<open>C30: rolling a batch back.  If the batch took no segment from the list of reusable ones, and the segments
  after the one it started in up to the one it ended in were unused, the rollback gives back exactly the
  allocator before the batch, whatever part of the batch was placed.\<close>

theorem segment_batch_rollback:
  assumes "seg_new ds al dev ss = Inr a0" "0 < al" "al dvd DATA_REGION_OFFSET"
    "(ds - DATA_REGION_OFFSET) div ss < 2 ^ 32" "seg_run (seg_set_packed p a0) {} a live"
    and "seg_reserve_batch a szs = (Inr pending, b)" "\<forall>i \<in> {sg_open_segment a <.. sg_open_segment b}. used_at a i = 0"
    and "sg_free_segments b = sg_free_segments a"
  shows "seg_rollback_pending pending b = a"
proof -
  have "seg_geometry a" using seg_run_inv [OF assms(5) seg_new_inv [OF assms(1-4)]] by (simp add: seg_inv_def)
  then show ?thesis
    using restore_batch_exact assms(6-8) by (auto simp: reserve_batch_Inr seg_rollback_pending_def)
qed

section \<open>When an allocation succeeds\<close>

lemma start_aligned:
  assumes "seg_geometry a"
  shows "segment_start a i mod sg_alignment a = 0"
proof -
  have "sg_alignment a dvd sg_data_region_start a" "sg_alignment a dvd i * sg_segment_size a"
    using assms by (auto simp: seg_geometry_def)
  then show ?thesis by (simp add: segment_start_def)
qed

lemma place_fresh:
  assumes "seg_geometry a" "n \<le> sg_segment_size a" "sg_cursor a = segment_start a (sg_open_segment a)"
  shows "seg_place a n = (Inr (sg_cursor a), append_at a (sg_cursor a) n)"
proof -
  have "place_offset a n = sg_cursor a"
    using start_aligned [OF assms(1), of "sg_open_segment a"] assms(3) by (simp add: place_offset_def Let_def)
  then show ?thesis using assms by (simp add: seg_place.simps [of a n] Let_def)
qed

lemma seg_place_success:
  assumes inv: "seg_inv a live" and n: "n \<le> sg_segment_size a"
  shows "(\<exists>off b. seg_place a n = (Inr off, b)) \<longleftrightarrow>
    place_offset a n + n \<le> segment_start a (Suc (sg_open_segment a)) \<or>
    (if sg_pinned a \<or> sg_free_segments a = [] then frontier_next a < sg_segment_count a else True)"
proof (cases "place_offset a n + n \<le> segment_start a (Suc (sg_open_segment a))")
  case True
  then show ?thesis by (simp add: seg_place.simps [of a n] Let_def segment_start_Suc)
next
  case False
  obtain ok b where adv: "advance_to_next_segment a = (ok, b)" by fastforce
  then have ok: "ok \<longleftrightarrow> (if sg_pinned a \<or> sg_free_segments a = [] then frontier_next a < sg_segment_count a else True)"
    by (auto simp: advance_to_next_segment_def Let_def not_less split: list.splits bool.splits if_splits)
  have cur: "sg_cursor b = segment_start b (sg_open_segment b)" "sg_segment_size b = sg_segment_size a" if ok
    using adv that by (auto simp: advance_to_next_segment_def Let_def segment_start_def
        split: list.splits bool.splits if_splits)
  have "(\<exists>off b. seg_place a n = (Inr off, b)) \<longleftrightarrow> ok"
  proof (cases ok)
    case True
    have "seg_geometry b" using advance_unused [OF inv] adv True by (simp add: seg_inv_def)
    then have "seg_place b n = (Inr (sg_cursor b), append_at b (sg_cursor b) n)"
      using place_fresh cur True n by simp
    moreover have "seg_place a n = seg_place b n"
      using False adv True by (simp add: seg_place.simps [of a n] Let_def segment_start_Suc)
    ultimately show ?thesis using True by auto
  qed (use False adv in \<open>auto simp: seg_place.simps [of a n] Let_def segment_start_Suc\<close>)
  then show ?thesis using False ok by simp
qed

text \<open>C31: after any such history a request is served exactly when its aligned size is positive and at most
  a segment, and either it fits behind the cursor, or a reclaimed segment may be reused, or a segment past
  the frontier exists; in particular the search over segments ends.\<close>

theorem segment_allocation_complete:
  assumes "seg_new ds al dev ss = Inr a0" "0 < al" "al dvd DATA_REGION_OFFSET"
    "(ds - DATA_REGION_OFFSET) div ss < 2 ^ 32" "seg_run (seg_set_packed p a0) {} a live"
  shows "(\<exists>off b. seg_allocate a sz = (Inr off, b)) \<longleftrightarrow>
    (let n = seg_align_reservation a sz in
     0 < n \<and> n \<le> sg_segment_size a \<and>
     (if place_offset a n + n \<le> segment_start a (Suc (sg_open_segment a)) then True
      else if sg_pinned a \<or> sg_free_segments a = [] then frontier_next a < sg_segment_count a else True))"
proof -
  have inv: "seg_inv a live" using seg_run_inv [OF assms(5) seg_new_inv [OF assms(1-4)]] .
  show ?thesis
  proof (cases "0 < seg_align_reservation a sz \<and> seg_align_reservation a sz \<le> sg_segment_size a")
    case True
    then show ?thesis using seg_place_success [OF inv, of "seg_align_reservation a sz"]
      by (auto simp: seg_allocate_def Let_def)
  qed (auto simp: seg_allocate_def Let_def)
qed

section \<open>Recovery\<close>

text \<open>What recovery starts from: a header whose geometry is sound, and live records that do not overlap,
  each inside one segment.\<close>

definition recoverable :: "(nat \<Rightarrow> nat) \<Rightarrow> segment_allocator \<Rightarrow> region set \<Rightarrow> bool" where
  "recoverable record_size a live \<longleftrightarrow> seg_geometry a \<and> \<not> sg_pinned a \<and> disjoint_regions live \<and>
    (\<forall>(off, n) \<in> live. block_placed a (off, n) \<and> 0 < n \<and>
      off + n \<le> div_ceil (off + record_size off) (sg_alignment a) * sg_alignment a \<and>
      (\<exists>i < sg_segment_count a. segment_start a i \<le> off \<and> off + n \<le> segment_start a (Suc i)))"

text \<open>The condition recovery needs of the persisted accounting: every segment with a live record was
  already in use when the header was written.\<close>

definition accounted :: "segment_allocator \<Rightarrow> region set \<Rightarrow> bool" where
  "accounted a live \<longleftrightarrow> (\<forall>(off, n) \<in> live. \<forall>i. segment_of a off = Some i \<longrightarrow> 0 < used_at a i)"

lemma set_cursor_simps [simp]:
  "sg_segments (set_cursor_at_least e a) = sg_segments a" "sg_segment_count (set_cursor_at_least e a) = sg_segment_count a"
  "sg_segment_size (set_cursor_at_least e a) = sg_segment_size a" "sg_alignment (set_cursor_at_least e a) = sg_alignment a"
  "sg_data_region_start (set_cursor_at_least e a) = sg_data_region_start a" "sg_packed (set_cursor_at_least e a) = sg_packed a"
  "sg_device_size (set_cursor_at_least e a) = sg_device_size a" "sg_pinned (set_cursor_at_least e a) = sg_pinned a"
  "segment_start (set_cursor_at_least e a) i = segment_start a i"
  by (simp_all add: set_cursor_at_least_def segment_start_def Let_def)

lemma set_cursor_geometry:
  assumes g: "seg_geometry a"
  shows "seg_geometry (set_cursor_at_least e a)"
    and "min e (sg_device_size a) \<le> sg_cursor (set_cursor_at_least e a)"
proof -
  show "min e (sg_device_size a) \<le> sg_cursor (set_cursor_at_least e a)"
    by (auto simp: set_cursor_at_least_def Let_def min_def)
  let ?e = "min e (sg_device_size a)" and ?s = "sg_data_region_start a" and ?z = "sg_segment_size a"
  define k where "k = min ((?e - ?s) div ?z mod 2 ^ 32) (sg_segment_count a - 1)"
  have "k \<le> (?e - ?s) div ?z" unfolding k_def by (meson min.coboundedI1 mod_less_eq_dividend)
  then have "k * ?z \<le> ?e - ?s" by (metis div_times_less_eq_dividend le_trans mult_le_mono1)
  moreover have "?s \<le> sg_cursor a" "0 < sg_segment_count a" "k < sg_segment_count a"
    using g by (auto simp: seg_geometry_def segment_start_def k_def)
  ultimately have k: "k * ?z + ?s \<le> ?e \<or> ?e \<le> sg_cursor a" "k < sg_segment_count a" by linarith+
  have "set_cursor_at_least e a = (if ?e \<le> sg_cursor a then a else a\<lparr>sg_cursor := ?e, sg_open_segment := k\<rparr>)"
    unfolding set_cursor_at_least_def Let_def k_def by auto
  then show "seg_geometry (set_cursor_at_least e a)"
    using g k by (cases "?e \<le> sg_cursor a") (simp_all add: seg_geometry_def segment_start_def add.commute)
qed

lemma block_placed_cursor [simp]: "block_placed (set_cursor_at_least e a) r = block_placed a r"
  by (simp add: block_placed_def)

lemma has_live_iff: "has_live a offs i \<longleftrightarrow> (\<exists>off \<in> set offs. segment_of a off = Some i)"
  unfolding has_live_def set_map image_iff by (metis (no_types))

lemma reconcile_fold_inv:
  assumes "seg_inv a live" "\<not> sg_pinned a" "distinct idxs" "\<forall>i \<in> set idxs. i < sg_segment_count a"
    "set idxs \<inter> set (sg_free_segments a) = {}" "fst ` live \<subseteq> set offs"
  shows "seg_inv (fold (reconcile_one offs) idxs a) live"
  using assms
proof (induction idxs arbitrary: a)
  case (Cons i js)
  show ?case
  proof (cases "i = sg_open_segment a \<or> has_live a offs i")
    case True
    then show ?thesis using Cons by (simp add: reconcile_one_def)
  next
    case False
    let ?b = "a\<lparr>sg_segments := (sg_segments a)[i := meta_default], sg_free_segments := sg_free_segments a @ [i]\<rparr>"
    have "segment_of a (fst r) \<noteq> Some i" if "r \<in> live" for r
      using that False Cons.prems(6) unfolding has_live_iff by blast
    then have "seg_inv ?b live" using release_segment [OF Cons.prems(1,2)] False Cons.prems(4,5) by auto
    moreover have "fold (reconcile_one offs) (i # js) a = fold (reconcile_one offs) js ?b"
      using False by (simp add: reconcile_one_def)
    ultimately show ?thesis using Cons.IH [of ?b] Cons.prems by simp
  qed
qed simp

lemma seg_inv_no_free:
  assumes "seg_geometry a" "disjoint_regions live" "\<And>r. r \<in> live \<Longrightarrow> region_held a r \<and> block_placed a r"
  shows "seg_inv (a\<lparr>sg_free_segments := []\<rparr>) live"
  using assms
  by (auto simp: seg_inv_def seg_geometry_def free_list_ok_def region_held_def block_placed_def used_at_def
      segment_start_def)

lemma reconcile_inv:
  assumes "seg_geometry a" "disjoint_regions live" "\<not> sg_pinned a" "fst ` live \<subseteq> set offs"
    "\<And>r. r \<in> live \<Longrightarrow> region_held a r \<and> block_placed a r"
  shows "seg_inv (reconcile_recovered_free_list offs a) live"
proof -
  have len: "length (sg_segments a) = sg_segment_count a" and opn: "sg_open_segment a < sg_segment_count a"
    using assms(1) by (simp_all add: seg_geometry_def)
  have "j < sg_segment_count a" if "j < frontier_next a" for j
    using that opn unfolding frontier_iff [OF len] by auto
  then have "\<forall>i \<in> set [0..<frontier_next a]. i < sg_segment_count a" by auto
  then show ?thesis
    using reconcile_fold_inv [OF seg_inv_no_free [OF assms(1,2,5)], of "[0..<frontier_next a]" offs] assms(3,4)
    by (simp add: reconcile_recovered_free_list_def frontier_next_def Let_def)
qed

text \<open>Moving the cursor past the highest live record puts every live record of the open segment below it.\<close>

lemma recovered_held:
  assumes rec: "recoverable rs a live" and acc: "accounted a live" and r: "(off, n) \<in> live"
    and hi: "hi \<in> fst ` live" "off \<le> hi"
    and c: "div_ceil (hi + rs hi) (sg_alignment a) * sg_alignment a = e"
  shows "region_held (set_cursor_at_least e a) (off, n)"
proof -
  have g: "seg_geometry a" using rec by (simp add: recoverable_def)
  obtain i where i: "i < sg_segment_count a" "segment_start a i \<le> off" "off + n \<le> segment_start a (Suc i)" "0 < n"
    using rec r by (fastforce simp: recoverable_def)
  obtain m where m: "(hi, m) \<in> live" using hi(1) by auto
  have e: "hi + m \<le> e" and mpos: "0 < m" and mdev: "hi + m \<le> sg_device_size a"
    proof -
    show "hi + m \<le> e" "0 < m" using rec m c by (fastforce simp: recoverable_def)+
    obtain k where "k < sg_segment_count a" "hi + m \<le> segment_start a (Suc k)"
      using rec m by (fastforce simp: recoverable_def)
    then show "hi + m \<le> sg_device_size a" using segment_end_in_device [OF g] le_trans by blast
  qed
  have "off + n \<le> hi + m"
  proof (cases "(off, n) = (hi, m)")
    case False
    then have "span (off, n) \<inter> span (hi, m) = {}"
      using rec r m unfolding recoverable_def disjoint_regions_def by blast
    then have "hi \<notin> span (off, n)" using mpos by (auto simp: span_def)
    then show ?thesis using hi(2) by (simp add: span_def)
  qed simp
  then have "off + n \<le> sg_cursor (set_cursor_at_least e a)"
    using set_cursor_geometry(2) [OF g, of e] e mdev by linarith
  moreover have "0 < used_at a i"
    using acc r segment_of_iff [of a off i] g i unfolding accounted_def seg_geometry_def by fastforce
  ultimately show ?thesis using i by (auto simp: region_held_def used_at_def intro!: exI [of _ i])
qed

lemma recover_frontier_inv:
  assumes "recoverable rs a live" "accounted a live" "set offs = fst ` live"
  shows "seg_inv (recover_frontier rs offs a) live"
proof (cases offs)
  case Nil
  then have "live = {}" using assms(3) by auto
  then show ?thesis using reconcile_inv [of a "{}" offs] assms(1) Nil
    by (simp add: recover_frontier_def recoverable_def disjoint_regions_def)
next
  case (Cons o1 os)
  let ?hi = "Max (set offs)"
  define e where "e = div_ceil (?hi + rs ?hi) (sg_alignment a) * sg_alignment a"
  have hi: "?hi \<in> fst ` live" using assms(3) Cons by (metis List.finite_set Max_in list.set_intros(1) empty_iff)
  have top: "fst r \<le> ?hi" if "r \<in> live" for r using assms(3) that by (metis List.finite_set Max_ge imageI)
  have g: "seg_geometry (set_cursor_at_least e a)"
    using set_cursor_geometry(1) assms(1) by (simp add: recoverable_def)
  have held: "region_held (set_cursor_at_least e a) r \<and> block_placed (set_cursor_at_least e a) r" if m: "r \<in> live" for r
  proof -
    obtain off n where r: "r = (off, n)" by fastforce
    have "region_held (set_cursor_at_least e a) (off, n)"
      using recovered_held [OF assms(1,2) _ hi _ e_def [symmetric]] m top [OF m] r by simp
    moreover have "block_placed a (off, n)" using assms(1) m r by (auto simp: recoverable_def)
    ultimately show ?thesis by (simp add: r)
  qed
  have "recover_frontier rs offs a = reconcile_recovered_free_list offs (set_cursor_at_least e a)"
    using Cons by (simp add: recover_frontier_def e_def Let_def)
  then show ?thesis using reconcile_inv [where offs = offs, OF g _ _ _ held] assms(1,3) by (simp add: recoverable_def)
qed

text \<open>C32: recovery from a crash.  The header is any unpinned one of sound geometry, whatever its cursor inside
  the open segment and its list of reusable segments are.  The live records do not overlap; each is non-empty, placed as
  packed mode requires, inside one segment, and ends no later than the block-aligned end computed from the
  size read from its header; and every segment that holds one is accounted as used in the header.  Then after
  moving the cursor past the highest live record and rebuilding the list from the live offsets, every history
  that \<open>seg_run\<close> admits from there (with its conditions on pins and on rolled back batches) keeps the surviving
  and the new records disjoint, inside the device, each in one segment, and placed as packed mode requires.\<close>

theorem segment_recovery_safe:
  assumes "recoverable rs a live" "accounted a live" "set offs = fst ` live"
    "seg_run (recover_frontier rs offs a) live b live'"
  shows "disjoint_regions live' \<and>
    (\<forall>(off, n) \<in> live'. sg_data_region_start b \<le> off \<and> off + n \<le> sg_device_size b \<and> block_placed b (off, n) \<and>
      (\<exists>i < sg_segment_count b. segment_start b i \<le> off \<and> off + n \<le> segment_start b (Suc i)))"
  using seg_inv_regions [OF seg_run_inv [OF assms(4) recover_frontier_inv [OF assms(1-3)]]] .

section \<open>Three histories that lose live records\<close>

text \<open>A device with four segments of two blocks each.  A history is a list of
  commands; \<open>seg_exec\<close> returns what each of them handed out.\<close>

datatype seg_cmd = Allocate nat | Release nat nat | Reclaim_dead "nat list" | Pinned bool

fun seg_exec :: "seg_cmd list \<Rightarrow> segment_allocator \<Rightarrow> nat option list \<times> segment_allocator" where
  "seg_exec [] a = ([], a)"
| "seg_exec (Allocate sz # cs) a =
    (case seg_allocate a sz of
       (Inr off, a') \<Rightarrow> (case seg_exec cs a' of (out, b) \<Rightarrow> (Some off # out, b))
     | (Inl e, a') \<Rightarrow> (case seg_exec cs a' of (out, b) \<Rightarrow> (None # out, b)))"
| "seg_exec (Release off sz # cs) a = (case seg_exec cs (snd (seg_free a off sz)) of (out, b) \<Rightarrow> (None # out, b))"
| "seg_exec (Reclaim_dead offs # cs) a =
    (case seg_exec cs (snd (reclaim_fully_dead_segments a offs)) of (out, b) \<Rightarrow> (None # out, b))"
| "seg_exec (Pinned p # cs) a = (case seg_exec cs (set_lifecycle_pinned p a) of (out, b) \<Rightarrow> (None # out, b))"

definition four_segments :: "nat list \<Rightarrow> nat list \<Rightarrow> nat list \<Rightarrow> nat \<Rightarrow> nat \<Rightarrow> bool \<Rightarrow> segment_allocator" where
  "four_segments used dead free_segs open_seg cur pinned =
    \<lparr>sg_data_region_start = 1048576, sg_device_size = 1048576 + 4 * 8192, sg_alignment = 4096,
     sg_device_id = replicate 16 0, sg_segment_size = 8192, sg_segment_count = 4,
     sg_segments = map (\<lambda>(u, d). \<lparr>sm_used = u, sm_dead = d\<rparr>) (zip used dead),
     sg_free_segments = free_segs, sg_open_segment = open_seg, sg_cursor = 1048576 + cur, sg_packed = False,
     sg_redo_log = False, sg_redo_device_id = 0, sg_pinned = pinned\<rparr>"

lemma upt4: "[0..<4] = [0, 1, 2, 3::nat]"
  by (simp add: upt_rec)

lemma replicate4: "replicate 4 x = [x, x, x, x]"
  by (simp add: numeral_eq_Suc)

lemmas seg_eval = four_segments_def seg_allocate_def seg_align_reservation_def div_ceil_def wrapping_mul64_def
  place_offset_def append_at_def advance_to_next_segment_def frontier_next_def highest_used_def
  rposition_def open_at_def segment_start_def seg_free_def checked_add64_def U64_MAX_def segment_of_def
  reclaim_fully_dead_segments_def reclaim_one_def has_live_def meta_default_def upt4 Let_def

lemma format_four:
  "seg_new 1081344 4096 (replicate 16 0) 8192 = Inr (four_segments [0,0,0,0] [0,0,0,0] [] 0 0 False)"
  by (simp add: seg_new_def four_segments_def DATA_REGION_OFFSET_def meta_default_def replicate4)

lemma upt3: "[0..<3] = [0, 1, 2::nat]"
  by (simp add: upt_rec)

lemma pin_four: "set_lifecycle_pinned b (four_segments u d f i c p) = four_segments u d f i c b"
  by (simp add: set_lifecycle_pinned_def four_segments_def)

lemma step_1:
  "seg_allocate (four_segments [0,0,0,0] [0,0,0,0] [] 0 0 False) 8192 =
    (Inr 1048576, (four_segments [8192,0,0,0] [0,0,0,0] [] 0 8192 False))"
  by (simp add: seg_eval seg_place.simps)

lemma step_2:
  "seg_allocate (four_segments [8192,0,0,0] [0,0,0,0] [] 0 8192 False) 8192 =
    (Inr 1056768, (four_segments [8192,8192,0,0] [0,0,0,0] [] 1 16384 False))"
  by (simp add: seg_eval seg_place.simps)

lemma step_3:
  "seg_allocate (four_segments [8192,8192,0,0] [0,0,0,0] [] 1 16384 False) 8192 =
    (Inr 1064960, (four_segments [8192,8192,8192,0] [0,0,0,0] [] 2 24576 False))"
  by (simp add: seg_eval seg_place.simps)

lemma step_4:
  "seg_free (four_segments [8192,8192,8192,0] [0,0,0,0] [] 2 24576 False) 1048576 8192 =
    (Inr (), (four_segments [8192,8192,8192,0] [8192,0,0,0] [] 2 24576 False))"
  by (simp add: seg_eval)

lemma step_5:
  "reclaim_fully_dead_segments (four_segments [8192,8192,8192,0] [8192,0,0,0] [] 2 24576 False) [1056768, 1064960] =
    ([0], (four_segments [0,8192,8192,0] [0,0,0,0] [0] 2 24576 False))"
  by (simp add: seg_eval)

lemma step_6:
  "seg_allocate (four_segments [0,8192,8192,0] [0,0,0,0] [0] 2 24576 False) 8192 =
    (Inr 1048576, (four_segments [8192,8192,8192,0] [0,0,0,0] [] 0 8192 False))"
  by (simp add: seg_eval seg_place.simps)

lemma batch_1:
  "seg_allocate (four_segments [8192,8192,8192,0] [0,0,0,0] [] 0 8192 False) 8192 =
    (Inr 1073152, (four_segments [8192,8192,8192,8192] [0,0,0,0] [] 3 32768 False))"
  by (simp add: seg_eval seg_place.simps)

lemma batch_2:
  "seg_allocate (four_segments [8192,0,0,0] [0,0,0,0] [] 0 8192 False) 8192 =
    (Inr 1056768, (four_segments [8192,8192,0,0] [0,0,0,0] [] 1 16384 False))"
  by (simp add: seg_eval seg_place.simps)

lemma pin_1:
  "seg_free (four_segments [8192,8192,8192,0] [0,0,0,0] [] 0 8192 False) 1064960 8192 =
    (Inr (), (four_segments [8192,8192,8192,0] [0,0,8192,0] [] 0 8192 False))"
  by (simp add: seg_eval)

lemma pin_2:
  "reclaim_fully_dead_segments (four_segments [8192,8192,8192,0] [0,0,8192,0] [] 0 8192 False) [1048576, 1056768] =
    ([2], (four_segments [8192,8192,0,0] [0,0,0,0] [2] 0 8192 False))"
  by (simp add: seg_eval)

lemma pin_3:
  "seg_allocate (four_segments [8192,8192,0,0] [0,0,0,0] [2] 0 8192 True) 8192 =
    (Inr 1064960, (four_segments [8192,8192,8192,0] [0,0,0,0] [2] 2 24576 True))"
  by (simp add: seg_eval seg_place.simps)

lemma pin_4:
  "seg_allocate (four_segments [8192,8192,8192,0] [0,0,0,0] [2] 2 24576 False) 8192 =
    (Inr 1064960, (four_segments [8192,8192,16384,0] [0,0,0,0] [] 2 24576 False))"
  by (simp add: seg_eval seg_place.simps)

lemma crash_1:
  "seg_allocate (four_segments [8192,8192,0,0] [0,0,0,0] [] 1 16384 False) 4096 =
    (Inr 1064960, (four_segments [8192,8192,4096,0] [0,0,0,0] [] 2 20480 False))"
  by (simp add: seg_eval seg_place.simps)

lemma crash_2:
  "seg_free (four_segments [8192,8192,4096,0] [0,0,0,0] [] 2 20480 False) 1048576 8192 =
    (Inr (), (four_segments [8192,8192,4096,0] [8192,0,0,0] [] 2 20480 False))"
  by (simp add: seg_eval)

lemma crash_3:
  "recover_frontier (\<lambda>off. if off = 1064960 then 4096 else 8192) [1056768, 1064960] (four_segments [8192,8192,0,0] [0,0,0,0] [] 1 16384 False) = (four_segments [0,8192,0,0] [0,0,0,0] [0] 2 20480 False)"
  by (simp add: seg_eval recover_frontier_def set_cursor_at_least_def reconcile_recovered_free_list_def reconcile_one_def upt3)

lemma crash_4:
  "seg_allocate (four_segments [0,8192,0,0] [0,0,0,0] [0] 2 20480 False) 8192 =
    (Inr 1048576, (four_segments [8192,8192,0,0] [0,0,0,0] [] 0 8192 False))"
  by (simp add: seg_eval seg_place.simps)

lemma crash_5:
  "seg_allocate (four_segments [8192,8192,0,0] [0,0,0,0] [] 0 8192 False) 4096 =
    (Inr 1064960, (four_segments [8192,8192,4096,0] [0,0,0,0] [] 2 20480 False))"
  by (simp add: seg_eval seg_place.simps)

lemmas seg_steps = step_1 step_2 step_3 step_4 step_5 step_6 batch_1 batch_2 pin_1 pin_2 pin_3 pin_4
  crash_1 crash_2 crash_3 crash_4 crash_5 pin_four

text \<open>\<open>restore_cursor\<close> resets every segment between the one open before the batch and the one open after it.
  When a reused low segment was open before, the segments in between hold live records: after the rollback
  the second record of the history, never freed, is handed out again.\<close>

lemma rollback_reopens_live_segment:
  "\<exists>fresh a p b. seg_new 1081344 4096 (replicate 16 0) 8192 = Inr fresh \<and>
     seg_exec [Allocate 8192, Allocate 8192, Allocate 8192, Release 1048576 8192,
      Reclaim_dead [1056768, 1064960], Allocate 8192] fresh =
        ([Some 1048576, Some 1056768, Some 1064960, None, None, Some 1048576], a) \<and>
    seg_reserve_batch a [8192] = (Inr p, b) \<and>
    fst (seg_exec [Allocate 8192] (seg_rollback_pending p b)) = [Some 1056768]"
proof -
  let ?a = "four_segments [8192,8192,8192,0] [0,0,0,0] [] 0 8192 False"
  let ?b = "four_segments [8192,8192,8192,8192] [0,0,0,0] [] 3 32768 False"
  let ?p = "\<lparr>sp_regions = [Some (1073152, 8192)], sp_pre_cursor = 1056768, sp_pre_open_segment = 0,
             sp_pre_open_used = 8192\<rparr>"
  have batch: "seg_reserve_batch ?a [8192] = (Inr ?p, ?b)"
    unfolding seg_reserve_batch_def seg_allocate_batch.simps batch_1
    by (simp add: Let_def) (simp add: four_segments_def seg_align_reservation_def div_ceil_def wrapping_mul64_def)
  have undone: "seg_rollback_pending ?p ?b = four_segments [8192,0,0,0] [0,0,0,0] [] 0 8192 False"
    by (simp add: seg_rollback_pending_def restore_cursor_def four_segments_def upt_rec)
  show ?thesis
    by (rule exI [of _ "four_segments [0,0,0,0] [0,0,0,0] [] 0 0 False"], rule exI [of _ ?a],
        rule exI [of _ ?p], rule exI [of _ ?b]) (simp add: format_four seg_steps batch undone del: One_nat_def)
qed

text \<open>While a backup pins the allocator, it advances past the highest used segment without looking at the list
  of reusable segments, so it can open a segment that is on that list.  After the pin is released the segment
  is popped and opened again: the record written under the pin is handed out again.\<close>

lemma pin_reopens_live_segment:
  "\<exists>fresh. seg_new 1081344 4096 (replicate 16 0) 8192 = Inr fresh \<and>
    fst (seg_exec [Allocate 8192, Allocate 8192, Allocate 8192, Release 1048576 8192,
      Reclaim_dead [1056768, 1064960], Allocate 8192, Release 1064960 8192, Reclaim_dead [1048576, 1056768],
      Pinned True, Allocate 8192, Pinned False, Allocate 8192] fresh) =
    [Some 1048576, Some 1056768, Some 1064960, None, None, Some 1048576, None, None, None, Some 1064960, None,
     Some 1064960]"
  by (simp add: format_four seg_steps del: One_nat_def)

text \<open>Recovery restores the cursor and the list of reusable segments but not the used bytes of segments filled
  after the last checkpoint.  Here the header is the one written after the first two records; the third record
  is written, the first one freed, and the process crashes.  After recovery the second allocation is handed
  the offset of the third record, which is live.\<close>

lemma recovery_reopens_live_segment:
  "\<exists>fresh header crashed. seg_new 1081344 4096 (replicate 16 0) 8192 = Inr fresh \<and>
     seg_exec [Allocate 8192, Allocate 8192] fresh = ([Some 1048576, Some 1056768], header) \<and>
    seg_exec [Allocate 4096, Release 1048576 8192] header = ([Some 1064960, None], crashed) \<and>
    fst (seg_exec [Allocate 8192, Allocate 4096]
      (recover_frontier (\<lambda>off. if off = 1064960 then 4096 else 8192) [1056768, 1064960] header)) =
    [Some 1048576, Some 1064960]"
  by (simp add: format_four seg_steps del: One_nat_def)

section \<open>Instances of the properties\<close>

lemma four_set_packed: "seg_set_packed False (four_segments u d f i c p) = four_segments u d f i c p"
  by (simp add: seg_set_packed_def four_segments_def)

lemma four_align: "seg_align_reservation (four_segments u d f i c p) 8192 = 8192"
  by (simp add: four_segments_def seg_align_reservation_def div_ceil_def wrapping_mul64_def)

lemma four_bounds: "(4096::nat) dvd DATA_REGION_OFFSET" "(1081344 - DATA_REGION_OFFSET) div 8192 < 2 ^ 32"
  by (simp_all add: DATA_REGION_OFFSET_def)

lemma four_run:
  "seg_run (seg_set_packed False (four_segments [0,0,0,0] [0,0,0,0] [] 0 0 False)) {}
     (four_segments [8192,8192,0,0] [0,0,0,0] [] 1 16384 False) {(1056768, 8192), (1048576, 8192)}"
  using seg_run.Alloc [OF seg_run.Alloc [OF seg_run.Start step_1] step_2] by (simp add: four_align four_set_packed)

theorem segment_allocation_safe_witness:
  "\<exists>a live. seg_run (seg_set_packed False (four_segments [0,0,0,0] [0,0,0,0] [] 0 0 False)) {} a live \<and>
    (1056768, 8192) \<in> live \<and> (1048576, 8192) \<in> live \<and> disjoint_regions live"
  using segment_allocation_safe [OF format_four _ four_bounds four_run] four_run by fastforce

theorem segment_batch_rollback_witness:
  "\<exists>p b. seg_reserve_batch (four_segments [8192,0,0,0] [0,0,0,0] [] 0 8192 False) [8192] = (Inr p, b) \<and>
    b \<noteq> four_segments [8192,0,0,0] [0,0,0,0] [] 0 8192 False \<and>
    seg_rollback_pending p b = four_segments [8192,0,0,0] [0,0,0,0] [] 0 8192 False"
proof -
  let ?a = "four_segments [8192,0,0,0] [0,0,0,0] [] 0 8192 False"
  let ?b = "four_segments [8192,8192,0,0] [0,0,0,0] [] 1 16384 False"
  have "seg_run (seg_set_packed False (four_segments [0,0,0,0] [0,0,0,0] [] 0 0 False)) {} ?a {(1048576, 8192)}"
    using seg_run.Alloc [OF seg_run.Start step_1] by (simp add: four_align four_set_packed)
  note roll = segment_batch_rollback [OF format_four _ four_bounds this]
  obtain p where p: "seg_reserve_batch ?a [8192] = (Inr p, ?b)"
    unfolding seg_reserve_batch_def seg_allocate_batch.simps batch_2 by (simp add: Let_def)
  have "sg_open_segment ?a = 0" "sg_open_segment ?b = 1" "used_at ?a 1 = 0" "sg_free_segments ?b = sg_free_segments ?a"
    by (simp_all add: four_segments_def used_at_def)
  moreover have "{0 <.. 1 :: nat} = {1}" by auto
  ultimately have "seg_rollback_pending p ?b = ?a" using roll [OF _ p] by simp
  moreover have "?b \<noteq> ?a" using \<open>sg_open_segment ?a = 0\<close> \<open>sg_open_segment ?b = 1\<close> by force
  ultimately show ?thesis using p by blast
qed

theorem segment_allocation_complete_witness:
  "\<exists>off b. seg_allocate (four_segments [8192,8192,0,0] [0,0,0,0] [] 1 16384 False) 8192 = (Inr off, b)"
  by (rule segment_allocation_complete [OF format_four _ four_bounds four_run, THEN iffD2])
    (simp_all add: seg_eval)

lemma four_recoverable:
  "recoverable (\<lambda>off. 8192) (four_segments [8192,8192,0,0] [0,0,0,0] [] 1 16384 False) {(1056768, 8192)}"
proof -
  have "\<exists>i < 4. 1048576 + i * 8192 \<le> (1056768::nat) \<and> 1056768 + 8192 \<le> 1048576 + Suc i * 8192"
    by (rule exI [of _ 1]) simp
  then show ?thesis
    by (simp add: recoverable_def seg_geometry_def disjoint_regions_def block_placed_def four_segments_def
        segment_start_def div_ceil_def)
qed

theorem segment_recovery_safe_witness:
  "\<exists>b live. seg_run (recover_frontier (\<lambda>off. 8192) [1056768]
      (four_segments [8192,8192,0,0] [0,0,0,0] [] 1 16384 False)) {(1056768, 8192)} b live \<and>
    disjoint_regions live \<and> (1056768, 8192) \<in> live"
proof -
  let ?a = "four_segments [8192,8192,0,0] [0,0,0,0] [] 1 16384 False"
  have acc: "accounted ?a {(1056768, 8192)}"
    by (auto simp: accounted_def segment_of_def four_segments_def used_at_def)
  show ?thesis
    using segment_recovery_safe [OF four_recoverable acc, of "[1056768]", OF _ seg_run.Start] seg_run.Start by fastforce
qed

end
