(* ===== verification/Record_Store.thy ===== *)
theory Record_Store
  imports Segment_Allocator
begin

text \<open>
  The allocator of one store behind the \<open>RecordAllocator\<close> trait (\<open>src/src/allocator.rs\<close>): either the
  in-place space allocator or the log-structured one.  The locale states what the engine relies on (a
  fresh region meets no live one, a failed operation keeps every live region, a free removes only the
  region it names); it is interpreted on both allocators and on the dispatching store.
\<close>

section \<open>Dispatch\<close>

datatype store_alloc = SlotStore slot_allocator | SegStore segment_allocator

text \<open>The errors of the log-structured allocator are converted to those of the trait.\<close>

fun from_segment_error :: "segment_allocator_error \<Rightarrow> allocator_error" where
  "from_segment_error (SegDeviceFull req sz open_seg count) = DeviceFull req 0"
| "from_segment_error (SegInvalidFree off sz) = InvalidFree off sz"
| "from_segment_error SegDevice = AllocDevice"
| "from_segment_error SegGetrandom = AllocGetrandom"
| "from_segment_error SegNoPersistedState = NoPersistedState"
| "from_segment_error (SegHeaderCorruption expected actual) = HeaderCorruption expected actual"
| "from_segment_error (SegUnsupportedVersion v) = UnsupportedVersion v"
| "from_segment_error (SegmentTableOverflow n max_n) = FreelistOverflow n max_n"
| "from_segment_error (InvalidSegmentSize sz al cap) = AllocInvalidSegmentSize sz al cap"
| "from_segment_error (SegCorruptedHeader msg) = CorruptedHeader"

fun is_log_structured :: "store_alloc \<Rightarrow> bool" where
  "is_log_structured (SlotStore a) = False"
| "is_log_structured (SegStore a) = True"

fun store_is_packed :: "store_alloc \<Rightarrow> bool" where
  "store_is_packed (SlotStore a) = sa_packed a"
| "store_is_packed (SegStore a) = sg_packed a"

fun store_alignment :: "store_alloc \<Rightarrow> nat" where
  "store_alignment (SlotStore a) = sa_alignment a"
| "store_alignment (SegStore a) = sg_alignment a"

text \<open>Only the in-place allocator journals its allocations and frees.\<close>

fun store_journals :: "store_alloc \<Rightarrow> bool" where
  "store_journals (SlotStore a) = sa_redo_log a"
| "store_journals (SegStore a) = False"

fun store_reservation :: "store_alloc \<Rightarrow> nat \<Rightarrow> nat" where
  "store_reservation (SlotStore a) sz = align_reservation a sz"
| "store_reservation (SegStore a) sz = seg_align_reservation a sz"

fun store_allocate :: "store_alloc \<Rightarrow> nat \<Rightarrow> bool \<Rightarrow> (allocator_error + nat) \<times> store_alloc \<times> redo_region_op list" where
  "store_allocate (SlotStore a) sz flush_ok =
    (case sa_allocate a sz flush_ok of
       (Inr off, a', ops) \<Rightarrow> (Inr off, SlotStore a', ops)
     | (Inl e, a', ops) \<Rightarrow> (Inl e, SlotStore a', ops))"
| "store_allocate (SegStore a) sz flush_ok =
    (case seg_allocate a sz of
       (Inr off, a') \<Rightarrow> (Inr off, SegStore a', [])
     | (Inl e, a') \<Rightarrow> (Inl (from_segment_error e), SegStore a', []))"

fun store_free :: "store_alloc \<Rightarrow> nat \<Rightarrow> nat \<Rightarrow> bool \<Rightarrow> (allocator_error + unit) \<times> store_alloc \<times> redo_region_op list" where
  "store_free (SlotStore a) off sz flush_ok =
    (case sa_free a off sz flush_ok of
       (Inr u, a', ops) \<Rightarrow> (Inr u, SlotStore a', ops)
     | (Inl e, a', ops) \<Rightarrow> (Inl e, SlotStore a', ops))"
| "store_free (SegStore a) off sz flush_ok =
    (case seg_free a off sz of
       (Inr u, a') \<Rightarrow> (Inr u, SegStore a', [])
     | (Inl e, a') \<Rightarrow> (Inl (from_segment_error e), SegStore a', []))"

section \<open>The contract\<close>

locale record_allocator =
  fixes allocate :: "'a \<Rightarrow> nat \<Rightarrow> bool \<Rightarrow> ('e + nat) \<times> 'a \<times> redo_region_op list"
    and free_region :: "'a \<Rightarrow> nat \<Rightarrow> nat \<Rightarrow> bool \<Rightarrow> ('e + unit) \<times> 'a \<times> redo_region_op list"
    and reservation_size :: "'a \<Rightarrow> nat \<Rightarrow> nat"
    and holds :: "'a \<Rightarrow> region set \<Rightarrow> bool"
  assumes allocate_fresh: "holds a live \<Longrightarrow> allocate a sz ok = (Inr off, a', ops) \<Longrightarrow>
      holds a' (insert (off, reservation_size a sz) live) \<and>
      (\<forall>r \<in> live. span r \<inter> span (off, reservation_size a sz) = {})"
    and allocate_failed: "holds a live \<Longrightarrow> allocate a sz ok = (Inl e, a', ops) \<Longrightarrow> holds a' live"
    and allocate_config: "holds a live \<Longrightarrow> allocate a sz ok = (r, a', ops) \<Longrightarrow>
      reservation_size a' n = reservation_size a n"
    and free_removes: "holds a live \<Longrightarrow> (off, reservation_size a sz) \<in> live \<Longrightarrow>
      free_region a off sz ok = (Inr u, a', ops) \<Longrightarrow> holds a' (live - {(off, reservation_size a sz)})"
    and free_failed: "holds a live \<Longrightarrow> free_region a off sz ok = (Inl e, a', ops) \<Longrightarrow> holds a' live"
    and free_config: "holds a live \<Longrightarrow> free_region a off sz ok = (res, a', ops) \<Longrightarrow>
      reservation_size a' n = reservation_size a n"
begin

lemma fresh_offset:
  assumes "holds a live" "allocate a sz ok = (Inr off, a', ops)" "(off', n) \<in> live" "0 < n"
    "0 < reservation_size a sz"
  shows "off' \<noteq> off"
proof
  assume "off' = off"
  then have "off \<in> span (off', n) \<inter> span (off, reservation_size a sz)" using assms(4,5) by (simp add: span_def)
  then show False using allocate_fresh [OF assms(1,2)] assms(3) by blast
qed

lemma free_keeps_others:
  assumes "holds a live" "(off, reservation_size a sz) \<in> live" "free_region a off sz ok = (res, a', ops)"
  obtains live' where "holds a' live'" "live - {(off, reservation_size a sz)} \<subseteq> live'" "live' \<subseteq> live"
proof (cases res)
  case (Inl e)
  then show thesis using that [of live] free_failed [OF assms(1)] assms(3) by auto
next
  case (Inr u)
  then show thesis using that [of "live - {(off, reservation_size a sz)}"] free_removes [OF assms(1,2)] assms(3) by auto
qed

lemma allocate_then_free:
  assumes "holds a live" "allocate a sz ok = (Inr off, b, ops)" "free_region b off sz ok' = (Inr u, c, ops')"
    "0 < reservation_size a sz"
  shows "holds c live"
proof -
  let ?n = "reservation_size a sz"
  have "(off, ?n) \<notin> live"
    using allocate_fresh [OF assms(1,2)] assms(4) by (force simp: span_def)
  then have "insert (off, ?n) live - {(off, ?n)} = live" by simp
  then show ?thesis
    using free_removes [of b "insert (off, ?n) live" off sz] allocate_fresh [OF assms(1,2)] assms(3)
      allocate_config [OF assms(1,2)] by simp
qed

end

section \<open>Both allocators satisfy it\<close>

definition slot_holds :: "slot_allocator \<Rightarrow> region set \<Rightarrow> bool" where
  "slot_holds a live \<longleftrightarrow> sa_inv a \<and> live_ok a live"

fun store_holds :: "store_alloc \<Rightarrow> region set \<Rightarrow> bool" where
  "store_holds (SlotStore a) live = slot_holds a live"
| "store_holds (SegStore a) live = seg_inv a live"

lemma reserve_meets_no_live:
  assumes "sa_inv a" "live_ok a live" "reserve_aligned a n = (Inr (off, r), a')" "q \<in> live"
  shows "span q \<inter> span (off, n) = {}"
proof -
  have "span q \<subseteq> {sa_data_region_start a ..< sa_next_offset a}" "span q \<inter> space (sa_view a) = {}"
    using assms(2,4) by (auto simp: live_ok_def)
  moreover have "span (off, n) \<subseteq> space (sa_view a) \<union> {sa_next_offset a ..< sa_next_offset a'}"
    using reserve_space(3) [OF assms(1,3)] by (simp add: span_def)
  ultimately show ?thesis by fastforce
qed

lemma slot_step:
  assumes "slot_holds a live" "alloc_run a live a' live' ops"
  shows "slot_holds a' live'" "align_reservation a' n = align_reservation a n"
proof -
  show "slot_holds a' live'" using alloc_run_ok [OF assms(2)] assms(1) by (simp add: slot_holds_def)
  have "sa_config a' = sa_config a" using alloc_run_config [OF assms(2)] assms(1) by (simp add: slot_holds_def)
  then show "align_reservation a' n = align_reservation a n"
    by (simp add: sa_config_def align_reservation_def align_up_def)
qed

interpretation slot: record_allocator sa_allocate sa_free align_reservation slot_holds
proof
  fix a live sz ok off a' ops
  assume h: "slot_holds a live" and al: "sa_allocate a sz ok = (Inr off, a', ops)"
  obtain r where r: "reserve_aligned a (align_reservation a sz) = (Inr (off, r), a')"
    using sa_allocate_ok [OF _ al] h by (auto simp: slot_holds_def)
  have "span q \<inter> span (off, align_reservation a sz) = {}" if "q \<in> live" for q
    using reserve_meets_no_live [OF _ _ r that] h by (simp add: slot_holds_def)
  then show "slot_holds a' (insert (off, align_reservation a sz) live) \<and>
      (\<forall>q \<in> live. span q \<inter> span (off, align_reservation a sz) = {})"
    using slot_step(1) [OF h run_allocate [OF run_start al]] by blast
next
  fix a live sz ok e a' ops
  assume "slot_holds a live" "sa_allocate a sz ok = (Inl e, a', ops)"
  then show "slot_holds a' live" using slot_step(1) [OF _ run_allocate_fail [OF run_start]] by blast
next
  fix a live sz ok r a' ops n
  assume h: "slot_holds a live" and al: "sa_allocate a sz ok = (r, a', ops)"
  then show "align_reservation a' n = align_reservation a n"
    using slot_step(2) [OF h run_allocate [OF run_start]] slot_step(2) [OF h run_allocate_fail [OF run_start]]
    by (cases r) blast+
next
  fix a live off sz ok u a' ops
  assume "slot_holds a live" "(off, align_reservation a sz) \<in> live" "sa_free a off sz ok = (Inr u, a', ops)"
  then show "slot_holds a' (live - {(off, align_reservation a sz)})"
    using slot_step(1) [OF _ run_free [OF run_start]] by simp
next
  fix a live off sz ok e a' ops
  assume "slot_holds a live" "sa_free a off sz ok = (Inl e, a', ops)"
  then show "slot_holds a' live" using slot_step(1) [OF _ run_free_fail [OF run_start]] by blast
next
  fix a live off sz ok r a' ops n
  assume h: "slot_holds a live" and fr: "sa_free a off sz ok = (r, a', ops)"
  have "sa_inv a" using h by (simp add: slot_holds_def)
  then show "align_reservation a' n = align_reservation a n"
    using fr by (cases rule: sa_free_cases [where off = off and sz = sz and ok = ok])
      (auto simp: release_def align_reservation_def align_up_def split: prod.splits)
qed

definition seg_allocate_j ::
  "segment_allocator \<Rightarrow> nat \<Rightarrow> bool \<Rightarrow> (segment_allocator_error + nat) \<times> segment_allocator \<times> redo_region_op list" where
  "seg_allocate_j a sz ok = (case seg_allocate a sz of (r, a') \<Rightarrow> (r, a', []))"

definition seg_free_j ::
  "segment_allocator \<Rightarrow> nat \<Rightarrow> nat \<Rightarrow> bool \<Rightarrow> (segment_allocator_error + unit) \<times> segment_allocator \<times> redo_region_op list" where
  "seg_free_j a off sz ok = (case seg_free a off sz of (r, a') \<Rightarrow> (r, a', []))"

lemma seg_place_fresh:
  assumes "seg_inv a live" "0 < n" "seg_place a n = (Inr off, b)" "q \<in> live"
  shows "span q \<inter> span (off, n) = {}"
  using assms
proof (induction a n rule: seg_place.induct)
  case (1 a n)
  have g: "seg_geometry a" using 1(2) by (simp add: seg_inv_def)
  show ?case
  proof (cases "place_offset a n + n \<le> segment_start a (sg_open_segment a) + sg_segment_size a")
    case True
    then have "off = place_offset a n" using 1(4) by (simp add: seg_place.simps [of a n] Let_def)
    then show ?thesis
      using fresh_disjoint [OF 1(2) place_offset_bounds(1) [OF g] _ 1(5), of n n] True by (simp add: segment_start_Suc)
  next
    case False
    obtain ok a' where adv: "advance_to_next_segment a = (ok, a')" by fastforce
    have ok using 1(4) False adv by (auto simp: seg_place.simps [of a n] Let_def split: bool.splits)
    then have "seg_place a' n = (Inr off, b)" using 1(4) False adv by (simp add: seg_place.simps [of a n] Let_def)
    moreover have "seg_inv a' live" using advance_unused [OF 1(2)] adv \<open>ok\<close> by simp
    ultimately show ?thesis using 1(1) [OF refl refl False adv [symmetric]] \<open>ok\<close> 1(3,5) by simp
  qed
qed

lemma seg_free_result:
  assumes "seg_free a off sz = (r, a')"
  shows "sg_packed a' = sg_packed a \<and> sg_alignment a' = sg_alignment a \<and> (\<forall>e. r = Inl e \<longrightarrow> a' = a)"
  using assms by (auto simp: seg_free_def Let_def split: option.splits if_splits)

interpretation seg: record_allocator seg_allocate_j seg_free_j seg_align_reservation seg_inv
proof
  fix a live sz ok off a' ops
  assume h: "seg_inv a live" and "seg_allocate_j a sz ok = (Inr off, a', ops)"
  then have al: "seg_allocate a sz = (Inr off, a')" by (simp add: seg_allocate_j_def split: prod.splits)
  then have "0 < seg_align_reservation a sz" "seg_place a (seg_align_reservation a sz) = (Inr off, a')"
    by (auto simp: seg_allocate_def Let_def split: if_splits)
  then show "seg_inv a' (insert (off, seg_align_reservation a sz) live) \<and>
      (\<forall>q \<in> live. span q \<inter> span (off, seg_align_reservation a sz) = {})"
    using seg_allocate_inv(1) [OF h al] seg_place_fresh [OF h] by simp
next
  fix a live sz ok e a' ops
  assume h: "seg_inv a live" and "seg_allocate_j a sz ok = (Inl e, a', ops)"
  then have al: "seg_allocate a sz = (Inl e, a')" by (simp add: seg_allocate_j_def split: prod.splits)
  show "seg_inv a' live" using seg_allocate_inv(1) [OF h al] by simp
next
  fix a live sz ok r a' ops n
  assume h: "seg_inv a live" and "seg_allocate_j a sz ok = (r, a', ops)"
  then have al: "seg_allocate a sz = (r, a')" by (simp add: seg_allocate_j_def split: prod.splits)
  show "seg_align_reservation a' n = seg_align_reservation a n"
    by (rule seg_align_cong [OF seg_allocate_inv(2,3) [OF h al]])
next
  fix a live off sz ok u a' ops
  assume h: "seg_inv a live" and m: "(off, seg_align_reservation a sz) \<in> live"
    and "seg_free_j a off sz ok = (Inr u, a', ops)"
  then have "seg_free a off sz = (Inr (), a')" by (simp add: seg_free_j_def split: prod.splits)
  then have "seg_inv a' live" by (rule seg_free_inv [OF h _ m])
  then show "seg_inv a' (live - {(off, seg_align_reservation a sz)})" by (rule seg_inv_subset) simp
next
  fix a live off sz ok e a' ops
  assume h: "seg_inv a live" and "seg_free_j a off sz ok = (Inl e, a', ops)"
  then have "seg_free a off sz = (Inl e, a')" by (simp add: seg_free_j_def split: prod.splits)
  then show "seg_inv a' live" using seg_free_result h by blast
next
  fix a live off sz ok r a' ops n
  assume h: "seg_inv a live" and "seg_free_j a off sz ok = (r, a', ops)"
  then have "seg_free a off sz = (r, a')" by (simp add: seg_free_j_def split: prod.splits)
  then show "seg_align_reservation a' n = seg_align_reservation a n"
    using seg_free_result seg_align_cong by blast
qed

lemma store_allocate_alt:
  "store_allocate st sz ok =
    (case st of
       SlotStore a \<Rightarrow> (case sa_allocate a sz ok of (r, a', ops) \<Rightarrow> (r, SlotStore a', ops))
     | SegStore a \<Rightarrow> (case seg_allocate_j a sz ok of (r, a', ops) \<Rightarrow> (map_sum from_segment_error id r, SegStore a', ops)))"
  by (cases st) (auto simp: seg_allocate_j_def split: prod.splits sum.splits)

lemma store_free_alt:
  "store_free st off sz ok =
    (case st of
       SlotStore a \<Rightarrow> (case sa_free a off sz ok of (r, a', ops) \<Rightarrow> (r, SlotStore a', ops))
     | SegStore a \<Rightarrow> (case seg_free_j a off sz ok of (r, a', ops) \<Rightarrow> (map_sum from_segment_error id r, SegStore a', ops)))"
  by (cases st) (auto simp: seg_free_j_def split: prod.splits sum.splits)

lemma map_sum_id_Inr: "map_sum f id r = Inr x \<longleftrightarrow> r = Inr x"
  by (cases r) auto

lemma map_sum_id_Inl: "map_sum f id r = Inl y \<longleftrightarrow> (\<exists>e. r = Inl e \<and> y = f e)"
  by (cases r) auto

interpretation store: record_allocator store_allocate store_free store_reservation store_holds
proof
  fix a live sz ok off a' ops
  assume "store_holds a live" "store_allocate a sz ok = (Inr off, a', ops)"
  then show "store_holds a' (insert (off, store_reservation a sz) live) \<and>
      (\<forall>q \<in> live. span q \<inter> span (off, store_reservation a sz) = {})"
    using slot.allocate_fresh seg.allocate_fresh
    by (cases a) (fastforce simp: store_allocate_alt map_sum_id_Inr split: prod.splits)+
next
  fix a live sz ok e a' ops
  assume "store_holds a live" "store_allocate a sz ok = (Inl e, a', ops)"
  then show "store_holds a' live"
    using slot.allocate_failed seg.allocate_failed
    by (cases a) (fastforce simp: store_allocate_alt map_sum_id_Inl split: prod.splits)+
next
  fix a live sz ok r a' ops n
  assume "store_holds a live" "store_allocate a sz ok = (r, a', ops)"
  then show "store_reservation a' n = store_reservation a n"
    using slot.allocate_config seg.allocate_config
    by (cases a) (fastforce simp: store_allocate_alt split: prod.splits)+
next
  fix a live off sz ok u a' ops
  assume "store_holds a live" "(off, store_reservation a sz) \<in> live" "store_free a off sz ok = (Inr u, a', ops)"
  then show "store_holds a' (live - {(off, store_reservation a sz)})"
    using slot.free_removes seg.free_removes
    by (cases a) (fastforce simp: store_free_alt map_sum_id_Inr split: prod.splits)+
next
  fix a live off sz ok e a' ops
  assume "store_holds a live" "store_free a off sz ok = (Inl e, a', ops)"
  then show "store_holds a' live"
    using slot.free_failed seg.free_failed
    by (cases a) (fastforce simp: store_free_alt map_sum_id_Inl split: prod.splits)+
next
  fix a live off sz ok r a' ops n
  assume "store_holds a live" "store_free a off sz ok = (r, a', ops)"
  then show "store_reservation a' n = store_reservation a n"
    using slot.free_config seg.free_config
    by (cases a) (fastforce simp: store_free_alt split: prod.splits)+
qed

section \<open>Addresses on the device\<close>

text \<open>The engine stores offsets in 64-bit fields and uses offset 0 for "none": live regions lie above
  0 and below \<open>2\<^sup>6\<^sup>4\<close>, and a region of a record is never empty.\<close>

locale device_allocator = record_allocator +
  assumes live_bounded: "holds a live \<Longrightarrow> (off, n) \<in> live \<Longrightarrow> 0 < n \<Longrightarrow> 0 < off \<and> off + n \<le> U64_MAX"
    and allocate_positive: "holds a live \<Longrightarrow> 0 < sz \<Longrightarrow> sz < 2 ^ 32 \<Longrightarrow>
      allocate a sz ok = (Inr off, a', ops) \<Longrightarrow> 0 < reservation_size a sz"
    and live_disjoint: "holds a live \<Longrightarrow> r \<in> live \<Longrightarrow> q \<in> live \<Longrightarrow> r \<noteq> q \<Longrightarrow> span r \<inter> span q = {}"
begin

lemma live_same_offset:
  assumes "holds a live" "(off, n) \<in> live" "(off, m) \<in> live" "0 < n" "0 < m"
  shows "n = m"
proof (rule ccontr)
  assume "n \<noteq> m"
  then have "span (off, n) \<inter> span (off, m) = {}" using live_disjoint [OF assms(1-3)] by simp
  moreover have "off \<in> span (off, n) \<inter> span (off, m)" using assms(4,5) by (simp add: span_def)
  ultimately show False by blast
qed

lemma allocate_new:
  assumes "holds a live" "0 < sz" "sz < 2 ^ 32" "allocate a sz ok = (Inr off, a', ops)"
  shows "holds a' (insert (off, reservation_size a sz) live)" "(off, reservation_size a sz) \<notin> live"
    "0 < reservation_size a sz" "0 < off" "off < 2 ^ 64"
    and "\<And>n. (off, n) \<in> live \<Longrightarrow> n = 0"
proof -
  show h: "holds a' (insert (off, reservation_size a sz) live)" and p: "0 < reservation_size a sz"
    using allocate_fresh [OF assms(1,4)] allocate_positive [OF assms] by simp_all
  show "(off, reservation_size a sz) \<notin> live"
    using allocate_fresh [OF assms(1,4)] p by (force simp: span_def)
  show "0 < off" "off < 2 ^ 64" using live_bounded [OF h, of off "reservation_size a sz"] p by (auto simp: U64_MAX_def)
  show "n = 0" if "(off, n) \<in> live" for n
    using fresh_offset [OF assms(1,4) that _ p] by auto
qed

end

fun store_fits :: "store_alloc \<Rightarrow> bool" where
  "store_fits (SlotStore a) = True"
| "store_fits (SegStore a) = (sg_device_size a \<le> U64_MAX \<and> 0 < sg_data_region_start a)"

definition store_ok :: "store_alloc \<Rightarrow> region set \<Rightarrow> bool" where
  "store_ok st live \<longleftrightarrow> store_holds st live \<and> store_fits st"

lemma seg_place_device:
  "sg_device_size (snd (seg_place a n)) = sg_device_size a \<and>
    sg_data_region_start (snd (seg_place a n)) = sg_data_region_start a"
proof (induction a n rule: seg_place.induct)
  case (1 a n)
  obtain ok a' where adv: "advance_to_next_segment a = (ok, a')" by fastforce
  then have keep: "sg_device_size a' = sg_device_size a" "sg_data_region_start a' = sg_data_region_start a"
    by (auto simp: advance_to_next_segment_def open_at_def Let_def split: bool.splits list.splits if_splits)
  show ?case
    using 1 adv keep
    by (cases ok) (simp_all add: seg_place.simps [of a n] Let_def append_at_def)
qed

lemma seg_keeps_device:
  "seg_allocate a sz = (r, b) \<Longrightarrow> sg_device_size b = sg_device_size a \<and> sg_data_region_start b = sg_data_region_start a"
  "seg_free a off sz = (q, b) \<Longrightarrow> sg_device_size b = sg_device_size a \<and> sg_data_region_start b = sg_data_region_start a"
  using seg_place_device [of a "seg_align_reservation a sz"]
  by (auto simp: seg_allocate_def seg_free_def Let_def split: if_splits option.splits)

lemma store_fits_allocate: "store_allocate a sz ok = (r, a', ops) \<Longrightarrow> store_fits a' = store_fits a"
  by (cases a; cases a') (auto dest: seg_keeps_device split: prod.splits sum.splits)

lemma store_fits_free: "store_free a off sz ok = (r, a', ops) \<Longrightarrow> store_fits a' = store_fits a"
  by (cases a; cases a') (auto dest: seg_keeps_device split: prod.splits sum.splits)

lemma slot_live_bounded:
  assumes "slot_holds a live" "(off, n) \<in> live" "0 < n"
  shows "0 < off \<and> off + n \<le> U64_MAX"
proof -
  have sub: "{off ..< off + n} \<subseteq> {sa_data_region_start a ..< sa_next_offset a}"
    using assms(1,2) by (auto simp: slot_holds_def live_ok_def span_def)
  have "off \<in> {off ..< off + n}" "off + n - 1 \<in> {off ..< off + n}" using assms(3) by auto
  then have "sa_data_region_start a \<le> off" "off + n - 1 < sa_next_offset a" using sub by auto
  then show ?thesis using assms(1,3) by (auto simp: slot_holds_def sa_inv_def sa_config_ok_def)
qed

lemma seg_live_bounded:
  assumes "seg_inv a live" "(off, n) \<in> live" "sg_device_size a \<le> U64_MAX" "0 < sg_data_region_start a"
  shows "0 < off \<and> off + n \<le> U64_MAX"
proof -
  obtain i where i: "i < sg_segment_count a" "segment_start a i \<le> off" "off + n \<le> segment_start a (Suc i)"
    using assms(1,2) by (auto simp: seg_inv_def region_held_def)
  moreover have "segment_start a (Suc i) \<le> sg_device_size a"
    using assms(1) i(1) by (intro segment_end_in_device) (simp_all add: seg_inv_def)
  moreover have "sg_data_region_start a \<le> segment_start a i" by (simp add: segment_start_def)
  ultimately show ?thesis using assms(3,4) by linarith
qed

lemma slot_reservation_positive:
  assumes "slot_holds a live" "0 < sz" "sz < 2 ^ 32"
  shows "0 < align_reservation a sz"
proof -
  have cfg: "sa_config_ok a" using assms(1) by (simp add: slot_holds_def sa_inv_def)
  then obtain k where k: "k < 64" "sa_alignment a = 2 ^ k" by (auto simp: sa_config_ok_def)
  have "(2 :: nat) ^ k \<le> 2 ^ 63" using k(1) by (intro power_increasing) simp_all
  then have "sa_alignment a \<le> 2 ^ 63" using k(2) by simp
  then have "sz \<le> align_reservation a sz" using assms(3) by (intro align_reservation_ge [OF cfg]) simp
  then show ?thesis using assms(2) by simp
qed

interpretation dev: device_allocator store_allocate store_free store_reservation store_ok
proof
  fix a live sz ok off a' ops
  assume h: "store_ok a live" and al: "store_allocate a sz ok = (Inr off, a', ops)"
  then show "store_ok a' (insert (off, store_reservation a sz) live) \<and>
      (\<forall>q \<in> live. span q \<inter> span (off, store_reservation a sz) = {})"
    using store.allocate_fresh [of a live, OF _ al] store_fits_allocate [OF al] by (auto simp: store_ok_def)
next
  fix a live sz ok e a' ops
  assume h: "store_ok a live" and al: "store_allocate a sz ok = (Inl e, a', ops)"
  then show "store_ok a' live"
    using store.allocate_failed [of a live, OF _ al] store_fits_allocate [OF al] by (auto simp: store_ok_def)
next
  fix a live sz ok r a' ops n
  assume h: "store_ok a live" and al: "store_allocate a sz ok = (r, a', ops)"
  then show "store_reservation a' n = store_reservation a n"
    using store.allocate_config [of a live, OF _ al] by (auto simp: store_ok_def)
next
  fix a live off sz ok u a' ops
  assume h: "store_ok a live" "(off, store_reservation a sz) \<in> live" and fr: "store_free a off sz ok = (Inr u, a', ops)"
  then show "store_ok a' (live - {(off, store_reservation a sz)})"
    using store.free_removes [of a live, OF _ _ fr] store_fits_free [OF fr] by (auto simp: store_ok_def)
next
  fix a live off sz ok e a' ops
  assume h: "store_ok a live" and fr: "store_free a off sz ok = (Inl e, a', ops)"
  then show "store_ok a' live"
    using store.free_failed [of a live, OF _ fr] store_fits_free [OF fr] by (auto simp: store_ok_def)
next
  fix a live off sz ok r a' ops n
  assume h: "store_ok a live" and fr: "store_free a off sz ok = (r, a', ops)"
  then show "store_reservation a' n = store_reservation a n"
    using store.free_config [of a live, OF _ fr] by (auto simp: store_ok_def)
next
  fix a live off n
  assume "store_ok a live" "(off, n) \<in> live" "0 < n"
  then show "0 < off \<and> off + n \<le> U64_MAX"
    using slot_live_bounded seg_live_bounded by (cases a) (auto simp: store_ok_def)
next
  fix a live sz ok off a' ops
  assume "store_ok a live" "0 < sz" "sz < 2 ^ 32" "store_allocate a sz ok = (Inr off, a', ops)"
  then show "0 < store_reservation a sz"
    using slot_reservation_positive
    by (cases a) (auto simp: store_ok_def seg_allocate_def Let_def split: if_splits prod.splits sum.splits)
next
  fix a live r q
  assume "store_ok a live" "r \<in> live" "q \<in> live" "r \<noteq> q"
  then show "span r \<inter> span q = {}"
    by (cases a) (auto simp: store_ok_def slot_holds_def live_ok_def seg_inv_def disjoint_regions_def)
qed

end
