(* ===== verification/Tombstone_Log.thy ===== *)
theory Tombstone_Log
  imports Tx_Record Mined_Index
begin

text \<open>
  The log of deletion tombstones (\<open>src/src/ops/tombstone.rs\<close>): a sharded index in memory, a buffer of entries
  not yet written, and a file of fixed-size entries that a checkpoint appends to or rewrites.  The checksum of
  an entry is a parameter.  A hash map is an association list; its order is that of the iteration.  The file
  is its content, or \<open>None\<close> while it does not exist, and a write to it may fail part of the way.
\<close>

section \<open>Entries\<close>

datatype tombstone_cause = CauseDah | CauseClientDelete | CausePruneReplace

fun cause_byte :: "tombstone_cause \<Rightarrow> u8" where
  "cause_byte CauseDah = 0"
| "cause_byte CauseClientDelete = 1"
| "cause_byte CausePruneReplace = 2"

record tomb_value =
  tv_generation :: u32
  tv_height :: u32
  tv_cause :: u8

type_synonym tomb_entry = "txkey \<times> tomb_value"

definition TOMBSTONE_ENTRY_SIZE :: nat where "TOMBSTONE_ENTRY_SIZE = 48"
definition TOMB_MAGIC :: u32 where "TOMB_MAGIC = 0x54534C31"
definition TOMB_VERSION :: u32 where "TOMB_VERSION = 1"
definition TOMB_HEADER_SIZE :: nat where "TOMB_HEADER_SIZE = 8"

datatype tombstone_decode_error = EntryTruncated nat nat | EntryCrcMismatch u32 u32

definition encode_entry :: "(bytes \<Rightarrow> u32) \<Rightarrow> tomb_entry \<Rightarrow> bytes" where
  "encode_entry crc e =
    (let (key, v) = e;
         body = key @ u32_le (tv_generation v) @ u32_le (tv_height v) @ [tv_cause v, 0, 0, 0]
     in body @ u32_le (crc body))"

definition decode_entry :: "(bytes \<Rightarrow> u32) \<Rightarrow> bytes \<Rightarrow> tombstone_decode_error + tomb_entry" where
  "decode_entry crc src =
    (if length src < TOMBSTONE_ENTRY_SIZE then Inl (EntryTruncated (length src) TOMBSTONE_ENTRY_SIZE)
     else
       let expected = le_val (slice 44 4 src); actual = crc (slice 0 44 src) in
       if expected \<noteq> actual then Inl (EntryCrcMismatch expected actual)
       else Inr (slice 0 32 src,
         \<lparr>tv_generation = le_val (slice 32 4 src), tv_height = le_val (slice 36 4 src), tv_cause = src ! 40\<rparr>))"

section \<open>The index in memory\<close>

record tombstone_log =
  tl_seed :: u64
  tl_retention :: u32
  tl_shards :: "tomb_entry list list"
  tl_pending :: "tomb_entry list"
  tl_needs_compaction :: bool

definition tomb_new :: "u64 \<Rightarrow> nat \<Rightarrow> u32 \<Rightarrow> tombstone_log" where
  "tomb_new seed shard_count retention =
    \<lparr>tl_seed = seed, tl_retention = retention, tl_shards = replicate (max shard_count 1) [], tl_pending = [],
     tl_needs_compaction = False\<rparr>"

definition shard_for_key :: "u64 \<Rightarrow> txkey \<Rightarrow> nat \<Rightarrow> nat" where
  "shard_for_key seed key shard_count =
    (let raw = ucast (le_val (slice 8 4 key) :: u32) :: u64
     in unat (splitmix64_finalize (raw XOR seed) AND of_nat (shard_count - 1)))"

definition tomb_shard :: "tombstone_log \<Rightarrow> txkey \<Rightarrow> nat" where
  "tomb_shard log key = shard_for_key (tl_seed log) key (length (tl_shards log))"

definition tomb_get :: "tombstone_log \<Rightarrow> txkey \<Rightarrow> tomb_value option" where
  "tomb_get log key = map_of (tl_shards log ! tomb_shard log key) key"

definition tomb_insert :: "txkey \<Rightarrow> tomb_value \<Rightarrow> tombstone_log \<Rightarrow> tombstone_log" where
  "tomb_insert key v log =
    (let i = tomb_shard log key in log\<lparr>tl_shards := (tl_shards log)[i := AList.update key v (tl_shards log ! i)]\<rparr>)"

definition tomb_record :: "txkey \<Rightarrow> u32 \<Rightarrow> u32 \<Rightarrow> tombstone_cause \<Rightarrow> tombstone_log \<Rightarrow> tombstone_log" where
  "tomb_record key g h cause log =
    (let v = \<lparr>tv_generation = g, tv_height = h, tv_cause = cause_byte cause\<rparr>
     in (tomb_insert key v log)\<lparr>tl_pending := tl_pending log @ [(key, v)]\<rparr>)"

definition at_or_ahead :: "tombstone_log \<Rightarrow> txkey \<Rightarrow> u32 \<Rightarrow> bool" where
  "at_or_ahead log key g = (case tomb_get log key of Some v \<Rightarrow> generation_at_or_ahead (tv_generation v) g | None \<Rightarrow> False)"

definition blocks_heal_apply :: "tombstone_log \<Rightarrow> txkey \<Rightarrow> u32 \<Rightarrow> bool" where
  "blocks_heal_apply log key g =
    (case tomb_get log key of
       None \<Rightarrow> False
     | Some v \<Rightarrow> if tv_cause v = cause_byte CauseDah then generation_at_or_ahead (tv_generation v) g else True)"

definition tomb_lookup :: "tombstone_log \<Rightarrow> txkey \<Rightarrow> (u32 \<times> u32) option" where
  "tomb_lookup log key = map_option (\<lambda>v. (tv_generation v, tv_height v)) (tomb_get log key)"

definition tomb_len :: "tombstone_log \<Rightarrow> nat" where
  "tomb_len log = sum_list (map length (tl_shards log))"

text \<open>The height is added with saturation, which on naturals is a minimum.\<close>

definition expired :: "u32 \<Rightarrow> u32 \<Rightarrow> u32 \<Rightarrow> bool" where
  "expired height retention bottom \<longleftrightarrow> min (unat height + unat retention) (2 ^ 32 - 1) \<le> unat bottom"

text \<open>Entries are dropped shard by shard, and a rewrite of the file is due when any was.\<close>

definition tomb_retain :: "(tomb_entry \<Rightarrow> bool) \<Rightarrow> tombstone_log \<Rightarrow> tombstone_log" where
  "tomb_retain keep log =
    (let kept = map (filter keep) (tl_shards log);
         dropped = sum_list (map length (tl_shards log)) - sum_list (map length kept)
     in log\<lparr>tl_shards := kept, tl_needs_compaction := (0 < dropped \<or> tl_needs_compaction log)\<rparr>)"

definition tomb_gc :: "u32 \<Rightarrow> (txkey \<Rightarrow> bool) \<Rightarrow> tombstone_log \<Rightarrow> tombstone_log" where
  "tomb_gc last_durable_height protected log =
    tomb_retain (\<lambda>(k, v). \<not> expired (tv_height v) (tl_retention log) last_durable_height \<or> protected k) log"

definition reconcile_against_live :: "(txkey \<Rightarrow> bool) \<Rightarrow> tombstone_log \<Rightarrow> tombstone_log" where
  "reconcile_against_live is_live log = tomb_retain (\<lambda>(k, _). \<not> is_live k) log"

definition tomb_clear :: "txkey \<Rightarrow> tombstone_log \<Rightarrow> tombstone_log" where
  "tomb_clear key log =
    (if tomb_get log key = None then log
     else let i = tomb_shard log key in
       log\<lparr>tl_shards := (tl_shards log)[i := AList.delete key (tl_shards log ! i)],
           tl_pending := filter (\<lambda>(k, _). k \<noteq> key) (tl_pending log), tl_needs_compaction := True\<rparr>)"

section \<open>The file\<close>

type_synonym tomb_file = "bytes option"

text \<open>How a write ends: it succeeds, the file cannot be opened, it fails after some bytes, or the directory
  entry of a new or renamed file is not synced.\<close>

datatype write_outcome = WriteOk | OpenFailed | WriteTorn nat | DirSyncFailed

definition tomb_header :: bytes where
  "tomb_header = u32_le TOMB_MAGIC @ u32_le TOMB_VERSION"

definition snapshot_all :: "tombstone_log \<Rightarrow> tomb_entry list" where
  "snapshot_all log = concat (tl_shards log)"

text \<open>The rewrite goes to a temporary file: nothing reaches the log before the rename.\<close>

definition write_all_atomic :: "(bytes \<Rightarrow> u32) \<Rightarrow> write_outcome \<Rightarrow> tomb_entry list \<Rightarrow> tomb_file \<Rightarrow> bool \<times> tomb_file" where
  "write_all_atomic crc w es f =
    (let image = tomb_header @ concat (map (encode_entry crc) es) in
     case w of
       WriteOk \<Rightarrow> (True, Some image)
     | DirSyncFailed \<Rightarrow> (False, Some image)
     | _ \<Rightarrow> (False, f))"

definition append_entries :: "(bytes \<Rightarrow> u32) \<Rightarrow> write_outcome \<Rightarrow> tomb_entry list \<Rightarrow> tomb_file \<Rightarrow> bool \<times> tomb_file" where
  "append_entries crc w es f =
    (let old = (case f of Some bs \<Rightarrow> bs | None \<Rightarrow> []);
         new = (if f = None then tomb_header else []) @ concat (map (encode_entry crc) es) in
     case w of
       WriteOk \<Rightarrow> (True, Some (old @ new))
     | OpenFailed \<Rightarrow> (False, f)
     | WriteTorn n \<Rightarrow> (False, Some (old @ take n new))
     | DirSyncFailed \<Rightarrow> (f \<noteq> None, Some (old @ new)))"

definition tomb_persist ::
  "(bytes \<Rightarrow> u32) \<Rightarrow> write_outcome \<Rightarrow> u32 \<Rightarrow> (txkey \<Rightarrow> bool) \<Rightarrow> tombstone_log \<Rightarrow> tomb_file \<Rightarrow> bool \<times> tombstone_log \<times> tomb_file" where
  "tomb_persist crc w last_durable_height protected log f =
    (let log1 = tomb_gc last_durable_height protected log in
     if tl_needs_compaction log1 then
       (let es = snapshot_all log1; (ok, f1) = write_all_atomic crc w es f in
        if ok then (True, log1\<lparr>tl_pending := filter (\<lambda>(k, v). map_of (rev es) k \<noteq> Some v) (tl_pending log1),
                               tl_needs_compaction := False\<rparr>, f1)
        else (False, log1, f1))
     else if tl_pending log1 = [] then (True, log1, f)
     else
       (let (ok, f1) = append_entries crc w (tl_pending log1) f in
        if ok then (True, log1\<lparr>tl_pending := []\<rparr>, f1) else (False, log1, f1)))"

text \<open>Undecodable entries are skipped; trailing bytes shorter than an entry are ignored.\<close>

function load_entries :: "(bytes \<Rightarrow> u32) \<Rightarrow> bytes \<Rightarrow> tombstone_log \<Rightarrow> tombstone_log" where
  "load_entries crc dat log =
    (if length dat < TOMBSTONE_ENTRY_SIZE then log
     else load_entries crc (drop TOMBSTONE_ENTRY_SIZE dat)
       (case decode_entry crc (take TOMBSTONE_ENTRY_SIZE dat) of Inr (k, v) \<Rightarrow> tomb_insert k v log | Inl _ \<Rightarrow> log))"
  by pat_completeness auto

termination
  by (relation "measure (\<lambda>(_, dat, _). length dat)") (auto simp: TOMBSTONE_ENTRY_SIZE_def)

declare load_entries.simps [simp del]

definition tomb_load :: "(bytes \<Rightarrow> u32) \<Rightarrow> u64 \<Rightarrow> nat \<Rightarrow> u32 \<Rightarrow> tomb_file \<Rightarrow> tombstone_log option" where
  "tomb_load crc seed shard_count retention f =
    (let log = tomb_new seed shard_count retention in
     case f of
       None \<Rightarrow> Some log
     | Some dat \<Rightarrow>
         if length dat < TOMB_HEADER_SIZE then Some log
         else if le_val (slice 0 4 dat) \<noteq> TOMB_MAGIC \<or> le_val (slice 4 4 dat) \<noteq> TOMB_VERSION then None
         else Some (load_entries crc (drop TOMB_HEADER_SIZE dat) log))"

section \<open>The index as a map\<close>

definition wf_log :: "tombstone_log \<Rightarrow> bool" where
  "wf_log log \<longleftrightarrow> tl_shards log \<noteq> [] \<and>
    (\<forall>i < length (tl_shards log). distinct (map fst (tl_shards log ! i)) \<and>
      (\<forall>(k, v) \<in> set (tl_shards log ! i). tomb_shard log k = i \<and> length k = 32))"

lemma tomb_shard_bound: "tl_shards log \<noteq> [] \<Longrightarrow> tomb_shard log key < length (tl_shards log)"
proof -
  assume "tl_shards log \<noteq> []"
  moreover have "unat (x AND of_nat m :: u64) \<le> m" for x m
  proof -
    have "unat (x AND of_nat m :: u64) \<le> unat (of_nat m :: u64)" by (simp add: word_and_le1 flip: word_le_nat_alt)
    also have "\<dots> \<le> m" by (simp add: unat_of_nat)
    finally show ?thesis .
  qed
  ultimately show ?thesis
    by (simp add: tomb_shard_def shard_for_key_def Let_def) (metis One_nat_def Suc_pred length_greater_0_conv less_Suc_eq_le)
qed

lemma wf_shard: "wf_log log \<Longrightarrow> tomb_shard log key < length (tl_shards log)"
  by (simp add: wf_log_def tomb_shard_bound)

lemma tomb_shard_cong: "tl_seed log' = tl_seed log \<Longrightarrow> length (tl_shards log') = length (tl_shards log) \<Longrightarrow> tomb_shard log' = tomb_shard log"
  by (rule ext) (simp add: tomb_shard_def)

lemma snapshot_member:
  assumes "wf_log log"
  shows "(k, v) \<in> set (snapshot_all log) \<longleftrightarrow> tomb_get log k = Some v"
proof
  assume "(k, v) \<in> set (snapshot_all log)"
  then obtain i where i: "i < length (tl_shards log)" "(k, v) \<in> set (tl_shards log ! i)"
    by (auto simp: snapshot_all_def) (metis in_set_conv_nth)
  then show "tomb_get log k = Some v" using assms by (fastforce simp: wf_log_def tomb_get_def)
next
  assume "tomb_get log k = Some v"
  then have "(k, v) \<in> set (tl_shards log ! tomb_shard log k)" by (simp add: tomb_get_def map_of_SomeD)
  then show "(k, v) \<in> set (snapshot_all log)" using wf_shard [OF assms] by (force simp: snapshot_all_def)
qed

lemma map_of_members: "(\<And>k v. (k, v) \<in> set xs \<longleftrightarrow> m k = Some v) \<Longrightarrow> map_of xs = m"
proof
  fix k assume *: "\<And>k v. (k, v) \<in> set xs \<longleftrightarrow> m k = Some v"
  show "map_of xs k = m k"
  proof (cases "m k")
    case None
    then have "k \<notin> fst ` set xs" using * by force
    then show ?thesis using None by (simp add: map_of_eq_None_iff)
  next
    case (Some v)
    then have "(k, v) \<in> set xs" using * by simp
    then have "map_of xs k \<noteq> None" using weak_map_of_SomeI [of k v xs] by auto
    then obtain w where "map_of xs k = Some w" by blast
    then show ?thesis using * map_of_SomeD by metis
  qed
qed

lemma map_of_snapshot: "wf_log log \<Longrightarrow> map_of (rev (snapshot_all log)) = tomb_get log"
  by (rule map_of_members) (simp add: snapshot_member)

lemma wf_replace:
  assumes "wf_log log" "tl_seed log' = tl_seed log" "tl_shards log' = (tl_shards log)[i := xs]" "i < length (tl_shards log)"
    and "distinct (map fst xs)" "\<forall>(k, v) \<in> set xs. tomb_shard log k = i \<and> length k = 32"
  shows "wf_log log'"
proof -
  have "tomb_shard log' = tomb_shard log" by (rule tomb_shard_cong) (simp_all add: assms)
  then show ?thesis using assms by (auto simp: wf_log_def nth_list_update)
qed

lemma set_alist_update: "set (AList.update k v xs) \<subseteq> insert (k, v) (set xs)"
  by (induction xs) auto

lemma wf_insert:
  assumes "wf_log log" "length key = 32"
  shows "wf_log (tomb_insert key v log)"
proof (rule wf_replace [OF assms(1)])
  let ?i = "tomb_shard log key"
  show "tl_shards (tomb_insert key v log) = (tl_shards log)[?i := AList.update key v (tl_shards log ! ?i)]"
    by (simp add: tomb_insert_def Let_def)
  show "?i < length (tl_shards log)" by (rule wf_shard [OF assms(1)])
  then have "distinct (map fst (tl_shards log ! ?i))" "\<forall>(k, v) \<in> set (tl_shards log ! ?i). tomb_shard log k = ?i \<and> length k = 32"
    using assms(1) by (auto simp: wf_log_def)
  then show "distinct (map fst (AList.update key v (tl_shards log ! ?i)))"
      "\<forall>(k, v) \<in> set (AList.update key v (tl_shards log ! ?i)). tomb_shard log k = ?i \<and> length k = 32"
    using assms(2) set_alist_update [of key v "tl_shards log ! ?i"] by (auto simp: distinct_update)
qed (simp add: tomb_insert_def Let_def)

lemma get_insert:
  assumes "wf_log log"
  shows "tomb_get (tomb_insert key v log) = (tomb_get log)(key \<mapsto> v)"
proof
  fix k
  have "tomb_shard (tomb_insert key v log) = tomb_shard log" by (rule tomb_shard_cong) (simp_all add: tomb_insert_def Let_def)
  then show "tomb_get (tomb_insert key v log) k = ((tomb_get log)(key \<mapsto> v)) k"
    using wf_shard [OF assms] by (auto simp: tomb_get_def tomb_insert_def Let_def nth_list_update update_conv')
qed

lemma wf_retain: "wf_log log \<Longrightarrow> wf_log (tomb_retain keep log)"
proof -
  assume wf: "wf_log log"
  have "tomb_shard (tomb_retain keep log) = tomb_shard log" by (rule tomb_shard_cong) (simp_all add: tomb_retain_def Let_def)
  then show ?thesis using wf by (auto simp: wf_log_def tomb_retain_def Let_def distinct_map_filter)
qed

lemma option_restrict:
  assumes "\<And>v. x = Some v \<longleftrightarrow> y = Some v \<and> P v"
  shows "x = (case y of Some v \<Rightarrow> if P v then Some v else None | None \<Rightarrow> None)"
proof (cases x)
  case None
  then show ?thesis using assms by (cases y) auto
next
  case (Some v)
  then have "y = Some v \<and> P v" using assms by blast
  then show ?thesis using Some by simp
qed

lemma get_retain:
  assumes "wf_log log"
  shows "tomb_get (tomb_retain keep log) k = (case tomb_get log k of Some v \<Rightarrow> if keep (k, v) then Some v else None | None \<Rightarrow> None)"
proof -
  have "snapshot_all (tomb_retain keep log) = filter keep (snapshot_all log)"
    by (simp add: snapshot_all_def tomb_retain_def Let_def filter_concat)
  then have "tomb_get (tomb_retain keep log) k = Some v \<longleftrightarrow> tomb_get log k = Some v \<and> keep (k, v)" for v
    unfolding snapshot_member [OF assms, symmetric] snapshot_member [OF wf_retain [OF assms], symmetric] by auto
  then show ?thesis by (rule option_restrict)
qed

lemma wf_clear: "wf_log log \<Longrightarrow> wf_log (tomb_clear key log)"
proof (cases "tomb_get log key")
  case None
  then show "wf_log log \<Longrightarrow> ?thesis" by (simp add: tomb_clear_def)
next
  case (Some v)
  assume wf: "wf_log log"
  let ?i = "tomb_shard log key"
  have "distinct (map fst (tl_shards log ! ?i))" "\<forall>(k, v) \<in> set (tl_shards log ! ?i). tomb_shard log k = ?i \<and> length k = 32"
    using wf wf_shard [OF wf] by (auto simp: wf_log_def)
  then have d: "distinct (map fst (AList.delete key (tl_shards log ! ?i)))"
      "\<forall>(k, v) \<in> set (AList.delete key (tl_shards log ! ?i)). tomb_shard log k = ?i \<and> length k = 32"
    by (auto simp: AList.delete_eq distinct_map_filter)
  show ?thesis by (rule wf_replace [OF wf _ _ wf_shard [OF wf] d]) (simp_all add: tomb_clear_def Some Let_def)
qed

lemma get_clear:
  assumes "wf_log log"
  shows "tomb_get (tomb_clear key log) = (tomb_get log)(key := None)"
proof (cases "tomb_get log key")
  case None
  then show ?thesis by (simp add: tomb_clear_def fun_upd_idem)
next
  case (Some v)
  have sh: "tomb_shard (tomb_clear key log) = tomb_shard log" by (rule tomb_shard_cong) (simp_all add: tomb_clear_def Let_def)
  have "tomb_get (tomb_clear key log) k = ((tomb_get log)(key := None)) k" for k
    using wf_shard [OF assms] Some unfolding tomb_get_def [of "tomb_clear key log"] sh
    by (simp add: tomb_clear_def Let_def nth_list_update delete_conv') (simp add: tomb_get_def)
  then show ?thesis by (rule ext)
qed

lemma log_fields [simp]:
  "wf_log (l\<lparr>tl_pending := p\<rparr>) = wf_log l" "tomb_get (l\<lparr>tl_pending := p\<rparr>) = tomb_get l"
  "wf_log (l\<lparr>tl_needs_compaction := b\<rparr>) = wf_log l" "tomb_get (l\<lparr>tl_needs_compaction := b\<rparr>) = tomb_get l"
  by (auto simp: wf_log_def tomb_get_def tomb_shard_def fun_eq_iff)

lemma wf_new: "wf_log (tomb_new seed n r)"
  by (simp add: wf_log_def tomb_new_def)

lemma get_new: "tomb_get (tomb_new seed n r) = Map.empty"
proof
  fix k
  have "tl_shards (tomb_new seed n r) ! tomb_shard (tomb_new seed n r) k \<in> set (tl_shards (tomb_new seed n r))"
    by (rule nth_mem [OF wf_shard [OF wf_new]])
  moreover have "set (tl_shards (tomb_new seed n r)) \<subseteq> {[]}" by (auto simp: tomb_new_def)
  ultimately show "tomb_get (tomb_new seed n r) k = None" unfolding tomb_get_def by fastforce
qed

section \<open>The file as a list of entries\<close>

abbreviation image_of :: "(bytes \<Rightarrow> u32) \<Rightarrow> tomb_entry list \<Rightarrow> bytes" where
  "image_of crc es \<equiv> concat (map (encode_entry crc) es)"

abbreviation keys_ok :: "tomb_entry list \<Rightarrow> bool" where "keys_ok es \<equiv> \<forall>(k, v) \<in> set es. length k = 32"

lemma length_encode_entry: "length k = 32 \<Longrightarrow> length (encode_entry crc (k, v)) = TOMBSTONE_ENTRY_SIZE"
  by (simp add: encode_entry_def Let_def TOMBSTONE_ENTRY_SIZE_def)

lemma decode_encode_entry: "length k = 32 \<Longrightarrow> decode_entry crc (encode_entry crc (k, v)) = Inr (k, v)"
  by (simp add: decode_entry_def encode_entry_def Let_def TOMBSTONE_ENTRY_SIZE_def slice_def nth_append)

lemma load_image:
  assumes "keys_ok es" "length rest < TOMBSTONE_ENTRY_SIZE"
  shows "load_entries crc (image_of crc es @ rest) log = fold (\<lambda>(k, v). tomb_insert k v) es log"
  using assms(1)
proof (induction es arbitrary: log)
  case Nil
  then show ?case using assms(2) by (simp add: load_entries.simps)
next
  case (Cons e es)
  obtain k v where e: "e = (k, v)" by (cases e)
  have k: "length k = 32" "keys_ok es" using Cons.prems by (auto simp: e)
  have "load_entries crc (image_of crc (e # es) @ rest) log = load_entries crc (image_of crc es @ rest) (tomb_insert k v log)"
    by (subst load_entries.simps) (simp add: e length_encode_entry [OF k(1)] decode_encode_entry [OF k(1)])
  then show ?case using Cons.IH [OF k(2)] by (simp add: e)
qed

lemma fold_insert:
  assumes "wf_log log" "keys_ok es"
  shows "wf_log (fold (\<lambda>(k, v). tomb_insert k v) es log) \<and>
    tomb_get (fold (\<lambda>(k, v). tomb_insert k v) es log) = tomb_get log ++ map_of (rev es)"
  using assms
proof (induction es arbitrary: log)
  case (Cons e es)
  obtain k v where e: "e = (k, v)" by (cases e)
  have "wf_log (tomb_insert k v log)" using Cons.prems by (auto simp: e intro: wf_insert)
  then show ?case using Cons.IH Cons.prems by (auto simp: e get_insert map_add_def fun_eq_iff split: option.split)
qed simp

definition holds_entries :: "(bytes \<Rightarrow> u32) \<Rightarrow> tomb_entry list \<Rightarrow> tomb_file \<Rightarrow> bool" where
  "holds_entries crc es f \<longleftrightarrow> keys_ok es \<and> (f = None \<and> es = [] \<or> f = Some (tomb_header @ image_of crc es))"

lemma load_header: "length rest < TOMBSTONE_ENTRY_SIZE \<Longrightarrow> keys_ok es \<Longrightarrow>
    tomb_load crc seed n r (Some (tomb_header @ image_of crc es @ rest)) = Some (fold (\<lambda>(k, v). tomb_insert k v) es (tomb_new seed n r))"
  using load_image [of es rest crc "tomb_new seed n r"]
  by (simp add: tomb_load_def tomb_header_def TOMB_HEADER_SIZE_def slice_def)

lemma load_holds:
  assumes "holds_entries crc es f"
  obtains log where "tomb_load crc seed n r f = Some log" "wf_log log" "tomb_get log = map_of (rev es)"
    "tl_pending log = []" "\<not> tl_needs_compaction log"
proof -
  let ?log = "fold (\<lambda>(k, v). tomb_insert k v) es (tomb_new seed n r)"
  have keep: "tl_pending (fold (\<lambda>(k, v). tomb_insert k v) es l) = tl_pending l \<and>
      tl_needs_compaction (fold (\<lambda>(k, v). tomb_insert k v) es l) = tl_needs_compaction l" for es l
    by (induction es arbitrary: l) (simp_all add: tomb_insert_def Let_def case_prod_beta)
  have "tomb_load crc seed n r f = Some ?log"
  proof (cases f)
    case None
    then show ?thesis using assms by (simp add: holds_entries_def tomb_load_def)
  next
    case (Some bs)
    then show ?thesis using assms load_header [of "[]" es crc seed n r] by (simp add: holds_entries_def TOMBSTONE_ENTRY_SIZE_def)
  qed
  moreover have "wf_log ?log" "tomb_get ?log = map_of (rev es)"
    using fold_insert [OF wf_new, of es seed n r] assms by (simp_all add: holds_entries_def get_new)
  ultimately show thesis using keep [of es "tomb_new seed n r"] by (intro that [of ?log]) (simp_all, simp_all add: tomb_new_def)
qed

section \<open>What a checkpoint makes durable\<close>

text \<open>The file together with the buffer describes the index unless a rewrite is due, and the buffer holds only
  current entries.\<close>

definition covers :: "(bytes \<Rightarrow> u32) \<Rightarrow> tombstone_log \<Rightarrow> tomb_file \<Rightarrow> bool" where
  "covers crc log f \<longleftrightarrow> wf_log log \<and> (\<forall>(k, v) \<in> set (tl_pending log). tomb_get log k = Some v) \<and>
    (\<exists>es. holds_entries crc es f \<and> (tl_needs_compaction log \<or> map_of (rev (es @ tl_pending log)) = tomb_get log))"

lemma get_length: "wf_log log \<Longrightarrow> tomb_get log k = Some v \<Longrightarrow> length k = 32"
  using wf_shard [of log k] by (fastforce simp: tomb_get_def wf_log_def dest: map_of_SomeD)

lemma covers_keys: "covers crc log f \<Longrightarrow> keys_ok (tl_pending log)"
  by (auto simp: covers_def dest: get_length)

lemma retain_all: "length (filter P xs) = length xs \<Longrightarrow> \<forall>x \<in> set xs. P x"
  using length_filter_less [of _ xs P] by auto

lemma retain_unchanged:
  assumes "\<not> tl_needs_compaction (tomb_retain keep log)"
  shows "tomb_retain keep log = log"
proof -
  have "length (concat (tl_shards log)) - length (filter keep (concat (tl_shards log))) = 0"
    using assms by (simp add: tomb_retain_def Let_def length_concat filter_concat)
  then have "\<forall>x \<in> set (concat (tl_shards log)). keep x"
    by (intro retain_all) (simp add: le_antisym [OF length_filter_le])
  then have "map (filter keep) (tl_shards log) = tl_shards log" by (intro map_idI) (auto intro: filter_True)
  then show ?thesis using assms by (simp add: tomb_retain_def Let_def)
qed

lemma covers_retain:
  assumes "covers crc log f" "\<forall>e \<in> set (tl_pending log). keep e"
  shows "covers crc (tomb_retain keep log) f"
proof (cases "tl_needs_compaction (tomb_retain keep log)")
  case True
  moreover have "wf_log log" using assms(1) by (simp add: covers_def)
  moreover have "tl_pending (tomb_retain keep log) = tl_pending log" by (simp add: tomb_retain_def Let_def)
  ultimately show ?thesis using assms by (auto simp: covers_def wf_retain get_retain)
next
  case False
  then show ?thesis unfolding retain_unchanged [OF False] using assms(1) by simp
qed

lemma covers_record:
  assumes "covers crc log f" "tomb_get log key = None" "length key = 32"
  shows "covers crc (tomb_record key g h cause log) f"
proof -
  let ?v = "\<lparr>tv_generation = g, tv_height = h, tv_cause = cause_byte cause\<rparr>"
  let ?log = "tomb_record key g h cause log"
  have wf: "wf_log log" using assms(1) by (simp add: covers_def)
  have "wf_log ?log" "tomb_get ?log = (tomb_get log)(key \<mapsto> ?v)"
    using wf_insert [OF wf assms(3)] get_insert [OF wf] by (simp_all add: tomb_record_def Let_def)
  moreover have "tl_pending ?log = tl_pending log @ [(key, ?v)]" "tl_needs_compaction ?log = tl_needs_compaction log"
    by (simp_all add: tomb_record_def tomb_insert_def Let_def)
  moreover have "(k, v) \<in> set (tl_pending log) \<Longrightarrow> k \<noteq> key" for k v using assms(1,2) by (auto simp: covers_def)
  ultimately show ?thesis using assms(1) by (auto simp: covers_def)
qed

lemma covers_clear:
  assumes "covers crc log f"
  shows "covers crc (tomb_clear key log) f"
proof (cases "tomb_get log key")
  case None
  then show ?thesis using assms by (simp add: tomb_clear_def)
next
  case (Some v)
  have wf: "wf_log log" using assms by (simp add: covers_def)
  have "tl_pending (tomb_clear key log) = filter (\<lambda>(k, _). k \<noteq> key) (tl_pending log)" "tl_needs_compaction (tomb_clear key log)"
    by (simp_all add: tomb_clear_def Some Let_def)
  then show ?thesis using assms wf_clear [OF wf] get_clear [OF wf] by (auto simp: covers_def)
qed

definition safe_write :: "write_outcome \<Rightarrow> u32 \<Rightarrow> (txkey \<Rightarrow> bool) \<Rightarrow> tombstone_log \<Rightarrow> bool" where
  "safe_write w h protected log \<longleftrightarrow>
    (\<forall>(k, v) \<in> set (tl_pending log). \<not> expired (tv_height v) (tl_retention log) h \<or> protected k) \<and>
    (case w of WriteTorn _ \<Rightarrow> tl_needs_compaction (tomb_gc h protected log) | _ \<Rightarrow> True)"

definition durable :: "(bytes \<Rightarrow> u32) \<Rightarrow> tombstone_log \<Rightarrow> tomb_file \<Rightarrow> bool" where
  "durable crc log f \<longleftrightarrow> (\<exists>es. holds_entries crc es f \<and> map_of (rev es) = tomb_get log)"

lemma covers_gc: "covers crc log f \<Longrightarrow> safe_write w h protected log \<Longrightarrow> covers crc (tomb_gc h protected log) f"
  unfolding tomb_gc_def safe_write_def by (rule covers_retain) auto

lemma rewrite_covers:
  assumes "covers crc log f" "tl_needs_compaction log" "write_all_atomic crc w (snapshot_all log) f = (ok, f1)"
  shows "covers crc log f1" "ok \<Longrightarrow> durable crc log f1"
    "ok \<Longrightarrow> filter (\<lambda>(k, v). map_of (rev (snapshot_all log)) k \<noteq> Some v) (tl_pending log) = []"
proof -
  have wf: "wf_log log" and p: "\<forall>(k, v) \<in> set (tl_pending log). tomb_get log k = Some v" using assms(1) by (simp_all add: covers_def)
  have "keys_ok (snapshot_all log)" using snapshot_member [OF wf] get_length [OF wf] by auto
  then have h: "holds_entries crc (snapshot_all log) (Some (tomb_header @ image_of crc (snapshot_all log)))" by (simp add: holds_entries_def)
  show "covers crc log f1"
    using assms h by (cases w) (auto simp: write_all_atomic_def covers_def)
  show "ok \<Longrightarrow> durable crc log f1"
    using assms(3) h map_of_snapshot [OF wf] by (cases w) (auto simp: write_all_atomic_def durable_def)
  show "ok \<Longrightarrow> filter (\<lambda>(k, v). map_of (rev (snapshot_all log)) k \<noteq> Some v) (tl_pending log) = []"
    using p by (auto simp: map_of_snapshot [OF wf] filter_empty_conv)
qed

lemma append_covers:
  assumes "covers crc log f" "\<not> tl_needs_compaction log" "\<forall>n. w \<noteq> WriteTorn n"
    and "append_entries crc w (tl_pending log) f = (ok, f1)"
  shows "covers crc log f1" "ok \<Longrightarrow> durable crc log f1"
proof -
  obtain es where es: "holds_entries crc es f" "map_of (rev (es @ tl_pending log)) = tomb_get log"
    using assms(1,2) by (auto simp: covers_def)
  have new: "holds_entries crc (es @ tl_pending log)
      (Some ((case f of Some bs \<Rightarrow> bs | None \<Rightarrow> []) @ (if f = None then tomb_header else []) @ image_of crc (tl_pending log)))"
    using es(1) covers_keys [OF assms(1)] by (auto simp: holds_entries_def)
  have "map_of (rev ((es @ tl_pending log) @ tl_pending log)) = tomb_get log"
    using es(2) by (auto simp: map_add_def fun_eq_iff split: option.splits)
  then show "covers crc log f1" "ok \<Longrightarrow> durable crc log f1"
    using assms new es by (cases w; auto simp: append_entries_def covers_def durable_def Let_def; fail)+
qed

lemma persist_covers:
  assumes "covers crc log f" "safe_write w h protected log" "tomb_persist crc w h protected log f = (ok, log', f')"
  shows "covers crc log' f' \<and> tomb_get log' = tomb_get (tomb_gc h protected log) \<and> (ok \<longrightarrow> durable crc log' f' \<and> tl_pending log' = [])"
proof -
  let ?g = "tomb_gc h protected log"
  have c: "covers crc ?g f" by (rule covers_gc [OF assms(1,2)])
  consider (rewrite) "tl_needs_compaction ?g" | (idle) "\<not> tl_needs_compaction ?g" "tl_pending ?g = []"
    | (append) "\<not> tl_needs_compaction ?g" "tl_pending ?g \<noteq> []" by blast
  then show ?thesis
  proof cases
    case rewrite
    obtain k f1 where w: "write_all_atomic crc w (snapshot_all ?g) f = (k, f1)" by fastforce
    note r = rewrite_covers [OF c rewrite w]
    show ?thesis
    proof (cases k)
      case True
      then have l: "log' = ?g\<lparr>tl_pending := [], tl_needs_compaction := False\<rparr>" "f' = f1"
        using assms(3) rewrite w r(3) by (simp_all add: tomb_persist_def Let_def)
      have "durable crc log' f1" using r(2) True by (simp add: l durable_def)
      then show ?thesis using r(1) by (auto simp: l covers_def durable_def)
    next
      case False
      then show ?thesis using assms(3) rewrite w r(1) by (simp add: tomb_persist_def Let_def)
    qed
  next
    case idle
    then show ?thesis using assms(3) c by (auto simp: tomb_persist_def Let_def covers_def durable_def)
  next
    case append
    obtain k f1 where w: "append_entries crc w (tl_pending ?g) f = (k, f1)" by fastforce
    have "\<forall>n. w \<noteq> WriteTorn n" using assms(2) append(1) by (auto simp: safe_write_def)
    note r = append_covers [OF c append(1) this w]
    show ?thesis
    proof (cases k)
      case True
      then have l: "log' = ?g\<lparr>tl_pending := []\<rparr>" "f' = f1" using assms(3) append w by (simp_all add: tomb_persist_def Let_def)
      have "durable crc log' f1" using r(2) True by (simp add: l durable_def)
      then show ?thesis using r(1) append(1) by (auto simp: l covers_def durable_def)
    next
      case False
      then show ?thesis using assms(3) append w r(1) by (simp add: tomb_persist_def Let_def)
    qed
  qed
qed

section \<open>Histories of a node\<close>

text \<open>A deletion is recorded for a transaction without a tombstone, since its creation has cleared an earlier one.\<close>

inductive tomb_run :: "(bytes \<Rightarrow> u32) \<Rightarrow> u64 \<Rightarrow> nat \<Rightarrow> u32 \<Rightarrow> tombstone_log \<Rightarrow> tomb_file \<Rightarrow> bool" for crc seed n r where
  fresh: "tomb_run crc seed n r (tomb_new seed n r) None"
| recorded: "tomb_run crc seed n r log f \<Longrightarrow> tomb_get log k = None \<Longrightarrow> length k = 32 \<Longrightarrow> tomb_run crc seed n r (tomb_record k g h c log) f"
| cleared: "tomb_run crc seed n r log f \<Longrightarrow> tomb_run crc seed n r (tomb_clear k log) f"
| reconciled: "tomb_run crc seed n r log f \<Longrightarrow> \<forall>(k, v) \<in> set (tl_pending log). \<not> is_live k \<Longrightarrow>
    tomb_run crc seed n r (reconcile_against_live is_live log) f"
| checkpointed: "tomb_run crc seed n r log f \<Longrightarrow> safe_write w h protected log \<Longrightarrow>
    tomb_persist crc w h protected log f = (ok, log', f') \<Longrightarrow> tomb_run crc seed n r log' f'"
| rebooted: "tomb_run crc seed n r log f \<Longrightarrow> tomb_load crc seed n r f = Some boot \<Longrightarrow> tomb_run crc seed n r boot f"

lemma tomb_run_covers: "tomb_run crc seed n r log f \<Longrightarrow> covers crc log f"
proof (induction rule: tomb_run.induct)
  case fresh
  have "holds_entries crc [] None" by (simp add: holds_entries_def)
  then show ?case using wf_new get_new by (auto simp: covers_def tomb_new_def)
next
  case (reconciled log f is_live)
  then show ?case unfolding reconcile_against_live_def by (intro covers_retain) auto
next
  case (rebooted log f boot)
  then obtain es where es: "holds_entries crc es f" by (auto simp: covers_def)
  then obtain l where "tomb_load crc seed n r f = Some l" "wf_log l" "tomb_get l = map_of (rev es)" "tl_pending l = []"
    "\<not> tl_needs_compaction l" by (rule load_holds [of crc es f seed n r])
  then show ?case using rebooted(2) es by (auto simp: covers_def)
qed (auto simp: covers_record covers_clear dest: persist_covers)

text \<open>C7: What a checkpoint reports as written is what the next boot reads.  After any history of deletions, re-creations,
  reconciliations, checkpoints with failing writes and reboots, a successful checkpoint leaves a file from which
  exactly the unexpired tombstones are rebuilt, so the node refuses the same incoming records before and after.  The
  history has no torn append, and no tombstone expires before it was first written.\<close>

theorem tombstones_survive:
  assumes "tomb_run crc seed n r log f" "safe_write w h protected log" "tomb_persist crc w h protected log f = (True, log', f')"
  shows "\<exists>boot. tomb_load crc seed n r f' = Some boot \<and>
    (\<forall>k. tomb_get boot k = (case tomb_get log k of
       Some v \<Rightarrow> if expired (tv_height v) (tl_retention log) h \<and> \<not> protected k then None else Some v | None \<Rightarrow> None)) \<and>
    (\<forall>k g. blocks_heal_apply boot k g = blocks_heal_apply log' k g \<and> at_or_ahead boot k g = at_or_ahead log' k g)"
proof -
  note c = tomb_run_covers [OF assms(1)]
  have wf: "wf_log log" using c by (simp add: covers_def)
  have p: "tomb_get log' = tomb_get (tomb_gc h protected log)" "durable crc log' f'"
    using persist_covers [OF c assms(2,3)] by simp_all
  then obtain es where es: "holds_entries crc es f'" "map_of (rev es) = tomb_get log'" by (auto simp: durable_def)
  obtain boot where b: "tomb_load crc seed n r f' = Some boot" "tomb_get boot = tomb_get log'"
    using load_holds [OF es(1), of seed n r] es(2) by metis
  have "tomb_get boot k = (case tomb_get log k of
      Some v \<Rightarrow> if expired (tv_height v) (tl_retention log) h \<and> \<not> protected k then None else Some v | None \<Rightarrow> None)" for k
    unfolding b(2) p(1) tomb_gc_def get_retain [OF wf] by (simp split: option.split)
  then show ?thesis using b by (auto simp: blocks_heal_apply_def at_or_ahead_def)
qed

section \<open>Torn appends and dropped entries\<close>

text \<open>The first entry-sized window of a file in which \<open>m\<close> bytes of one entry are followed by another entry.\<close>

definition torn_window :: "(bytes \<Rightarrow> u32) \<Rightarrow> nat \<Rightarrow> tomb_entry \<Rightarrow> tomb_entry \<Rightarrow> bytes" where
  "torn_window crc m e1 e2 = take m (encode_entry crc e1) @ take (48 - m) (encode_entry crc e2)"

lemma gc_keeps:
  assumes "wf_log log" "\<not> tl_needs_compaction log" "\<And>k v. tomb_get log k = Some v \<Longrightarrow> \<not> expired (tv_height v) (tl_retention log) h"
  shows "tomb_gc h protected log = log"
proof -
  have "\<not> expired (tv_height v) (tl_retention log) h" if "(k, v) \<in> set (concat (tl_shards log))" for k v
    using assms(3) snapshot_member [OF assms(1)] that unfolding snapshot_all_def by blast
  then have "map (filter (\<lambda>(k, v). \<not> expired (tv_height v) (tl_retention log) h \<or> protected k)) (tl_shards log) = tl_shards log"
    by (intro map_idI filter_True) auto
  then show ?thesis using assms(2) by (simp add: tomb_gc_def tomb_retain_def Let_def)
qed

abbreviation tomb_of :: "u32 \<Rightarrow> u32 \<Rightarrow> tombstone_cause \<Rightarrow> tomb_value" where
  "tomb_of g h c \<equiv> \<lparr>tv_generation = g, tv_height = h, tv_cause = cause_byte c\<rparr>"

lemma first_record:
  assumes "length k = 32"
  shows "wf_log (tomb_record k g h c (tomb_new seed n r))" "tomb_get (tomb_record k g h c (tomb_new seed n r)) = [k \<mapsto> tomb_of g h c]"
    "tl_pending (tomb_record k g h c (tomb_new seed n r)) = [(k, tomb_of g h c)]" "\<not> tl_needs_compaction (tomb_record k g h c (tomb_new seed n r))"
    "tl_retention (tomb_record k g h c (tomb_new seed n r)) = r"
  using wf_insert [OF wf_new assms] get_insert [OF wf_new] get_new by (simp_all add: tomb_record_def Let_def, simp_all add: tomb_insert_def tomb_new_def Let_def)

lemma first_append:
  assumes "length k = 32" "\<not> expired h0 r h"
  shows "tomb_persist crc w h protected (tomb_record k g h0 c (tomb_new seed n r)) f =
    (let (ok, f1) = append_entries crc w [(k, tomb_of g h0 c)] f; log = tomb_record k g h0 c (tomb_new seed n r) in
     if ok then (True, log\<lparr>tl_pending := []\<rparr>, f1) else (False, log, f1))"
proof -
  note fr = first_record [OF assms(1), of g h0 c seed n r]
  have "tomb_gc h protected (tomb_record k g h0 c (tomb_new seed n r)) = tomb_record k g h0 c (tomb_new seed n r)"
    by (rule gc_keeps [OF fr(1,4)]) (use assms(2) fr(2,5) in \<open>auto split: if_splits\<close>)
  then show ?thesis using fr(3,4) by (simp add: tomb_persist_def Let_def)
qed

theorem tombstones_survive_witness:
  "\<exists>log' f' boot. tomb_persist (\<lambda>_. 0) WriteOk 200 (\<lambda>_. False) (tomb_record (replicate 32 1) 5 195 CauseDah (tomb_new 0 4 10)) None = (True, log', f') \<and>
    tomb_load (\<lambda>_. 0) 0 4 10 f' = Some boot \<and> tomb_get boot (replicate 32 1) = Some (tomb_of 5 195 CauseDah)"
proof -
  let ?log = "tomb_record (replicate 32 1) 5 195 CauseDah (tomb_new 0 4 10)"
  have k: "length (replicate 32 1 :: bytes) = 32" "\<not> expired 195 10 200" by (simp_all add: expired_def)
  note fr = first_record [OF k(1), of 5 195 CauseDah 0 4 10]
  obtain log' f' where p: "tomb_persist (\<lambda>_. 0) WriteOk 200 (\<lambda>_. False) ?log None = (True, log', f')"
    unfolding first_append [OF k] by (simp add: append_entries_def)
  have "tomb_run (\<lambda>_. 0) 0 4 10 ?log None" by (rule tomb_run.recorded [OF tomb_run.fresh _ k(1)]) (simp add: get_new)
  moreover have "safe_write WriteOk 200 (\<lambda>_. False) ?log" using k(2) by (simp add: safe_write_def fr(3,5))
  ultimately obtain boot where "tomb_load (\<lambda>_. 0) 0 4 10 f' = Some boot" "tomb_get boot (replicate 32 1) = Some (tomb_of 5 195 CauseDah)"
    using tombstones_survive [OF _ _ p] k(2) by (fastforce simp: fr(2,5))
  then show ?thesis using p by blast
qed

text \<open>C36: A torn append loses later tombstones.  When an append stops inside an entry and the node restarts, the next
  checkpoint appends behind the torn bytes and succeeds, but a further restart reads the entries at shifted
  places: unless the mixed bytes pass the checksum, the tombstone is gone.\<close>

theorem torn_append_loses_tombstones:
  assumes "length k1 = 32" "length k2 = 32" "0 < m" "m < 48" "\<not> expired h1 r h" "\<not> expired h2 r h"
    and "le_val (slice 44 4 (torn_window crc m (k1, tomb_of g1 h1 c1) (k2, tomb_of g2 h2 c2))) \<noteq>
      crc (slice 0 44 (torn_window crc m (k1, tomb_of g1 h1 c1) (k2, tomb_of g2 h2 c2)))"
  shows "\<exists>log1 f1 boot log2 f2 boot2.
    tomb_persist crc (WriteTorn m) h protected (tomb_record k1 g1 h1 c1 (tomb_new seed n r)) (Some tomb_header) = (False, log1, f1) \<and>
    tomb_load crc seed n r f1 = Some boot \<and>
    tomb_persist crc WriteOk h protected (tomb_record k2 g2 h2 c2 boot) f1 = (True, log2, f2) \<and> tomb_get log2 k2 = Some (tomb_of g2 h2 c2) \<and>
    tomb_load crc seed n r f2 = Some boot2 \<and> tomb_get boot2 k2 = None"
proof -
  let ?new = "tomb_new seed n r" and ?e2 = "(k2, tomb_of g2 h2 c2)" and ?torn = "take m (encode_entry crc (k1, tomb_of g1 h1 c1))"
  let ?win = "torn_window crc m (k1, tomb_of g1 h1 c1) (k2, tomb_of g2 h2 c2)"
  have len: "length ?torn = m" "length (encode_entry crc ?e2) = 48"
    using assms(1-4) by (simp_all add: length_encode_entry TOMBSTONE_ENTRY_SIZE_def)
  have l1: "tomb_persist crc (WriteTorn m) h protected (tomb_record k1 g1 h1 c1 ?new) (Some tomb_header) =
      (False, tomb_record k1 g1 h1 c1 ?new, Some (tomb_header @ ?torn))"
    unfolding first_append [OF assms(1,5)] by (simp add: append_entries_def)
  have b1: "tomb_load crc seed n r (Some (tomb_header @ ?torn)) = Some ?new"
    using load_header [of ?torn "[]" crc seed n r] len(1) assms(4) by (simp add: TOMBSTONE_ENTRY_SIZE_def)
  have l2: "tomb_persist crc WriteOk h protected (tomb_record k2 g2 h2 c2 ?new) (Some (tomb_header @ ?torn)) =
      (True, (tomb_record k2 g2 h2 c2 ?new)\<lparr>tl_pending := []\<rparr>, Some (tomb_header @ ?torn @ encode_entry crc ?e2))"
    unfolding first_append [OF assms(2,6)] by (simp add: append_entries_def)
  have "take 48 (?torn @ encode_entry crc ?e2) = ?win" "length ?win = 48" using len assms(4) by (simp_all add: torn_window_def)
  then have "load_entries crc (?torn @ encode_entry crc ?e2) ?new = ?new"
    using len assms(4,7) by (subst load_entries.simps, subst load_entries.simps) (simp add: TOMBSTONE_ENTRY_SIZE_def decode_entry_def Let_def)
  then have b2: "tomb_load crc seed n r (Some (tomb_header @ ?torn @ encode_entry crc ?e2)) = Some ?new"
    by (simp add: tomb_load_def tomb_header_def TOMB_HEADER_SIZE_def slice_def)
  have "tomb_get ((tomb_record k2 g2 h2 c2 ?new)\<lparr>tl_pending := []\<rparr>) k2 = Some (tomb_of g2 h2 c2)" "tomb_get ?new k2 = None"
    using first_record(2) [OF assms(2)] get_new by simp_all
  then show ?thesis using l1 b1 l2 b2 by blast
qed

theorem torn_append_loses_tombstones_witness:
  "\<exists>log1 f1 boot log2 f2 boot2.
    tomb_persist (\<lambda>bs. of_nat (length bs)) (WriteTorn 40) 200 (\<lambda>_. False) (tomb_record (replicate 32 1) 1 195 CauseDah (tomb_new 0 4 10)) (Some tomb_header) = (False, log1, f1) \<and>
    tomb_load (\<lambda>bs. of_nat (length bs)) 0 4 10 f1 = Some boot \<and>
    tomb_persist (\<lambda>bs. of_nat (length bs)) WriteOk 200 (\<lambda>_. False) (tomb_record (replicate 32 2) 1 195 CauseDah boot) f1 = (True, log2, f2) \<and>
    tomb_get log2 (replicate 32 2) = Some (tomb_of 1 195 CauseDah) \<and>
    tomb_load (\<lambda>bs. of_nat (length bs)) 0 4 10 f2 = Some boot2 \<and> tomb_get boot2 (replicate 32 2) = None"
proof (rule torn_append_loses_tombstones)
  let ?crc = "\<lambda>bs :: bytes. of_nat (length bs) :: u32"
  let ?w = "torn_window ?crc 40 (replicate 32 1, tomb_of 1 195 CauseDah) (replicate 32 2, tomb_of 1 195 CauseDah)"
  have "slice 44 4 ?w = replicate 4 2" "length ?w = 48"
    by (simp_all add: torn_window_def slice_def encode_entry_def Let_def numeral_eq_Suc)
  moreover have "le_val (replicate 4 2) \<noteq> (44 :: u32)" by code_simp
  ultimately show "le_val (slice 44 4 ?w) \<noteq> ?crc (slice 0 44 ?w)" by simp
qed (simp_all add: expired_def)

text \<open>C37: A dropped tombstone comes back.  When a tombstone expires before it was first written, the checkpoint drops it from
  the index and keeps it in the buffer.  Re-creating the transaction finds nothing to clear, the next checkpoint
  writes the entry, and a restart rebuilds a tombstone over the live record.\<close>

theorem dropped_tombstone_returns:
  assumes "length k = 32" "expired h0 r h"
  shows "\<exists>log1 f1 log2 f2 boot.
    tomb_persist crc WriteOk h (\<lambda>_. False) (tomb_record k g h0 c (tomb_new seed n r)) None = (True, log1, f1) \<and> tomb_get log1 k = None \<and>
    tomb_persist crc WriteOk h (\<lambda>_. False) (tomb_clear k log1) f1 = (True, log2, f2) \<and> tomb_get log2 k = None \<and>
    tomb_load crc seed n r f2 = Some boot \<and> tomb_get boot k = Some (tomb_of g h0 c)"
proof -
  let ?log = "tomb_record k g h0 c (tomb_new seed n r)" and ?e = "(k, tomb_of g h0 c)"
  note fr = first_record [OF assms(1), of g h0 c seed n r]
  let ?g = "tomb_gc h (\<lambda>_. False) ?log" and ?l1 = "(tomb_gc h (\<lambda>_. False) ?log)\<lparr>tl_needs_compaction := False\<rparr>"
  have wf: "wf_log ?g" unfolding tomb_gc_def by (rule wf_retain [OF fr(1)])
  have none: "tomb_get ?g = Map.empty"
    unfolding tomb_gc_def using assms(2) by (auto simp: fun_eq_iff get_retain [OF fr(1)] fr(2,5))
  then have nc: "tl_needs_compaction ?g" using retain_unchanged fr(2) unfolding tomb_gc_def by fastforce
  have "(k, v) \<notin> set (snapshot_all ?g)" for k v using snapshot_member [OF wf, of k v] none by simp
  then have sn: "snapshot_all ?g = []" by (cases "snapshot_all ?g") fastforce+
  have pe: "tl_pending ?g = [?e]" by (simp add: tomb_gc_def tomb_retain_def Let_def fr(3))
  then have pl: "?g\<lparr>tl_pending := [?e], tl_needs_compaction := False\<rparr> = ?l1" by (metis tombstone_log.surjective tombstone_log.update_convs(4))
  have p1: "tomb_persist crc WriteOk h (\<lambda>_. False) ?log None = (True, ?l1, Some tomb_header)"
    using nc sn pe by (simp add: tomb_persist_def Let_def write_all_atomic_def pl)
  have "tomb_gc h (\<lambda>_. False) ?l1 = ?l1" by (rule gc_keeps) (use wf none in simp_all)
  then have p2: "tomb_persist crc WriteOk h (\<lambda>_. False) (tomb_clear k ?l1) (Some tomb_header) =
      (True, ?l1\<lparr>tl_pending := []\<rparr>, Some (tomb_header @ image_of crc [?e]))"
    using none pe by (simp add: tomb_clear_def tomb_persist_def append_entries_def)
  obtain boot where "tomb_load crc seed n r (Some (tomb_header @ image_of crc [?e])) = Some boot" "tomb_get boot = map_of (rev [?e])"
    using load_holds [of crc "[?e]" "Some (tomb_header @ image_of crc [?e])" seed n r] assms(1) by (auto simp: holds_entries_def)
  then show ?thesis using p1 p2 none by fastforce
qed

theorem dropped_tombstone_returns_witness:
  "\<exists>log1 f1 log2 f2 boot.
    tomb_persist (\<lambda>_. 0) WriteOk 200 (\<lambda>_. False) (tomb_record (replicate 32 1) 5 100 CauseDah (tomb_new 0 4 10)) None = (True, log1, f1) \<and>
    tomb_get log1 (replicate 32 1) = None \<and>
    tomb_persist (\<lambda>_. 0) WriteOk 200 (\<lambda>_. False) (tomb_clear (replicate 32 1) log1) f1 = (True, log2, f2) \<and> tomb_get log2 (replicate 32 1) = None \<and>
    tomb_load (\<lambda>_. 0) 0 4 10 f2 = Some boot \<and> tomb_get boot (replicate 32 1) = Some (tomb_of 5 100 CauseDah)"
  by (rule dropped_tombstone_returns) (simp_all add: expired_def)

end
