(* ===== verification/Engine_State.thy ===== *)
theory Engine_State
  imports Record_Store Mined_Index Height_Index Delete_Eval Tombstone_Log
begin

text \<open>
  The state of the storage engine (\<open>src/src/ops/engine.rs\<close>) and the primitives its operations are
  built from: the primary index, the stores with their allocators, the in-memory secondary indexes,
  the redo log, and the fast-path reads and writes of record headers and slots.

  A store is modelled as a map from device addresses to the record, deleted-record marker or children
  list written there; the byte images of headers and slots are the subject of \<open>Tx_Record\<close>.  Device
  and log faults are an explicit schedule of outcomes consumed by every access that can fail; the
  empty schedule is the fault-free run.  A failed write leaves the block as it was.  Operations run
  under the record's stripe lock, so each is one step.

  The operations are in a state-and-error monad with prefix combinators; \<open>wp\<close> is its weakest
  precondition and the collection \<open>wp\<close> holds the rules of the combinators and primitives.
\<close>

section \<open>State\<close>

record index_entry =
  ie_device :: u8
  ie_offset :: nat
  ie_mined_slot :: u32

record stored_record =
  sr_meta :: tx_metadata
  sr_slots :: "utxo_slot list"
  sr_cold :: bytes

datatype device_block = RecordBlock stored_record | DeletedBlock u64 | ChildBlock "bytes list"

datatype io_outcome = IoOk | IoFail | IoFull

datatype redo_intent =
    SecondaryDahUpdate txkey u32 u32
  | ExpirePreservation txkey u32
  | AppendConflictingChild txkey bytes
  | RemoveConflictingChild txkey bytes
  | AppendDeletedChild txkey bytes
  | RegionOp redo_region_op

record engine =
  en_index :: "txkey \<Rightarrow> index_entry option"
  en_blocks :: "u8 \<times> nat \<Rightarrow> device_block option"
  en_alloc :: "u8 \<Rightarrow> store_alloc"
  en_direct :: "u8 \<Rightarrow> bool"
  en_mined :: mined_index
  en_dah :: height_maps
  en_preserve :: height_maps
  en_conflicting :: "txkey set"
  en_height :: u32
  en_now :: u64
  en_redo :: bool
  en_buffered :: bool
  en_poisoned :: bool
  en_journal :: "redo_intent list"
  en_tombstones :: "tombstone_log option"
  en_dropped :: nat
  en_io :: "io_outcome list"

section \<open>The engine monad\<close>

type_synonym 'a eng = "engine \<Rightarrow> (spend_error + 'a) \<times> engine"

definition ret :: "'a \<Rightarrow> 'a eng" where
  "ret x s = (Inr x, s)"

definition throw :: "spend_error \<Rightarrow> 'a eng" where
  "throw e s = (Inl e, s)"

definition bnd :: "'a eng \<Rightarrow> ('a \<Rightarrow> 'b eng) \<Rightarrow> 'b eng" where
  "bnd m k s = (case m s of (Inr x, s') \<Rightarrow> k x s' | (Inl e, s') \<Rightarrow> (Inl e, s'))"

definition sq :: "'a eng \<Rightarrow> 'b eng \<Rightarrow> 'b eng" where
  "sq m k = bnd m (\<lambda>_. k)"

definition gets :: "(engine \<Rightarrow> 'a) \<Rightarrow> 'a eng" where
  "gets f s = (Inr (f s), s)"

definition modify :: "(engine \<Rightarrow> engine) \<Rightarrow> unit eng" where
  "modify f s = (Inr (), f s)"

definition fail_if :: "bool \<Rightarrow> spend_error \<Rightarrow> unit eng" where
  "fail_if c e = (if c then throw e else ret ())"

definition lift_sum :: "spend_error + 'a \<Rightarrow> 'a eng" where
  "lift_sum r s = (r, s)"

definition attempt :: "'a eng \<Rightarrow> (spend_error + 'a) eng" where
  "attempt m s = (case m s of (r, s') \<Rightarrow> (Inr r, s'))"

fun each :: "('a \<Rightarrow> unit eng) \<Rightarrow> 'a list \<Rightarrow> unit eng" where
  "each f [] = ret ()"
| "each f (x # xs) = sq (f x) (each f xs)"

section \<open>Faults, device and journal\<close>

definition device_io :: "unit eng" where
  "device_io s =
    (case en_io s of
       [] \<Rightarrow> (Inr (), s)
     | x # rest \<Rightarrow> (if x = IoOk then Inr () else Inl StorageError, s\<lparr>en_io := rest\<rparr>))"

text \<open>A store mapped into memory is read and written without system calls.\<close>

definition fast_io :: "u8 \<Rightarrow> unit eng" where
  "fast_io d s = (if en_direct s d then (Inr (), s) else device_io s)"

text \<open>One append to the redo log with its flush: a full log refuses the entry, a failed flush poisons
  the log, a poisoned log refuses everything.\<close>

definition log_append :: "engine \<Rightarrow> bool \<times> engine" where
  "log_append s =
    (if en_poisoned s then (False, s)
     else case en_io s of
       [] \<Rightarrow> (True, s)
     | IoOk # rest \<Rightarrow> (True, s\<lparr>en_io := rest\<rparr>)
     | IoFull # rest \<Rightarrow> (False, s\<lparr>en_io := rest\<rparr>)
     | IoFail # rest \<Rightarrow> (False, s\<lparr>en_io := rest, en_poisoned := True\<rparr>))"

definition journal_secondary_ops :: "redo_intent list \<Rightarrow> unit eng" where
  "journal_secondary_ops ops s =
    (if \<not> en_redo s \<or> ops = [] then (Inr (), s)
     else case log_append s of
       (True, s') \<Rightarrow> (Inr (), s'\<lparr>en_journal := en_journal s' @ ops\<rparr>)
     | (False, s') \<Rightarrow> (Inl StorageError, s'))"

definition poison_all_redo_logs :: "unit eng" where
  "poison_all_redo_logs = modify (\<lambda>s. if en_redo s then s\<lparr>en_poisoned := True\<rparr> else s)"

definition write_healthy :: "engine \<Rightarrow> bool" where
  "write_healthy s \<longleftrightarrow> \<not> (en_redo s \<and> en_poisoned s)"

definition observe_block_height :: "u32 \<Rightarrow> unit eng" where
  "observe_block_height h = modify (\<lambda>s. s\<lparr>en_height := max (en_height s) h\<rparr>)"

definition read_block :: "u8 \<Rightarrow> nat \<Rightarrow> stored_record eng" where
  "read_block d off s =
    (case en_blocks s (d, off) of Some (RecordBlock r) \<Rightarrow> (Inr r, s) | _ \<Rightarrow> (Inl StorageError, s))"

definition read_metadata_fast :: "u8 \<Rightarrow> nat \<Rightarrow> tx_metadata eng" where
  "read_metadata_fast d off = sq (fast_io d) (bnd (read_block d off) (\<lambda>r. ret (sr_meta r)))"

definition read_slot_fast :: "u8 \<Rightarrow> nat \<Rightarrow> u32 \<Rightarrow> utxo_slot eng" where
  "read_slot_fast d off i =
    sq (fast_io d) (bnd (read_block d off) (\<lambda>r.
      if unat i < length (sr_slots r) then ret (sr_slots r ! unat i) else throw StorageError))"

definition put_block :: "u8 \<Rightarrow> nat \<Rightarrow> device_block \<Rightarrow> unit eng" where
  "put_block d off b = modify (\<lambda>s. s\<lparr>en_blocks := (en_blocks s)((d, off) := Some b)\<rparr>)"

definition write_metadata_fast :: "u8 \<Rightarrow> nat \<Rightarrow> tx_metadata \<Rightarrow> unit eng" where
  "write_metadata_fast d off m =
    sq (fast_io d) (bnd (read_block d off) (\<lambda>r. put_block d off (RecordBlock (r\<lparr>sr_meta := m\<rparr>))))"

definition write_slot_fast :: "u8 \<Rightarrow> nat \<Rightarrow> u32 \<Rightarrow> utxo_slot \<Rightarrow> unit eng" where
  "write_slot_fast d off i sl =
    sq (fast_io d) (bnd (read_block d off) (\<lambda>r.
      put_block d off (RecordBlock (r\<lparr>sr_slots := (sr_slots r)[unat i := sl]\<rparr>))))"

definition write_zeroed_metadata_header :: "u8 \<Rightarrow> nat \<Rightarrow> u64 \<Rightarrow> unit eng" where
  "write_zeroed_metadata_header d off sz = sq (fast_io d) (put_block d off (DeletedBlock sz))"

definition list_at :: "engine \<Rightarrow> u8 \<Rightarrow> nat \<Rightarrow> nat \<Rightarrow> bytes list" where
  "list_at s d n off =
    (if n = 0 \<or> off = 0 then []
     else case en_blocks s (d, off) of Some (ChildBlock xs) \<Rightarrow> take n xs | _ \<Rightarrow> [])"

text \<open>The two children lists are read alike: no device access for an empty list.\<close>

definition read_children_at :: "u8 \<Rightarrow> nat \<Rightarrow> nat \<Rightarrow> bytes list eng" where
  "read_children_at d n off =
    (if n = 0 \<or> off = 0 then ret [] else sq device_io (gets (\<lambda>s. list_at s d n off)))"

text \<open>Allocation and free consume an outcome of the log when the store journals its regions.\<close>

definition region_append :: "u8 \<Rightarrow> engine \<Rightarrow> bool \<times> engine" where
  "region_append d s = (if store_journals (en_alloc s d) then log_append s else (True, s))"

definition set_alloc :: "u8 \<Rightarrow> store_alloc \<Rightarrow> redo_region_op list \<Rightarrow> engine \<Rightarrow> engine" where
  "set_alloc d a ops s = s\<lparr>en_alloc := (en_alloc s)(d := a), en_journal := en_journal s @ map RegionOp ops\<rparr>"

definition allocate_region :: "u8 \<Rightarrow> nat \<Rightarrow> nat eng" where
  "allocate_region d sz s =
    (let (ok, s1) = region_append d s; (r, a, ops) = store_allocate (en_alloc s d) sz ok in
     case r of
       Inr off \<Rightarrow> (Inr off, set_alloc d a ops s1)
     | Inl e \<Rightarrow> (Inl StorageError, set_alloc d a ops (if e = RedoLogFailure then s1 else s)))"

definition free_region_at :: "u8 \<Rightarrow> nat \<Rightarrow> nat \<Rightarrow> unit eng" where
  "free_region_at d off sz s =
    (let (ok, s1) = region_append d s; (r, a, ops) = store_free (en_alloc s d) off sz ok in
     case r of
       Inr _ \<Rightarrow> (Inr (), set_alloc d a ops s1)
     | Inl e \<Rightarrow> (Inl StorageError, set_alloc d a ops (if e = RedoLogFailure then s1 else s)))"

section \<open>Index and cache helpers\<close>

definition lookup_checked :: "txkey \<Rightarrow> index_entry option eng" where
  "lookup_checked key = gets (\<lambda>s. en_index s key)"

definition lookup_or_not_found :: "txkey \<Rightarrow> index_entry eng" where
  "lookup_or_not_found key =
    bnd (lookup_checked key) (\<lambda>r. case r of Some e \<Rightarrow> ret e | None \<Rightarrow> throw TxNotFound)"

definition read_metadata_for_key :: "u8 \<Rightarrow> txkey \<Rightarrow> nat \<Rightarrow> tx_metadata eng" where
  "read_metadata_for_key d key off =
    bnd (attempt (read_metadata_fast d off)) (\<lambda>r. case r of
        Inr m \<Rightarrow> if tx_id m \<noteq> key then throw TxNotFound else ret m
      | Inl e \<Rightarrow> bnd (lookup_checked key) (\<lambda>c. case c of
            Some cur \<Rightarrow> if ie_offset cur = off \<and> ie_device cur = d then throw e else throw TxNotFound
          | None \<Rightarrow> throw TxNotFound))"

definition modify_mined :: "(mined_index \<Rightarrow> mined_index) \<Rightarrow> unit eng" where
  "modify_mined f = modify (\<lambda>s. s\<lparr>en_mined := f (en_mined s)\<rparr>)"

definition mined_block_entries_at :: "txkey \<Rightarrow> u32 \<Rightarrow> (block_entry list \<times> u32) eng" where
  "mined_block_entries_at key slot s =
    (if slot = NO_MINED_SLOT then (Inr ([], 0), s)
     else case read_block_entries (en_mined s) key slot of
       Some r \<Rightarrow> (Inr r, s)
     | None \<Rightarrow> (Inl StorageError, s))"

definition mined_block_entries :: "txkey \<Rightarrow> (block_entry list \<times> u32) eng" where
  "mined_block_entries key =
    bnd (lookup_or_not_found key) (\<lambda>e. mined_block_entries_at key (ie_mined_slot e))"

definition note_all_spent :: "txkey \<Rightarrow> u32 \<Rightarrow> bool \<Rightarrow> unit eng" where
  "note_all_spent key slot b =
    (if slot = NO_MINED_SLOT then ret () else modify_mined (\<lambda>mi. set_all_spent mi key slot b))"

definition mirror_de_flags :: "txkey \<Rightarrow> u32 \<Rightarrow> tx_metadata \<Rightarrow> unit eng" where
  "mirror_de_flags key slot m =
    (if slot = NO_MINED_SLOT then ret ()
     else modify_mined (\<lambda>mi. reseed_de_flags mi key slot (device_de_flags (flags m) (preserve_until m \<noteq> 0))))"

definition cache_authoritative_lsa :: "mined_index \<Rightarrow> txkey \<Rightarrow> u32 \<Rightarrow> bool \<Rightarrow> bool" where
  "cache_authoritative_lsa mi key slot device_lsa =
    (if slot = NO_MINED_SLOT then device_lsa
     else case read_de_flags mi key slot of
       Some de \<Rightarrow> de AND MINED_LAST_SPENT_ALL \<noteq> 0
     | None \<Rightarrow> device_lsa)"

definition set_cache_lsa :: "txkey \<Rightarrow> u32 \<Rightarrow> bool \<Rightarrow> unit eng" where
  "set_cache_lsa key slot b =
    (if slot = NO_MINED_SLOT then ret ()
     else modify_mined (\<lambda>mi. set_de_flag mi key slot MINED_LAST_SPENT_ALL b))"

definition update_dah_index :: "txkey \<Rightarrow> u32 \<Rightarrow> u32 \<Rightarrow> unit eng" where
  "update_dah_index key old_height new_height =
    (if old_height = new_height then ret ()
     else sq (if old_height \<noteq> 0 then modify (\<lambda>s. s\<lparr>en_dah := dah_remove (en_dah s) key\<rparr>) else ret ())
             (if new_height \<noteq> 0 then modify (\<lambda>s. s\<lparr>en_dah := dah_insert (en_dah s) new_height key\<rparr>) else ret ()))"

definition update_preserve_index :: "txkey \<Rightarrow> u32 \<Rightarrow> u32 \<Rightarrow> unit eng" where
  "update_preserve_index key old_preserve new_preserve =
    (if old_preserve = new_preserve then ret ()
     else sq (if old_preserve \<noteq> 0 then modify (\<lambda>s. s\<lparr>en_preserve := preserve_remove (en_preserve s) key\<rparr>) else ret ())
             (if new_preserve \<noteq> 0
              then modify (\<lambda>s. s\<lparr>en_preserve := preserve_insert (en_preserve s) new_preserve key\<rparr>) else ret ()))"

definition update_both_secondary_indexes :: "txkey \<Rightarrow> u32 \<Rightarrow> u32 \<Rightarrow> unit eng" where
  "update_both_secondary_indexes key old_dah new_dah =
    (if old_dah = new_dah then ret ()
     else sq (journal_secondary_ops [SecondaryDahUpdate key old_dah new_dah])
             (update_dah_index key old_dah new_dah))"

definition sync_primary_and_both_secondary_atomic :: "txkey \<Rightarrow> u32 \<Rightarrow> u32 \<Rightarrow> unit eng" where
  "sync_primary_and_both_secondary_atomic key old_dah new_dah =
    sq (if old_dah \<noteq> new_dah then journal_secondary_ops [SecondaryDahUpdate key old_dah new_dah] else ret ())
       (update_dah_index key old_dah new_dah)"

text \<open>The delete-at-height evaluation shared by the operations that read the header: the cached
  all-spent flag replaces the header's, the patch is applied to the header.\<close>

definition evaluate_patched ::
  "txkey \<Rightarrow> u32 \<Rightarrow> tx_metadata \<Rightarrow> bool \<Rightarrow> u32 \<Rightarrow> u32 \<Rightarrow> u32 \<Rightarrow>
    (signal \<times> dah_patch option \<times> tx_metadata) eng" where
  "evaluate_patched key slot m has_blocks unmined_h current retention =
    bnd (gets (\<lambda>s. cache_authoritative_lsa (en_mined s) key slot (flag_contains (flags m) LAST_SPENT_ALL))) (\<lambda>lsa.
    let m1 = m\<lparr>flags := flag_set (flags m) LAST_SPENT_ALL lsa\<rparr> in
    bnd (lift_sum (evaluate_delete_at_height m1 has_blocks unmined_h current retention)) (\<lambda>(sig, patch).
      ret (sig, patch, case patch of Some p \<Rightarrow> apply_dah_patch m1 p | None \<Rightarrow> m1)))"

definition note_patch :: "txkey \<Rightarrow> u32 \<Rightarrow> dah_patch option \<Rightarrow> unit eng" where
  "note_patch key slot patch =
    (case patch of Some p \<Rightarrow> set_cache_lsa key slot (last_spent_all p) | None \<Rightarrow> ret ())"

definition touched :: "u64 \<Rightarrow> tx_metadata \<Rightarrow> tx_metadata" where
  "touched now m = m\<lparr>generation := generation m + 1, updated_at := now\<rparr>"

end
