(* ===== verification/Engine_Inv.thy ===== *)
theory Engine_Inv
  imports Engine_State
begin

text \<open>
  The structural invariant of the engine and the rules for reasoning about its primitives.  Every
  indexed transaction has its record at the address of its index entry, the regions of the records and
  of their children lists are live regions of the store's allocator, and no two of them coincide.  The
  logical content of the store is its \<open>view\<close>: the record and the two children lists of every indexed
  transaction.  The rules state the effect of each primitive on the view under every fault schedule.
\<close>

section \<open>Weakest preconditions\<close>

definition wp :: "'a eng \<Rightarrow> ('a \<Rightarrow> engine \<Rightarrow> bool) \<Rightarrow> (spend_error \<Rightarrow> engine \<Rightarrow> bool) \<Rightarrow> engine \<Rightarrow> bool" where
  "wp m Q E s \<longleftrightarrow> (case m s of (Inr x, s') \<Rightarrow> Q x s' | (Inl e, s') \<Rightarrow> E e s')"

named_theorems wp \<open>weakest preconditions of the combinators\<close>

lemma wp_ret [wp]: "wp (ret x) Q E = Q x"
  by (rule ext) (simp add: wp_def ret_def)

lemma wp_throw [wp]: "wp (throw e) Q E = E e"
  by (rule ext) (simp add: wp_def throw_def)

lemma wp_bnd [wp]: "wp (bnd m k) Q E = wp m (\<lambda>x. wp (k x) Q E) E"
  by (rule ext) (auto simp: wp_def bnd_def split: prod.splits sum.splits)

lemma wp_sq [wp]: "wp (sq m k) Q E = wp m (\<lambda>_. wp k Q E) E"
  by (simp add: sq_def wp_bnd)

lemma wp_gets [wp]: "wp (gets f) Q E = (\<lambda>s. Q (f s) s)"
  by (rule ext) (simp add: wp_def gets_def)

lemma wp_modify [wp]: "wp (modify f) Q E = (\<lambda>s. Q () (f s))"
  by (rule ext) (simp add: wp_def modify_def)

lemma wp_fail_if [wp]: "wp (fail_if c e) Q E = (if c then E e else Q ())"
  by (simp add: fail_if_def wp)

lemma wp_lift_sum [wp]: "wp (lift_sum r) Q E = (case r of Inr x \<Rightarrow> Q x | Inl e \<Rightarrow> E e)"
  by (rule ext) (simp add: wp_def lift_sum_def split: sum.splits)

lemma wp_attempt [wp]: "wp (attempt m) Q E = wp m (\<lambda>x. Q (Inr x)) (\<lambda>e. Q (Inl e))"
  by (rule ext) (auto simp: wp_def attempt_def split: prod.splits sum.splits)

lemma wp_if [wp]: "wp (if c then m else n) Q E = (if c then wp m Q E else wp n Q E)"
  by simp

lemma wp_mono:
  assumes "wp m Q E s" "\<And>x s'. Q x s' \<Longrightarrow> Q' x s'" "\<And>e s'. E e s' \<Longrightarrow> E' e s'"
  shows "wp m Q' E' s"
  using assms by (auto simp: wp_def split: prod.splits sum.splits)

lemma wpD: "wp m Q E s \<Longrightarrow> m s = (Inr x, s') \<Longrightarrow> Q x s'"
  by (simp add: wp_def)

lemma wpE: "wp m Q E s \<Longrightarrow> m s = (Inl e, s') \<Longrightarrow> E e s'"
  by (simp add: wp_def)

lemma wp_trivial: "(\<And>x s'. P s') \<Longrightarrow> wp m (\<lambda>_. P) (\<lambda>_. P) s"
  by (auto simp: wp_def split: prod.splits sum.splits)

section \<open>The structural invariant\<close>

definition loc :: "index_entry \<Rightarrow> u8 \<times> nat" where
  "loc e = (ie_device e, ie_offset e)"

definition record_at :: "engine \<Rightarrow> txkey \<Rightarrow> stored_record option" where
  "record_at s key =
    (case en_index s key of
       None \<Rightarrow> None
     | Some e \<Rightarrow> (case en_blocks s (loc e) of Some (RecordBlock r) \<Rightarrow> Some r | _ \<Rightarrow> None))"

datatype claim_tag = BodyClaim | ConflictingClaim | DeletedClaim

fun list_count :: "claim_tag \<Rightarrow> tx_metadata \<Rightarrow> nat" where
  "list_count ConflictingClaim m = unat (conflicting_children_count m)"
| "list_count DeletedClaim m = unat (deleted_children_count m)"
| "list_count BodyClaim m = 0"

fun list_offset :: "claim_tag \<Rightarrow> tx_metadata \<Rightarrow> nat" where
  "list_offset ConflictingClaim m = unat (conflicting_children_offset m)"
| "list_offset DeletedClaim m = unat (deleted_children_offset m)"
| "list_offset BodyClaim m = 0"

definition has_list :: "claim_tag \<Rightarrow> tx_metadata \<Rightarrow> bool" where
  "has_list tag m \<longleftrightarrow> list_count tag m \<noteq> 0 \<and> list_offset tag m \<noteq> 0"

text \<open>The regions of a transaction: its record and its children lists.\<close>

definition claim_region :: "store_alloc \<Rightarrow> index_entry \<Rightarrow> tx_metadata \<Rightarrow> claim_tag \<Rightarrow> (u8 \<times> region) option" where
  "claim_region a e m tag =
    (if tag = BodyClaim then Some (ie_device e, ie_offset e, store_reservation a (unat (record_size m)))
     else if has_list tag m
     then Some (ie_device e, list_offset tag m, store_reservation a (32 * list_count tag m))
     else None)"

definition claim :: "engine \<Rightarrow> txkey \<times> claim_tag \<Rightarrow> (u8 \<times> region) option" where
  "claim s c =
    (case en_index s (fst c) of
       None \<Rightarrow> None
     | Some e \<Rightarrow>
         (case en_blocks s (loc e) of
            Some (RecordBlock r) \<Rightarrow> claim_region (en_alloc s (ie_device e)) e (sr_meta r) (snd c)
          | _ \<Rightarrow> None))"

definition record_ok :: "txkey \<Rightarrow> stored_record \<Rightarrow> bool" where
  "record_ok key r \<longleftrightarrow> tx_id (sr_meta r) = key \<and> length (sr_slots r) = unat (utxo_count (sr_meta r)) \<and>
    record_size (sr_meta r) \<noteq> 0"

definition list_ok :: "engine \<Rightarrow> index_entry \<Rightarrow> tx_metadata \<Rightarrow> claim_tag \<Rightarrow> bool" where
  "list_ok s e m tag \<longleftrightarrow> has_list tag m \<longrightarrow>
    (\<exists>xs. en_blocks s (ie_device e, list_offset tag m) = Some (ChildBlock xs) \<and> length xs = list_count tag m)"

definition records_ok :: "engine \<Rightarrow> bool" where
  "records_ok s \<longleftrightarrow> (\<forall>key e. en_index s key = Some e \<longrightarrow>
    (\<exists>r. en_blocks s (loc e) = Some (RecordBlock r) \<and> record_ok key r \<and> (\<forall>tag. list_ok s e (sr_meta r) tag)))"

text \<open>\<open>X\<close> holds the regions allocated or unlinked within an operation.\<close>

definition space_ok :: "(u8 \<times> region) set \<Rightarrow> engine \<Rightarrow> (u8 \<Rightarrow> region set) \<Rightarrow> bool" where
  "space_ok X s L \<longleftrightarrow>
    (\<forall>d. store_ok (en_alloc s d) (L d)) \<and>
    (\<forall>d r. (d, r) \<in> X \<longrightarrow> r \<in> L d \<and> 0 < snd r) \<and>
    (\<forall>c d r. claim s c = Some (d, r) \<longrightarrow> r \<in> L d \<and> 0 < snd r \<and> (d, r) \<notin> X) \<and>
    (\<forall>c c' x. claim s c = Some x \<longrightarrow> claim s c' = Some x \<longrightarrow> c = c')"

definition structure_ok :: "(u8 \<times> region) set \<Rightarrow> engine \<Rightarrow> bool" where
  "structure_ok X s \<longleftrightarrow> records_ok s \<and> (\<exists>L. space_ok X s L)"

section \<open>The logical view\<close>

type_synonym logical = "stored_record \<times> (claim_tag \<Rightarrow> bytes list)"

definition view :: "engine \<Rightarrow> txkey \<Rightarrow> logical option" where
  "view s key =
    (case en_index s key of
       None \<Rightarrow> None
     | Some e \<Rightarrow>
         (case en_blocks s (loc e) of
            Some (RecordBlock r) \<Rightarrow>
              Some (r, \<lambda>tag. list_at s (ie_device e) (list_count tag (sr_meta r)) (list_offset tag (sr_meta r)))
          | _ \<Rightarrow> None))"

text \<open>The state holds the logical content \<open>V\<close> under the index \<open>I\<close>, with reservation sizes \<open>R\<close> and the
  unlinked regions \<open>X\<close>.\<close>

definition reservations :: "engine \<Rightarrow> u8 \<Rightarrow> nat \<Rightarrow> nat" where
  "reservations s d = store_reservation (en_alloc s d)"

definition at ::
  "(u8 \<Rightarrow> nat \<Rightarrow> nat) \<Rightarrow> (txkey \<Rightarrow> logical option) \<Rightarrow> (txkey \<Rightarrow> index_entry option) \<Rightarrow> (u8 \<times> region) set \<Rightarrow>
    engine \<Rightarrow> bool" where
  "at R V I X s \<longleftrightarrow> structure_ok X s \<and> view s = V \<and> en_index s = I \<and> reservations s = R"

definition core :: "engine \<Rightarrow> (txkey \<Rightarrow> index_entry option) \<times> (u8 \<times> nat \<Rightarrow> device_block option) \<times> (u8 \<Rightarrow> store_alloc)" where
  "core s = (en_index s, en_blocks s, en_alloc s)"

lemma core_eqD:
  assumes "core s' = core s"
  shows "en_index s' = en_index s" "en_blocks s' = en_blocks s" "en_alloc s' = en_alloc s"
  using assms by (simp_all add: core_def)

lemma core_view:
  assumes "core s' = core s"
  shows "view s' = view s" "structure_ok X s' = structure_ok X s" "reservations s' = reservations s"
proof -
  note c = core_eqD [OF assms]
  have l: "list_at s' = list_at s" unfolding list_at_def [abs_def] c by (rule refl)
  show "view s' = view s" unfolding view_def [abs_def] c l by (rule refl)
  have "claim s' = claim s" unfolding claim_def [abs_def] c by (rule refl)
  then show "structure_ok X s' = structure_ok X s"
    by (simp add: structure_ok_def space_ok_def records_ok_def list_ok_def c)
  show "reservations s' = reservations s" by (rule ext) (simp add: reservations_def c)
qed

lemma at_core: "at R V I X s \<Longrightarrow> core s' = core s \<Longrightarrow> at R V I X s'"
  using core_view [of s' s] core_eqD(1) [of s' s] by (simp add: at_def)

lemma space_mono: "space_ok X s L \<Longrightarrow> Y \<subseteq> X \<Longrightarrow> space_ok Y s L"
  unfolding space_ok_def by (elim conjE, intro conjI) (assumption | blast)+

lemma at_mono: "at R V I X s \<Longrightarrow> Y \<subseteq> X \<Longrightarrow> at R V I Y s"
  using space_mono unfolding at_def structure_ok_def by blast

section \<open>Primitives that touch neither index, stores nor allocators\<close>

definition noncore :: "'a eng \<Rightarrow> bool" where
  "noncore m \<longleftrightarrow> (\<forall>s. core (snd (m s)) = core s)"

named_theorems noncore \<open>operations that leave the index and the stores alone\<close>

lemma noncoreI: "(\<And>s. core (snd (m s)) = core s) \<Longrightarrow> noncore m"
  by (simp add: noncore_def)

lemma noncore_ret [noncore]: "noncore (ret x)" by (simp add: noncore_def ret_def)
lemma noncore_throw [noncore]: "noncore (throw e)" by (simp add: noncore_def throw_def)
lemma noncore_gets [noncore]: "noncore (gets f)" by (simp add: noncore_def gets_def)
lemma noncore_lift_sum [noncore]: "noncore (lift_sum r)" by (simp add: noncore_def lift_sum_def)
lemma noncore_fail_if [noncore]: "noncore (fail_if c e)" by (simp add: fail_if_def noncore)

lemma noncore_modify [noncore]: "(\<And>s. core (f s) = core s) \<Longrightarrow> noncore (modify f)"
  by (simp add: noncore_def modify_def)

lemma noncore_bnd [noncore]: "noncore m \<Longrightarrow> (\<And>x. noncore (k x)) \<Longrightarrow> noncore (bnd m k)"
  by (auto simp: noncore_def bnd_def split: prod.splits sum.splits) (metis snd_conv)+

lemma noncore_sq [noncore]: "noncore m \<Longrightarrow> noncore k \<Longrightarrow> noncore (sq m k)"
  by (simp add: sq_def noncore_bnd)

lemma noncore_if [noncore]: "noncore m \<Longrightarrow> noncore n \<Longrightarrow> noncore (if c then m else n)"
  by simp

lemma noncore_attempt [noncore]: "noncore m \<Longrightarrow> noncore (attempt m)"
  by (auto simp: noncore_def attempt_def split: prod.splits) (metis snd_conv)

lemma noncore_device_io [noncore]: "noncore device_io"
  by (auto simp: noncore_def device_io_def core_def split: list.splits)

lemma noncore_fast_io [noncore]: "noncore (fast_io d)"
  using noncore_device_io by (simp add: noncore_def fast_io_def)

lemma core_log_append: "core (snd (log_append s)) = core s"
  by (simp add: log_append_def core_def split: list.splits io_outcome.splits)

lemma noncore_journal [noncore]: "noncore (journal_secondary_ops ops)"
proof (rule noncoreI)
  fix s
  show "core (snd (journal_secondary_ops ops s)) = core s"
    using core_log_append [of s]
    by (auto simp: journal_secondary_ops_def core_def split: prod.splits bool.splits)
qed

lemma noncore_poison [noncore]: "noncore poison_all_redo_logs"
  unfolding poison_all_redo_logs_def by (intro noncore) (simp add: core_def)

lemma noncore_observe [noncore]: "noncore (observe_block_height h)"
  unfolding observe_block_height_def by (intro noncore) (simp add: core_def)

lemma noncore_read_block [noncore]: "noncore (read_block d off)"
  by (auto simp: noncore_def read_block_def split: option.splits device_block.splits)

lemma noncore_read_metadata [noncore]: "noncore (read_metadata_fast d off)"
  unfolding read_metadata_fast_def by (intro noncore)

lemma noncore_read_slot [noncore]: "noncore (read_slot_fast d off i)"
  unfolding read_slot_fast_def by (intro noncore)

lemma noncore_lookup [noncore]: "noncore (lookup_checked key)"
  unfolding lookup_checked_def by (intro noncore)

lemma noncore_lookup_or [noncore]: "noncore (lookup_or_not_found key)"
  unfolding lookup_or_not_found_def by (intro noncore) (simp add: noncore split: option.split)

lemma noncore_mined [noncore]: "noncore (modify_mined f)"
  unfolding modify_mined_def by (intro noncore) (simp add: core_def)

lemma noncore_entries_at [noncore]: "noncore (mined_block_entries_at key slot)"
  by (auto simp: noncore_def mined_block_entries_at_def split: option.splits)

lemma noncore_entries [noncore]: "noncore (mined_block_entries key)"
  unfolding mined_block_entries_def by (intro noncore)

lemma noncore_note_all_spent [noncore]: "noncore (note_all_spent key slot b)"
  unfolding note_all_spent_def by (intro noncore)

lemma noncore_mirror [noncore]: "noncore (mirror_de_flags key slot m)"
  unfolding mirror_de_flags_def by (intro noncore)

lemma noncore_set_cache_lsa [noncore]: "noncore (set_cache_lsa key slot b)"
  unfolding set_cache_lsa_def by (intro noncore)

lemma noncore_note_patch [noncore]: "noncore (note_patch key slot p)"
  unfolding note_patch_def by (simp add: noncore split: option.split)

lemma noncore_dah [noncore]: "noncore (update_dah_index key a b)"
  unfolding update_dah_index_def by (intro noncore) (simp_all add: core_def)

lemma noncore_preserve [noncore]: "noncore (update_preserve_index key a b)"
  unfolding update_preserve_index_def by (intro noncore) (simp_all add: core_def)

lemma noncore_both [noncore]: "noncore (update_both_secondary_indexes key a b)"
  unfolding update_both_secondary_indexes_def by (intro noncore)

lemma noncore_sync_primary [noncore]: "noncore (sync_primary_and_both_secondary_atomic key a b)"
  unfolding sync_primary_and_both_secondary_atomic_def by (intro noncore)

lemma noncore_evaluate [noncore]: "noncore (evaluate_patched key slot m hb um h ret_h)"
  unfolding evaluate_patched_def Let_def by (intro noncore) (simp add: noncore split: prod.split)

lemma wp_noncore:
  assumes "noncore m" "at R V I X s"
    and "\<And>x s'. at R V I X s' \<Longrightarrow> Q x s'" "\<And>e s'. at R V I X s' \<Longrightarrow> E e s'"
  shows "wp m Q E s"
proof -
  obtain r s' where m: "m s = (r, s')" by force
  then have "core s' = core s" using assms(1) by (metis noncore_def snd_conv)
  then have "at R V I X s'" using at_core [OF assms(2)] by simp
  then show ?thesis using assms(3,4) m by (auto simp: wp_def split: sum.splits)
qed

section \<open>Records and lists at their addresses\<close>

lemma at_indexed:
  assumes "at R V I X s" "I key = Some e"
  obtains r where "en_blocks s (loc e) = Some (RecordBlock r)" "record_ok key r" "\<And>tag. list_ok s e (sr_meta r) tag"
    "V key = Some (r, \<lambda>tag. list_at s (ie_device e) (list_count tag (sr_meta r)) (list_offset tag (sr_meta r)))"
proof -
  have "records_ok s" "en_index s key = Some e" "view s = V"
    using assms by (auto simp: at_def structure_ok_def)
  then obtain r where r: "en_blocks s (loc e) = Some (RecordBlock r)" "record_ok key r"
      "\<And>tag. list_ok s e (sr_meta r) tag"
    unfolding records_ok_def by blast
  moreover have "V key = Some (r, \<lambda>tag. list_at s (ie_device e) (list_count tag (sr_meta r)) (list_offset tag (sr_meta r)))"
    using \<open>view s = V\<close> \<open>en_index s key = Some e\<close> r(1) by (auto simp: view_def)
  ultimately show thesis using that by blast
qed

lemma at_viewed:
  assumes "at R V I X s" "V key = Some (r, ls)"
  obtains e where "I key = Some e" "en_blocks s (loc e) = Some (RecordBlock r)" "record_ok key r"
    "\<And>tag. list_ok s e (sr_meta r) tag"
    "ls = (\<lambda>tag. list_at s (ie_device e) (list_count tag (sr_meta r)) (list_offset tag (sr_meta r)))"
proof -
  have "view s key = Some (r, ls)" "en_index s = I" using assms by (auto simp: at_def)
  then obtain e where e: "I key = Some e" by (auto simp: view_def split: option.splits)
  then obtain q where q: "en_blocks s (loc e) = Some (RecordBlock q)" "record_ok key q"
      "\<And>tag. list_ok s e (sr_meta q) tag"
      "V key = Some (q, \<lambda>tag. list_at s (ie_device e) (list_count tag (sr_meta q)) (list_offset tag (sr_meta q)))"
    using at_indexed [OF assms(1)] by metis
  then show thesis using that [OF e] assms(2) by auto
qed

lemma at_dom:
  assumes "at R V I X s"
  shows "V key = None \<longleftrightarrow> I key = None"
proof (cases "I key")
  case None
  then show ?thesis using assms by (auto simp: at_def view_def)
next
  case (Some e)
  then show ?thesis using at_indexed [OF assms Some] by fastforce
qed

lemma records_apart:
  assumes "records_ok s" "en_index s key = Some e" "en_index s key' = Some e'" "loc e = loc e'"
  shows "key = key'"
  using assms unfolding records_ok_def record_ok_def by (metis device_block.inject(1) option.inject)

lemma list_apart:
  assumes "records_ok s" "en_index s key = Some e" "en_index s key' = Some e'"
    "en_blocks s (loc e') = Some (RecordBlock r')" "has_list tag (sr_meta r')"
  shows "loc e \<noteq> (ie_device e', list_offset tag (sr_meta r'))"
proof -
  obtain r where "en_blocks s (loc e) = Some (RecordBlock r)" using assms(1,2) unfolding records_ok_def by blast
  moreover have "list_ok s e' (sr_meta r') tag"
    using assms(1,3,4) unfolding records_ok_def by (metis device_block.inject(1) option.inject)
  ultimately show ?thesis using assms(5) unfolding list_ok_def by auto
qed

lemma list_at_has: "list_at s d (list_count tag m) (list_offset tag m) =
    (if has_list tag m then (case en_blocks s (d, list_offset tag m) of
        Some (ChildBlock xs) \<Rightarrow> take (list_count tag m) xs | _ \<Rightarrow> []) else [])"
  by (simp add: list_at_def has_list_def)

section \<open>Changing one transaction's regions\<close>

lemma space_update_key:
  assumes sp: "space_ok X s L" and al: "en_alloc s' = en_alloc s"
    and oth: "\<And>k t. k \<noteq> key \<Longrightarrow> claim s' (k, t) = claim s (k, t)"
    and own: "\<And>t. t \<noteq> moved \<Longrightarrow> claim s' (key, t) = claim s (key, t) \<or> claim s' (key, t) = None"
    and chg: "\<And>x. claim s' (key, moved) = Some x \<Longrightarrow> x \<in> X \<or> claim s (key, moved) = Some x"
  shows "space_ok ((X \<union> {x. \<exists>t. claim s (key, t) = Some x}) - {x. \<exists>t. claim s' (key, t) = Some x}) s' L"
proof -
  have st: "store_ok (en_alloc s d) (L d)" for d using sp by (simp add: space_ok_def)
  have cl: "r \<in> L d \<and> 0 < snd r \<and> (d, r) \<notin> X" if "claim s c = Some (d, r)" for c d r
    using sp that unfolding space_ok_def by blast
  have xl: "r \<in> L d \<and> 0 < snd r" if "(d, r) \<in> X" for d r using sp that unfolding space_ok_def by blast
  have inj: "c = c'" if "claim s c = Some x" "claim s c' = Some x" for c c' x
    using sp that unfolding space_ok_def by blast
  have old: "claim s c = Some x \<or> (c = (key, moved) \<and> x \<in> X)" if h: "claim s' c = Some x" for c x
  proof (cases "fst c = key")
    case True
    then show ?thesis using h own [of "snd c"] chg [of x] by (cases c; cases "snd c = moved") auto
  next
    case False
    then show ?thesis using h oth [of "fst c" "snd c"] by simp
  qed
  have no: "(d, r) \<notin> X \<union> {x. \<exists>t. claim s (key, t) = Some x} - {x. \<exists>t. claim s' (key, t) = Some x}"
    if h: "claim s' c = Some (d, r)" for c d r
  proof (cases "fst c = key")
    case True
    then have "\<exists>t. claim s' (key, t) = Some (d, r)" using h by (metis prod.collapse)
    then show ?thesis by blast
  next
    case False
    then have c: "claim s c = Some (d, r)" using old [OF h] by auto
    then have "(d, r) \<notin> X" using cl by blast
    moreover have "claim s (key, t) \<noteq> Some (d, r)" for t using inj [OF c] False by force
    ultimately show ?thesis by blast
  qed
  show ?thesis
    unfolding space_ok_def
  proof (intro conjI allI impI)
    fix d show "store_ok (en_alloc s' d) (L d)" using st al by simp
  next
    fix d r assume "(d, r) \<in> X \<union> {x. \<exists>t. claim s (key, t) = Some x} - {x. \<exists>t. claim s' (key, t) = Some x}"
    then show "r \<in> L d" "0 < snd r" using cl xl by blast+
  next
    fix c d r assume h: "claim s' c = Some (d, r)"
    show "r \<in> L d" "0 < snd r" using old [OF h] cl xl by blast+
    show "(d, r) \<notin> X \<union> {x. \<exists>t. claim s (key, t) = Some x} - {x. \<exists>t. claim s' (key, t) = Some x}" by (rule no [OF h])
  next
    fix c c' x assume h: "claim s' c = Some x" "claim s' c' = Some x"
    obtain d r where x: "x = (d, r)" by (metis surj_pair)
    show "c = c'"
      using old [OF h(1)] old [OF h(2)] inj [of c x c'] cl [of c d r] cl [of c' d r] by (auto simp: x)
  qed
qed

section \<open>Writing a record in place\<close>

definition same_claims :: "stored_record \<Rightarrow> stored_record \<Rightarrow> bool" where
  "same_claims r r' \<longleftrightarrow> tx_id (sr_meta r') = tx_id (sr_meta r) \<and> utxo_count (sr_meta r') = utxo_count (sr_meta r) \<and>
    record_size (sr_meta r') = record_size (sr_meta r) \<and> length (sr_slots r') = length (sr_slots r) \<and>
    conflicting_children_count (sr_meta r') = conflicting_children_count (sr_meta r) \<and>
    conflicting_children_offset (sr_meta r') = conflicting_children_offset (sr_meta r) \<and>
    deleted_children_count (sr_meta r') = deleted_children_count (sr_meta r) \<and>
    deleted_children_offset (sr_meta r') = deleted_children_offset (sr_meta r)"

abbreviation put_at :: "u8 \<times> nat \<Rightarrow> device_block \<Rightarrow> engine \<Rightarrow> engine" where
  "put_at a b s \<equiv> s\<lparr>en_blocks := (en_blocks s)(a := Some b)\<rparr>"

lemma same_claims_lists:
  assumes "same_claims r r'"
  shows "list_count tag (sr_meta r') = list_count tag (sr_meta r)" "list_offset tag (sr_meta r') = list_offset tag (sr_meta r)"
    "has_list tag (sr_meta r') = has_list tag (sr_meta r)" "claim_region a e (sr_meta r') tag = claim_region a e (sr_meta r) tag"
proof -
  show 1: "list_count tag (sr_meta r') = list_count tag (sr_meta r)" "list_offset tag (sr_meta r') = list_offset tag (sr_meta r)"
    using assms by (cases tag; simp add: same_claims_def)+
  then show 2: "has_list tag (sr_meta r') = has_list tag (sr_meta r)" by (simp add: has_list_def)
  show "claim_region a e (sr_meta r') tag = claim_region a e (sr_meta r) tag"
    using 1 2 assms by (simp add: claim_region_def same_claims_def)
qed

text \<open>The effect of a write at the record of \<open>key\<close>, with the list claims of its new header.\<close>

lemma put_record_others:
  assumes rec: "records_ok s" and e: "en_index s key = Some e" and k: "en_index s k = Some f" "k \<noteq> key"
  shows "en_blocks (put_at (loc e) b s) (loc f) = en_blocks s (loc f)"
    and "en_blocks s (loc f) = Some (RecordBlock q) \<Longrightarrow> has_list tag (sr_meta q) \<Longrightarrow>
      en_blocks (put_at (loc e) b s) (ie_device f, list_offset tag (sr_meta q)) = en_blocks s (ie_device f, list_offset tag (sr_meta q))"
proof -
  have "loc f \<noteq> loc e" using records_apart [OF rec k(1) e] k(2) by auto
  then show "en_blocks (put_at (loc e) b s) (loc f) = en_blocks s (loc f)" by simp
  assume "en_blocks s (loc f) = Some (RecordBlock q)" "has_list tag (sr_meta q)"
  then have "loc e \<noteq> (ie_device f, list_offset tag (sr_meta q))" by (rule list_apart [OF rec e k(1)])
  then show "en_blocks (put_at (loc e) b s) (ie_device f, list_offset tag (sr_meta q)) = en_blocks s (ie_device f, list_offset tag (sr_meta q))"
    by simp
qed

lemma put_record_claim:
  assumes "records_ok s" "en_index s key = Some e" "k \<noteq> key"
  shows "claim (put_at (loc e) b s) (k, t) = claim s (k, t)"
proof (cases "en_index s k")
  case (Some f)
  then obtain q where q: "en_blocks s (loc f) = Some (RecordBlock q)" using assms(1) unfolding records_ok_def by blast
  then show ?thesis using Some put_record_others(1) [OF assms(1,2) Some assms(3), of b] by (simp add: claim_def)
qed (simp add: claim_def)

lemma put_record_view:
  assumes rec: "records_ok s" and e: "en_index s key = Some e" and k: "k \<noteq> key"
  shows "view (put_at (loc e) b s) k = view s k"
proof (cases "en_index s k")
  case (Some f)
  then obtain q where q: "en_blocks s (loc f) = Some (RecordBlock q)" using rec unfolding records_ok_def by blast
  have "list_at (put_at (loc e) b s) (ie_device f) (list_count tag (sr_meta q)) (list_offset tag (sr_meta q)) =
      list_at s (ie_device f) (list_count tag (sr_meta q)) (list_offset tag (sr_meta q))" for tag
    using put_record_others(2) [OF rec e Some k q] unfolding list_at_has by presburger
  then show ?thesis using Some q put_record_others(1) [OF rec e Some k] by (simp add: view_def)
qed (simp add: view_def)

lemma put_record_records:
  assumes rec: "records_ok s" and e: "en_index s key = Some e" and r': "record_ok key r'"
    and l: "\<And>tag. list_ok (put_at (loc e) (RecordBlock r') s) e (sr_meta r') tag"
  shows "records_ok (put_at (loc e) (RecordBlock r') s)"
  unfolding records_ok_def
proof (intro allI impI)
  let ?s = "put_at (loc e) (RecordBlock r') s"
  fix k f assume "en_index ?s k = Some f"
  then have f: "en_index s k = Some f" by simp
  show "\<exists>r. en_blocks ?s (loc f) = Some (RecordBlock r) \<and> record_ok k r \<and> (\<forall>tag. list_ok ?s f (sr_meta r) tag)"
  proof (cases "k = key")
    case True
    then have fe: "f = e" using e f by simp
    show ?thesis unfolding fe True using r' l by (intro exI [of _ r'] conjI allI) simp_all
  next
    case False
    obtain q where q: "en_blocks s (loc f) = Some (RecordBlock q)" "record_ok k q" "\<And>tag. list_ok s f (sr_meta q) tag"
      using rec f unfolding records_ok_def by blast
    have "list_ok ?s f (sr_meta q) tag" for tag
      using q(3) [of tag] put_record_others(2) [OF rec e f False q(1)] unfolding list_ok_def by presburger
    then show ?thesis using q(1,2) put_record_others(1) [OF rec e f False] by metis
  qed
qed

lemma own_list_untouched:
  assumes rec: "records_ok s" and e: "en_index s key = Some e" "en_blocks s (loc e) = Some (RecordBlock r)"
    and "has_list tag (sr_meta r)"
  shows "en_blocks (put_at (loc e) b s) (ie_device e, list_offset tag (sr_meta r)) = en_blocks s (ie_device e, list_offset tag (sr_meta r))"
  using list_apart [OF rec e(1) e(1) e(2) assms(4)] by simp

lemma at_put_record:
  assumes at: "at R V I X s" and e: "I key = Some e" and v: "V key = Some (r, ls)" and sc: "same_claims r r'"
  shows "at R (V(key \<mapsto> (r', ls))) I X (put_at (loc e) (RecordBlock r') s)"
proof -
  let ?s = "put_at (loc e) (RecordBlock r') s"
  obtain L where rec: "records_ok s" and sp: "space_ok X s L" and ie: "en_index s key = Some e" and vw: "view s = V" "en_index s = I" "reservations s = R"
    using at e by (auto simp: at_def structure_ok_def)
  obtain e' where "I key = Some e'" and b0: "en_blocks s (loc e') = Some (RecordBlock r)" and ro: "record_ok key r"
      and lo0: "\<And>tag. list_ok s e' (sr_meta r) tag"
      and ls0: "ls = (\<lambda>tag. list_at s (ie_device e') (list_count tag (sr_meta r)) (list_offset tag (sr_meta r)))"
    using at_viewed [OF at v] by blast
  then have "e' = e" using e by simp
  note b = b0 [unfolded this] and lo = lo0 [unfolded this] and ls = ls0 [unfolded this]
  note keep = own_list_untouched [OF rec ie b, where b = "RecordBlock r'"]
  have own: "list_ok ?s e (sr_meta r') tag" for tag
    using lo [of tag] keep [of tag] same_claims_lists(1-3) [OF sc, of tag] by (simp add: list_ok_def)
  have "record_ok key r'" using ro sc by (simp add: record_ok_def same_claims_def)
  then have rec': "records_ok ?s" by (rule put_record_records [OF rec ie _ own])
  have "list_at ?s (ie_device e) (list_count tag (sr_meta r')) (list_offset tag (sr_meta r')) = ls tag" for tag
    using keep [of tag] same_claims_lists(1-3) [OF sc, of tag] by (simp add: ls list_at_has)
  then have "view ?s key = Some (r', ls)" using ie by (simp add: view_def)
  then have "view ?s = V(key \<mapsto> (r', ls))" using put_record_view [OF rec ie] vw by (auto intro!: ext)
  moreover have "claim ?s (k, t) = claim s (k, t)" for k t
  proof (cases "k = key")
    case True
    then show ?thesis using ie b same_claims_lists(4) [OF sc] by (simp add: claim_def)
  qed (rule put_record_claim [OF rec ie])
  then have "claim ?s = claim s" by (auto intro!: ext)
  then have "space_ok X ?s L" using sp by (simp add: space_ok_def)
  ultimately show ?thesis using rec' vw by (auto simp: at_def structure_ok_def reservations_def [abs_def])
qed

end
