(* ===== verification/Engine_Space.thy ===== *)
theory Engine_Space
  imports Engine_Inv
begin

text \<open>
  The rules for the engine primitives that allocate and free regions, write to fresh regions and move
  index entries.  Here the engine meets the allocator: that a fresh region is not the record or the
  children list of another transaction is the law of the device allocator interface.
\<close>

section \<open>Allocation and free\<close>

lemma same_claim_inputs:
  assumes "en_index s' = en_index s" "en_blocks s' = en_blocks s" "reservations s' = reservations s"
  shows "claim s' = claim s" "view s' = view s" "records_ok s' = records_ok s"
proof -
  have r: "store_reservation (en_alloc s' d) n = store_reservation (en_alloc s d) n" for d n
    using fun_cong [OF fun_cong [OF assms(3), of d], of n] by (simp add: reservations_def)
  have "claim_region (en_alloc s' d) e m t = claim_region (en_alloc s d) e m t" for d e m t
    by (simp add: claim_region_def r)
  then show "claim s' = claim s" unfolding claim_def [abs_def] assms(1,2) by (simp only:)
  have l: "list_at s' = list_at s" unfolding list_at_def [abs_def] assms(2) by (rule refl)
  show "view s' = view s" unfolding view_def [abs_def] assms(1,2) l by (rule refl)
  show "records_ok s' = records_ok s" by (simp add: records_ok_def list_ok_def assms(1,2))
qed

lemma allocate_region_effect:
  assumes "allocate_region d sz s = (r, s')"
  obtains ok a ops res where "store_allocate (en_alloc s d) sz ok = (res, a, ops)"
    "core s' = (en_index s, en_blocks s, (en_alloc s)(d := a))"
    "case r of Inr off \<Rightarrow> res = Inr off | Inl e \<Rightarrow> e = StorageError \<and> (\<exists>x. res = Inl x)"
proof -
  obtain ok s1 where ra: "region_append d s = (ok, s1)" by force
  obtain res a ops where al: "store_allocate (en_alloc s d) sz ok = (res, a, ops)" by (metis prod_cases3)
  have "core s1 = core s" using ra core_log_append [of s] by (auto simp: region_append_def split: if_splits)
  then have "core (set_alloc d a ops s1) = (en_index s, en_blocks s, (en_alloc s)(d := a))"
    "core (set_alloc d a ops s) = (en_index s, en_blocks s, (en_alloc s)(d := a))"
    by (auto simp: core_def set_alloc_def)
  then show thesis
    using that [OF al] assms ra al by (cases res) (auto simp: allocate_region_def)
qed

lemma free_region_effect:
  assumes "free_region_at d off sz s = (r, s')"
  obtains ok a ops res where "store_free (en_alloc s d) off sz ok = (res, a, ops)"
    "core s' = (en_index s, en_blocks s, (en_alloc s)(d := a))"
proof -
  obtain ok s1 where ra: "region_append d s = (ok, s1)" by force
  obtain res a ops where al: "store_free (en_alloc s d) off sz ok = (res, a, ops)" by (metis prod_cases3)
  have "core s1 = core s" using ra core_log_append [of s] by (auto simp: region_append_def split: if_splits)
  then have "core (set_alloc d a ops s1) = (en_index s, en_blocks s, (en_alloc s)(d := a))"
    "core (set_alloc d a ops s) = (en_index s, en_blocks s, (en_alloc s)(d := a))"
    by (auto simp: core_def set_alloc_def)
  then show thesis
    using that [OF al] assms ra al by (cases res) (auto simp: free_region_at_def)
qed

lemma at_space:
  assumes "at R V I X s"
  obtains L where "space_ok X s L" "records_ok s" "view s = V" "en_index s = I" "reservations s = R"
  using assms by (auto simp: at_def structure_ok_def)

text \<open>A step that changes only the allocator of one store.\<close>

lemma at_set_alloc:
  assumes at: "at R V I X s" and sp: "space_ok X s L" and c: "core s' = (en_index s, en_blocks s, (en_alloc s)(d := a))"
    and res: "\<And>n. store_reservation a n = store_reservation (en_alloc s d) n"
    and ok: "store_ok a held" and keep: "\<And>r. r \<in> L d \<Longrightarrow> (d, r) \<notin> Z \<Longrightarrow> r \<in> held"
    and Y: "\<And>e r. (e, r) \<in> Y \<Longrightarrow> 0 < snd r \<and> (e = d \<and> r \<in> held \<or> e \<noteq> d \<and> (e, r) \<in> X)"
    and disj: "\<And>x. x \<in> Y \<union> Z \<Longrightarrow> x \<notin> ran (claim s)"
  shows "at R V I Y s'"
proof -
  have f: "en_index s' = en_index s" "en_blocks s' = en_blocks s" "en_alloc s' = (en_alloc s)(d := a)"
    using c by (simp_all add: core_def)
  have "reservations s' = reservations s" by (intro ext) (simp add: reservations_def f res)
  note same = same_claim_inputs [OF f(1,2) this] and rs = this
  have "space_ok Y s' (L(d := held))"
    unfolding space_ok_def same(1)
  proof (intro conjI allI impI)
    fix e show "store_ok (en_alloc s' e) ((L(d := held)) e)" using sp ok f(3) by (simp add: space_ok_def)
  next
    fix e r assume h: "(e, r) \<in> Y"
    have "r \<in> L e" if "(e, r) \<in> X" using sp that unfolding space_ok_def by blast
    then show "r \<in> (L(d := held)) e" using Y [OF h] by auto
    show "0 < snd r" using Y [OF h] by blast
  next
    fix cl e r assume h: "claim s cl = Some (e, r)"
    then have r: "r \<in> L e" "0 < snd r" using sp unfolding space_ok_def by blast+
    have "(e, r) \<in> ran (claim s)" using h by (simp add: ranI)
    then have "(e, r) \<notin> Y \<and> (e, r) \<notin> Z" using disj by blast
    then show "r \<in> (L(d := held)) e" "0 < snd r" "(e, r) \<notin> Y" using r keep [of r] by (cases "e = d"; simp)+
  next
    fix cl cl' x assume "claim s cl = Some x" "claim s cl' = Some x"
    then show "cl = cl'" using sp unfolding space_ok_def by blast
  qed
  moreover have "records_ok s'" "view s' = V" "en_index s' = I" "reservations s' = R"
    using at same rs f(1) by (simp_all add: at_def structure_ok_def)
  ultimately show ?thesis by (auto simp: at_def structure_ok_def)
qed

definition fresh :: "u8 \<Rightarrow> nat \<Rightarrow> nat \<Rightarrow> (u8 \<times> region) set \<Rightarrow> bool" where
  "fresh d off n X \<longleftrightarrow> (d, off, n) \<notin> X \<and> 0 < n \<and> 0 < off \<and> off < 2 ^ 64"

lemma wp_allocate:
  assumes at: "at R V I X s" and sz: "0 < sz" "sz < 2 ^ 32"
    and Q: "\<And>off s'. fresh d off (R d sz) X \<Longrightarrow> at R V I (insert (d, off, R d sz) X) s' \<Longrightarrow> Q off s'"
    and E: "\<And>s'. at R V I X s' \<Longrightarrow> E StorageError s'"
  shows "wp (allocate_region d sz) Q E s"
proof -
  obtain r s' where m: "allocate_region d sz s = (r, s')" by force
  obtain ok a ops res where al: "store_allocate (en_alloc s d) sz ok = (res, a, ops)"
      and c: "core s' = (en_index s, en_blocks s, (en_alloc s)(d := a))"
      and r: "case r of Inr off \<Rightarrow> res = Inr off | Inl e \<Rightarrow> e = StorageError \<and> (\<exists>x. res = Inl x)"
    by (rule allocate_region_effect [OF m])
  obtain L where sp: "space_ok X s L" and "records_ok s" "view s = V" "en_index s = I" and R: "reservations s = R"
    by (rule at_space [OF at])
  have st: "store_ok (en_alloc s d) (L d)" using sp by (simp add: space_ok_def)
  have n: "store_reservation (en_alloc s d) sz = R d sz" using R by (auto simp: reservations_def)
  note cfg = dev.allocate_config [OF st al]
  have cl: "x \<notin> X" if x: "x \<in> ran (claim s)" for x
  proof -
    obtain e q where "x = (e, q)" by (metis surj_pair)
    then show ?thesis using sp x unfolding space_ok_def ran_def by blast
  qed
  have xs: "q \<in> L e \<and> 0 < snd q" if "(e, q) \<in> X" for e q using sp that unfolding space_ok_def by blast
  show ?thesis
  proof (cases r)
    case (Inl e)
    then obtain y where y: "res = Inl y" "e = StorageError" using r by auto
    have "at R V I X s'"
      by (rule at_set_alloc [OF at sp c cfg dev.allocate_failed [OF st al [unfolded y]], where Z = "{}"])
        (use xs cl in auto)
    then show ?thesis using E m Inl y by (simp add: wp_def)
  next
    case (Inr off)
    then have al': "store_allocate (en_alloc s d) sz ok = (Inr off, a, ops)" using al r by simp
    note new = dev.allocate_new [OF st sz al', unfolded n]
    have fr: "(d, off, R d sz) \<notin> X" using xs new(2) by blast
    have nc: "(d, off, R d sz) \<notin> ran (claim s)"
    proof
      assume "(d, off, R d sz) \<in> ran (claim s)"
      then obtain c where "claim s c = Some (d, off, R d sz)" by (auto simp: ran_def)
      then have "(off, R d sz) \<in> L d" using sp unfolding space_ok_def by blast
      then show False using new(2) by simp
    qed
    have "at R V I (insert (d, off, R d sz) X) s'"
      by (rule at_set_alloc [OF at sp c cfg new(1), where Z = "{}"]) (use xs cl new(3) nc in auto)
    then show ?thesis using Q [of off s'] fr new(3-5) m Inr by (simp add: wp_def fresh_def)
  qed
qed

lemma wp_free:
  assumes at: "at R V I X s" and x: "(d, off, R d sz) \<in> X"
    and Q: "\<And>s'. at R V I (X - {(d, off, R d sz)}) s' \<Longrightarrow> Q () s'"
    and E: "\<And>e s'. at R V I (X - {(d, off, R d sz)}) s' \<Longrightarrow> E e s'"
  shows "wp (free_region_at d off sz) Q E s"
proof -
  obtain r s' where m: "free_region_at d off sz s = (r, s')" by force
  obtain ok a ops res where fr: "store_free (en_alloc s d) off sz ok = (res, a, ops)"
      and c: "core s' = (en_index s, en_blocks s, (en_alloc s)(d := a))"
    by (rule free_region_effect [OF m])
  obtain L where sp: "space_ok X s L" and "records_ok s" "view s = V" "en_index s = I" and R: "reservations s = R"
    by (rule at_space [OF at])
  have st: "store_ok (en_alloc s d) (L d)" using sp by (simp add: space_ok_def)
  have n: "store_reservation (en_alloc s d) sz = R d sz" using R by (auto simp: reservations_def)
  have xs: "q \<in> L e \<and> 0 < snd q" if "(e, q) \<in> X" for e q using sp that unfolding space_ok_def by blast
  have inL: "(off, store_reservation (en_alloc s d) sz) \<in> L d" using xs x n by auto
  obtain held where held: "store_ok a held" "L d - {(off, R d sz)} \<subseteq> held"
    using dev.free_keeps_others [OF st inL fr] n by metis
  have cl: "y \<notin> X" if y: "y \<in> ran (claim s)" for y
  proof -
    obtain e q where "y = (e, q)" by (metis surj_pair)
    then show ?thesis using sp y unfolding space_ok_def ran_def by blast
  qed
  have "at R V I (X - {(d, off, R d sz)}) s'"
    by (rule at_set_alloc [OF at sp c dev.free_config [OF st fr] held(1), where Z = "{(d, off, R d sz)}"])
      (use cl held(2) x in \<open>auto dest: xs\<close>)
  then show ?thesis using Q E m by (cases r) (auto simp: wp_def)
qed

section \<open>Writing to an unlinked region\<close>

lemma unlinked_apart:
  assumes sp: "space_ok X s L" and x: "(d, off, n) \<in> X" and c: "claim s c = Some (d', off', n')"
  shows "(d', off') \<noteq> (d, off)"
proof
  assume eq: "(d', off') = (d, off)"
  have st: "store_ok (en_alloc s d) (L d)" using sp by (simp add: space_ok_def)
  have "(off', n') \<in> L d' \<and> 0 < snd (off', n') \<and> (d', off', n') \<notin> X" using sp c unfolding space_ok_def by blast
  then have c1: "(off', n') \<in> L d'" "0 < n'" "(d', off', n') \<notin> X" by simp_all
  have "(off, n) \<in> L d \<and> 0 < snd (off, n)" using sp x unfolding space_ok_def by blast
  then have x1: "(off, n) \<in> L d" "0 < n" by simp_all
  have "n = n'" using dev.live_same_offset [OF st x1(1) _ x1(2) c1(2)] c1(1) eq by simp
  then show False using c1(3) x eq by simp
qed

lemma put_unlinked_others:
  assumes rec: "records_ok s" and sp: "space_ok X s L" and x: "(d, off, n) \<in> X" and f: "en_index s k = Some f"
    and q: "en_blocks s (loc f) = Some (RecordBlock q)"
  shows "loc f \<noteq> (d, off)" "has_list tag (sr_meta q) \<Longrightarrow> (ie_device f, list_offset tag (sr_meta q)) \<noteq> (d, off)"
proof -
  show "loc f \<noteq> (d, off)"
    using unlinked_apart [OF sp x, of "(k, BodyClaim)"] f q by (auto simp: claim_def claim_region_def loc_def)
  assume h: "has_list tag (sr_meta q)"
  then have "tag \<noteq> BodyClaim" by (auto simp: has_list_def)
  then show "(ie_device f, list_offset tag (sr_meta q)) \<noteq> (d, off)"
    using unlinked_apart [OF sp x, of "(k, tag)"] f q h by (auto simp: claim_def claim_region_def)
qed

lemma at_put_unlinked:
  assumes at: "at R V I X s" and x: "(d, off, n) \<in> X"
  shows "at R V I X (put_at (d, off) b s)"
proof -
  let ?s = "put_at (d, off) b s"
  obtain L where sp: "space_ok X s L" and rec: "records_ok s" and V: "view s = V" and I: "en_index s = I" and R: "reservations s = R"
    by (rule at_space [OF at])
  note apart = put_unlinked_others [OF rec sp x]
  have body: "en_blocks ?s (loc f) = en_blocks s (loc f)" if f: "en_index s k = Some f" for k f
  proof -
    obtain q where "en_blocks s (loc f) = Some (RecordBlock q)" using rec f unfolding records_ok_def by blast
    then show ?thesis using apart(1) [OF f] by simp
  qed
  have lst: "en_blocks ?s (ie_device f, list_offset tag (sr_meta q)) = en_blocks s (ie_device f, list_offset tag (sr_meta q))"
    if "en_index s k = Some f" "en_blocks s (loc f) = Some (RecordBlock q)" "has_list tag (sr_meta q)" for k f q tag
    using apart(2) [OF that] by auto
  have "claim ?s c = claim s c" for c
  proof (cases "en_index s (fst c)")
    case (Some f)
    then obtain q where "en_blocks s (loc f) = Some (RecordBlock q)" using rec unfolding records_ok_def by blast
    then show ?thesis using Some body [OF Some] by (simp add: claim_def del: fun_upd_apply)
  qed (simp add: claim_def)
  then have cl: "claim ?s = claim s" by (rule ext)
  have vw: "view ?s k = view s k" for k
  proof (cases "en_index s k")
    case (Some f)
    then obtain q where q: "en_blocks s (loc f) = Some (RecordBlock q)" using rec unfolding records_ok_def by blast
    have "list_at ?s (ie_device f) (list_count tag (sr_meta q)) (list_offset tag (sr_meta q)) =
        list_at s (ie_device f) (list_count tag (sr_meta q)) (list_offset tag (sr_meta q))" for tag
      using lst [OF Some q] unfolding list_at_has by presburger
    then show ?thesis using Some q body [OF Some] by (simp add: view_def del: fun_upd_apply)
  qed (simp add: view_def)
  have "records_ok ?s"
    unfolding records_ok_def
  proof (intro allI impI)
    fix k f assume "en_index ?s k = Some f"
    then have f: "en_index s k = Some f" by simp
    obtain q where q: "en_blocks s (loc f) = Some (RecordBlock q)" "record_ok k q" "\<And>tag. list_ok s f (sr_meta q) tag"
      using rec f unfolding records_ok_def by blast
    have "list_ok ?s f (sr_meta q) tag" for tag
      using q(3) [of tag] lst [OF f q(1)] unfolding list_ok_def by presburger
    then show "\<exists>r. en_blocks ?s (loc f) = Some (RecordBlock r) \<and> record_ok k r \<and> (\<forall>tag. list_ok ?s f (sr_meta r) tag)"
      using q(1,2) body [OF f] by metis
  qed
  moreover have "space_ok X ?s L" using sp cl by (simp add: space_ok_def)
  moreover have "view ?s = V" using vw V by (auto intro: ext)
  ultimately show ?thesis using I R by (auto simp: at_def structure_ok_def reservations_def [abs_def])
qed

section \<open>Moving an index entry\<close>

abbreviation set_index :: "txkey \<Rightarrow> index_entry option \<Rightarrow> engine \<Rightarrow> engine" where
  "set_index key e s \<equiv> s\<lparr>en_index := (en_index s)(key := e)\<rparr>"

lemma set_index_others:
  assumes "k \<noteq> key"
  shows "claim (set_index key e s) (k, t) = claim s (k, t)" "view (set_index key e s) k = view s k"
proof -
  have l: "list_at (set_index key e s) = list_at s" by (intro ext) (simp add: list_at_def)
  show "claim (set_index key e s) (k, t) = claim s (k, t)"
    using assms by (simp add: claim_def cong: option.case_cong device_block.case_cong)
  show "view (set_index key e s) k = view s k" 
    using assms unfolding view_def l by (simp cong: option.case_cong device_block.case_cong)
qed

lemma at_set_index:
  assumes at: "at R V I X s"
    and new: "(ie_device e, ie_offset e, R (ie_device e) (unat (record_size (sr_meta r)))) \<in> X"
    and b: "en_blocks s (loc e) = Some (RecordBlock r)" and ro: "record_ok key r"
    and lo: "\<And>tag. list_ok s e (sr_meta r) tag"
    and cl: "\<And>tag. has_list tag (sr_meta r) \<Longrightarrow> claim s (key, tag) =
      Some (ie_device e, list_offset tag (sr_meta r), R (ie_device e) (32 * list_count tag (sr_meta r)))"
  shows "at R (V(key \<mapsto> (r, \<lambda>tag. list_at s (ie_device e) (list_count tag (sr_meta r)) (list_offset tag (sr_meta r)))))
    (I(key \<mapsto> e)) ((X \<union> {x. \<exists>t. claim s (key, t) = Some x}) - {x. \<exists>t. claim (set_index key (Some e) s) (key, t) = Some x})
    (set_index key (Some e) s)"
proof -
  let ?s = "set_index key (Some e) s"
  obtain L where sp: "space_ok X s L" and rec: "records_ok s" and V: "view s = V" and I: "en_index s = I" and R: "reservations s = R"
    by (rule at_space [OF at])
  have res: "store_reservation (en_alloc s d) n = R d n" for d n using R by (auto simp: reservations_def)
  have own: "claim ?s (key, t) = claim_region (en_alloc s (ie_device e)) e (sr_meta r) t" for t
    using b by (simp add: claim_def)
  have "space_ok ((X \<union> {x. \<exists>t. claim s (key, t) = Some x}) - {x. \<exists>t. claim ?s (key, t) = Some x}) ?s L"
  proof (rule space_update_key [OF sp, where moved = BodyClaim])
    fix t assume "t \<noteq> BodyClaim"
    then show "claim ?s (key, t) = claim s (key, t) \<or> claim ?s (key, t) = None"
      using cl [of t] by (auto simp: own claim_region_def res)
  next
    fix x assume "claim ?s (key, BodyClaim) = Some x"
    then show "x \<in> X \<or> claim s (key, BodyClaim) = Some x" using new by (simp add: own claim_region_def res)
  qed (simp_all add: set_index_others)
  moreover have "records_ok ?s"
    using rec b ro lo by (auto simp: records_ok_def list_ok_def)
  moreover have "view ?s = V(key \<mapsto> (r, \<lambda>tag. list_at s (ie_device e) (list_count tag (sr_meta r)) (list_offset tag (sr_meta r))))"
    using V b by (intro ext) (auto simp: set_index_others view_def [of ?s key] list_at_def)
  ultimately show ?thesis using I R by (auto simp: at_def structure_ok_def reservations_def [abs_def])
qed

lemma at_unregister:
  assumes at: "at R V I X s" and e: "I key = Some e" and v: "V key = Some (r, ls)"
  shows "at R (V(key := None)) (I(key := None)) (insert (ie_device e, ie_offset e, R (ie_device e) (unat (record_size (sr_meta r)))) X)
    (set_index key None s)"
proof -
  let ?s = "set_index key None s"
  obtain L where sp: "space_ok X s L" and rec: "records_ok s" and V: "view s = V" and I: "en_index s = I" and R: "reservations s = R"
    by (rule at_space [OF at])
  have res: "store_reservation (en_alloc s d) n = R d n" for d n using R by (auto simp: reservations_def)
  obtain f where f: "I key = Some f" and b: "en_blocks s (loc f) = Some (RecordBlock r)"
    by (rule at_viewed [OF at v])
  then have body: "claim s (key, BodyClaim) = Some (ie_device e, ie_offset e, R (ie_device e) (unat (record_size (sr_meta r))))"
    using e I by (simp add: claim_def claim_region_def res)
  have none: "claim ?s (key, t) = None" for t by (simp add: claim_def)
  have "space_ok ((X \<union> {x. \<exists>t. claim s (key, t) = Some x}) - {x. \<exists>t. claim ?s (key, t) = Some x}) ?s L"
    by (rule space_update_key [OF sp, where moved = BodyClaim]) (simp_all add: set_index_others none)
  then have "space_ok (insert (ie_device e, ie_offset e, R (ie_device e) (unat (record_size (sr_meta r)))) X) ?s L"
    by (rule space_mono) (use body none in auto)
  moreover have "records_ok ?s" using rec by (auto simp: records_ok_def list_ok_def)
  moreover have "view ?s = V(key := None)"
    using V by (intro ext) (auto simp: set_index_others view_def [of ?s key])
  ultimately show ?thesis using I R by (auto simp: at_def structure_ok_def reservations_def [abs_def])
qed

end
