(* ===== verification/Engine_Spend.thy ===== *)
theory Engine_Spend
  imports Engine_State
begin

text \<open>
  Spending and unspending of outputs (\<open>spend\<close>, \<open>prepare_spend_multi\<close>, \<open>apply_locked\<close>, \<open>unspend\<close> and
  the relocation used by log-structured stores, in \<open>src/src/ops/engine.rs\<close>), step by step in the order
  of the source with every early return.
\<close>

section \<open>Requests and responses\<close>

record spend_request =
  rq_key :: txkey
  rq_offset :: u32
  rq_hash :: bytes
  rq_data :: bytes
  rq_ignore_conflicting :: bool
  rq_ignore_locked :: bool
  rq_height :: u32
  rq_retention :: u32

record spend_response =
  sp_signal :: signal
  sp_block_ids :: "u32 list"

record spend_item =
  si_offset :: u32
  si_hash :: bytes
  si_data :: bytes
  si_idx :: u32

record spend_multi_request =
  mr_key :: txkey
  mr_spends :: "spend_item list"
  mr_ignore_conflicting :: bool
  mr_ignore_locked :: bool
  mr_height :: u32
  mr_retention :: u32

record spend_multi_response =
  mp_signal :: signal
  mp_block_ids :: "u32 list"
  mp_errors :: "u32 \<Rightarrow> spend_error option"
  mp_spent_count :: u32
  mp_generation :: u32

record prepared_spend =
  ps_key :: txkey
  ps_valid :: "(u32 \<times> utxo_slot) list"
  ps_errors :: "u32 \<Rightarrow> spend_error option"
  ps_spent_count :: u32
  ps_idempotent :: u32
  ps_pre_generation :: u32
  ps_block_ids :: "u32 list"
  ps_offset :: nat
  ps_device :: u8
  ps_meta :: tx_metadata
  ps_height :: u32
  ps_retention :: u32
  ps_mined_slot :: u32

record unspend_request =
  uq_key :: txkey
  uq_offset :: u32
  uq_hash :: bytes
  uq_data :: bytes
  uq_height :: u32
  uq_retention :: u32

record unspend_response =
  up_signal :: signal
  up_generation :: u32

section \<open>Validation\<close>

definition FROZEN_DATA :: bytes where
  "FROZEN_DATA = replicate 36 FROZEN_BYTE"

definition spend_guards :: "txkey \<Rightarrow> u32 \<Rightarrow> tx_metadata \<Rightarrow> bool \<Rightarrow> bool \<Rightarrow> u32 \<Rightarrow> unit eng" where
  "spend_guards key mslot m ignore_conflicting ignore_locked height =
    sq (fail_if (flag_contains (flags m) CONFLICTING \<and> \<not> ignore_conflicting) Conflicting)
    (sq (if flag_contains (flags m) LOCKED \<and> \<not> ignore_locked
         then bnd (mined_block_entries_at key mslot) (\<lambda>(es, _). fail_if (es = []) Locked)
         else ret ())
        (fail_if (flag_contains (flags m) IS_COINBASE \<and> 0 < spending_height m \<and> height < spending_height m)
           (CoinbaseImmature (spending_height m) height)))"

datatype slot_verdict = SpendSlot | Respend | Refuse spend_error

definition judge_slot :: "utxo_slot \<Rightarrow> u32 \<Rightarrow> bytes \<Rightarrow> bytes \<Rightarrow> u32 \<Rightarrow> slot_verdict" where
  "judge_slot sl offset utxo_hash dat height =
    (if slot_hash sl \<noteq> utxo_hash then Refuse (UtxoHashMismatch offset)
     else if status sl = UTXO_UNSPENT then
       (let spendable_height = reassignment_cooldown sl in
        if spendable_height \<noteq> 0 \<and> height < spendable_height then Refuse (FrozenUntil offset spendable_height)
        else SpendSlot)
     else if status sl = UTXO_SPENT then
       (if spending_data sl = dat then Respend
        else if spending_data sl = FROZEN_DATA then Refuse (Frozen offset)
        else Refuse (AlreadySpent offset (spending_data sl)))
     else if status sl = UTXO_PRUNED then Refuse (Pruned offset (spending_data sl))
     else if status sl = UTXO_FROZEN then Refuse (Frozen offset)
     else Refuse StorageError)"

text \<open>Whether the spending child is on the record's list of deleted children.\<close>

definition child_deleted :: "u8 \<Rightarrow> tx_metadata \<Rightarrow> bytes \<Rightarrow> bool eng" where
  "child_deleted d m dat =
    (if 0 < deleted_children_count m
     then bnd (read_children_at d (unat (deleted_children_count m)) (unat (deleted_children_offset m)))
            (\<lambda>kids. ret (take 32 dat \<in> set kids))
     else ret False)"

section \<open>Relocation\<close>

definition write_image :: "u8 \<Rightarrow> nat \<Rightarrow> stored_record \<Rightarrow> nat \<Rightarrow> unit eng" where
  "write_image d off img sz =
    bnd (attempt (sq device_io (put_block d off (RecordBlock img)))) (\<lambda>r. case r of
        Inr _ \<Rightarrow> ret ()
      | Inl e \<Rightarrow> sq (attempt (free_region_at d off sz)) (throw e))"

definition overlay :: "tx_metadata \<Rightarrow> (u32 \<times> utxo_slot) list \<Rightarrow> stored_record \<Rightarrow> stored_record" where
  "overlay m muts r =
    r\<lparr>sr_meta := m, sr_slots := fold (\<lambda>(vout, sl) ss. ss[unat vout := sl]) muts (sr_slots r)\<rparr>"

text \<open>Steps 3 to 7: allocate, write the image, re-point the index, free the old extent.\<close>

definition move_record :: "u8 \<Rightarrow> txkey \<Rightarrow> index_entry \<Rightarrow> nat \<Rightarrow> stored_record \<Rightarrow> nat eng" where
  "move_record d key old sz img =
    bnd (allocate_region d sz) (\<lambda>new_offset.
      sq (write_image d new_offset img sz)
     (sq (modify (\<lambda>s. s\<lparr>en_index := (en_index s)(key \<mapsto>
            \<lparr>ie_device = d, ie_offset = new_offset, ie_mined_slot = ie_mined_slot old\<rparr>)\<rparr>))
     (sq (free_region_at d (ie_offset old) sz)
         (ret new_offset))))"

definition relocate_record :: "u8 \<Rightarrow> txkey \<Rightarrow> tx_metadata \<Rightarrow> (u32 \<times> utxo_slot) list \<Rightarrow> nat eng" where
  "relocate_record d key m muts =
    bnd (lookup_or_not_found key) (\<lambda>old.
    bnd (gets (\<lambda>s. en_alloc s d)) (\<lambda>a.
    let sz = unat (record_size m);
        al = (if store_is_packed a then RECORD_ALIGN else store_alignment a);
        reservation = div_ceil sz al * al;
        slot_region_end = METADATA_SIZE + unat (utxo_count m) * UTXO_SLOT_SIZE
    in sq (fail_if (reservation < slot_region_end) StorageError)
      (sq (fail_if (list_ex (\<lambda>(vout, _). utxo_count m \<le> vout) muts) StorageError)
      (sq device_io
      (bnd (read_block d (ie_offset old)) (\<lambda>r. move_record d key old sz (overlay m muts r)))))))"

section \<open>Single spend\<close>

definition persist_spend ::
  "u8 \<Rightarrow> nat \<Rightarrow> txkey \<Rightarrow> tx_metadata \<Rightarrow> (u32 \<times> utxo_slot) list \<Rightarrow> bool \<Rightarrow> unit eng" where
  "persist_spend d ro key m muts write_slots =
    bnd (gets (\<lambda>s. is_log_structured (en_alloc s d))) (\<lambda>log_structured.
      if log_structured then sq (relocate_record d key m muts) (ret ())
      else sq (if write_slots then each (\<lambda>(off, sl). write_slot_fast d ro off sl) muts else ret ())
              (write_metadata_fast d ro m))"

definition commit_spend :: "spend_request \<Rightarrow> index_entry \<Rightarrow> tx_metadata \<Rightarrow> spend_response eng" where
  "commit_spend rq e m =
    (let key = rq_key rq; mslot = ie_mined_slot e; new_slot = new_spent (rq_hash rq) (rq_data rq) in
     bnd (gets en_now) (\<lambda>now.
     let m1 = touched now (m\<lparr>spent_utxos := spent_utxos m + 1\<rparr>) in
     sq (if spent_utxos m1 = utxo_count m then note_all_spent key mslot True else ret ())
    (bnd (mined_block_entries_at key mslot) (\<lambda>(es, um).
     bnd (evaluate_patched key mslot m1 (es \<noteq> []) um (rq_height rq) (rq_retention rq)) (\<lambda>(sig, patch, m2).
     sq (persist_spend (ie_device e) (ie_offset e) key m2 [(rq_offset rq, new_slot)] True)
    (sq (mirror_de_flags key mslot m2)
    (sq (note_patch key mslot patch)
    (sq (update_dah_index key (delete_at_height m) (delete_at_height m2))
        (ret \<lparr>sp_signal = sig, sp_block_ids = map be_block_id es\<rparr>)))))))))"

definition spend :: "spend_request \<Rightarrow> spend_response eng" where
  "spend rq =
    (let key = rq_key rq; off = rq_offset rq in
     sq (observe_block_height (rq_height rq))
    (sq (fail_if (rq_data rq = FROZEN_DATA) (ReservedSpendingData off))
    (bnd (lookup_or_not_found key) (\<lambda>e.
     bnd (read_metadata_fast (ie_device e) (ie_offset e)) (\<lambda>m.
     sq (spend_guards key (ie_mined_slot e) m (rq_ignore_conflicting rq) (rq_ignore_locked rq) (rq_height rq))
    (sq (fail_if (utxo_count m \<le> off) (UtxoNotFound off))
    (bnd (read_slot_fast (ie_device e) (ie_offset e) off) (\<lambda>sl.
     case judge_slot sl off (rq_hash rq) (rq_data rq) (rq_height rq) of
       Refuse err \<Rightarrow> throw err
     | Respend \<Rightarrow>
         bnd (child_deleted (ie_device e) m (rq_data rq)) (\<lambda>gone.
         sq (fail_if gone (DeletedChildren off (deleted_children_count m)))
        (bnd (mined_block_entries_at key (ie_mined_slot e)) (\<lambda>(es, _).
           ret \<lparr>sp_signal = SigNone, sp_block_ids = map be_block_id es\<rparr>)))
     | SpendSlot \<Rightarrow> commit_spend rq e m))))))))"

section \<open>Batch spend\<close>

type_synonym item_acc = "(u32 \<times> utxo_slot) list \<times> (u32 \<Rightarrow> spend_error option) \<times> u32 \<times> u32"

definition judge_item :: "u8 \<Rightarrow> nat \<Rightarrow> tx_metadata \<Rightarrow> u32 \<Rightarrow> (u32 \<times> utxo_slot) list \<Rightarrow> spend_item \<Rightarrow> slot_verdict eng" where
  "judge_item d ro m height valid it =
    (if si_data it = FROZEN_DATA then ret (Refuse (ReservedSpendingData (si_offset it)))
     else if utxo_count m \<le> si_offset it then ret (Refuse (UtxoNotFound (si_offset it)))
     else bnd (case find (\<lambda>(off, _). off = si_offset it) (rev valid) of
                 Some (_, prev) \<Rightarrow> ret prev
               | None \<Rightarrow> read_slot_fast d ro (si_offset it)) (\<lambda>sl.
          ret (judge_slot sl (si_offset it) (si_hash it) (si_data it) height)))"

fun prepare_items :: "u8 \<Rightarrow> nat \<Rightarrow> tx_metadata \<Rightarrow> u32 \<Rightarrow> spend_item list \<Rightarrow> item_acc \<Rightarrow> item_acc eng" where
  "prepare_items d ro m height [] acc = ret acc"
| "prepare_items d ro m height (it # items) (valid, errs, spent, idem) =
    bnd (judge_item d ro m height valid it) (\<lambda>v. case v of
      Refuse err \<Rightarrow> prepare_items d ro m height items (valid, errs(si_idx it \<mapsto> err), spent, idem)
    | SpendSlot \<Rightarrow>
        prepare_items d ro m height items
          (valid @ [(si_offset it, new_spent (si_hash it) (si_data it))], errs, spent + 1, idem)
    | Respend \<Rightarrow>
        bnd (child_deleted d m (si_data it)) (\<lambda>gone.
          if gone
          then prepare_items d ro m height items
                 (valid, errs(si_idx it \<mapsto> DeletedChildren (si_offset it) (deleted_children_count m)), spent, idem)
          else prepare_items d ro m height items (valid, errs, spent, idem + 1)))"

definition prepare_spend_multi :: "spend_multi_request \<Rightarrow> prepared_spend eng" where
  "prepare_spend_multi rq =
    (let key = mr_key rq in
     bnd (lookup_or_not_found key) (\<lambda>e.
     let d = ie_device e; ro = ie_offset e; mslot = ie_mined_slot e in
     bnd (read_metadata_fast d ro) (\<lambda>m.
     sq (spend_guards key mslot m (mr_ignore_conflicting rq) (mr_ignore_locked rq) (mr_height rq))
    (bnd (prepare_items d ro m (mr_height rq) (mr_spends rq) ([], \<lambda>_. None, 0, 0)) (\<lambda>(valid, errs, spent, idem).
     bnd (mined_block_entries_at key mslot) (\<lambda>(es, _).
       ret \<lparr>ps_key = key, ps_valid = valid, ps_errors = errs, ps_spent_count = spent, ps_idempotent = idem,
            ps_pre_generation = generation m, ps_block_ids = map be_block_id es, ps_offset = ro, ps_device = d,
            ps_meta = m, ps_height = mr_height rq, ps_retention = mr_retention rq, ps_mined_slot = mslot\<rparr>))))))"

text \<open>The second half of \<open>apply_locked\<close>: the header follows the slots.\<close>

definition count_batch :: "prepared_spend \<Rightarrow> bool \<Rightarrow> (spend_multi_response \<times> (u32 \<times> u32) option) eng" where
  "count_batch p defer_dah =
    (let key = ps_key p; m = ps_meta p; d = ps_device p; ro = ps_offset p; mslot = ps_mined_slot p in
     case checked_add (spent_utxos m) (ps_spent_count p) of
       None \<Rightarrow> throw StorageError
     | Some new_total \<Rightarrow>
         sq (fail_if (utxo_count m < new_total) StorageError)
        (bnd (gets en_now) (\<lambda>now.
         let m1 = touched now (m\<lparr>spent_utxos := new_total\<rparr>) in
         sq (if new_total = utxo_count m then note_all_spent key mslot True else ret ())
        (bnd (mined_block_entries_at key mslot) (\<lambda>(es, um).
         bnd (evaluate_patched key mslot m1 (es \<noteq> []) um (ps_height p) (ps_retention p)) (\<lambda>(sig, patch, m2).
         sq (persist_spend d ro key m2 (ps_valid p) False)
        (sq (mirror_de_flags key mslot m2)
        (sq (note_patch key mslot patch)
         (let old_dah = delete_at_height m; new_dah = delete_at_height m2;
              response = \<lparr>mp_signal = sig, mp_block_ids = ps_block_ids p, mp_errors = ps_errors p,
                          mp_spent_count = ps_spent_count p, mp_generation = generation m2\<rparr>
          in if defer_dah then ret (response, if old_dah \<noteq> new_dah then Some (old_dah, new_dah) else None)
             else sq (update_dah_index key old_dah new_dah) (ret (response, None)))))))))))"

definition apply_locked :: "prepared_spend \<Rightarrow> bool \<Rightarrow> (spend_multi_response \<times> (u32 \<times> u32) option) eng" where
  "apply_locked p defer_dah =
    (let d = ps_device p; ro = ps_offset p in
     if ps_spent_count p = 0 then
       ret (\<lparr>mp_signal = SigNone, mp_block_ids = ps_block_ids p, mp_errors = ps_errors p,
             mp_spent_count = 0, mp_generation = generation (ps_meta p)\<rparr>, None)
     else
       bnd (gets (\<lambda>s. is_log_structured (en_alloc s d))) (\<lambda>log_structured.
       sq (if log_structured then ret () else each (\<lambda>(off, sl). write_slot_fast d ro off sl) (ps_valid p))
          (count_batch p defer_dah)))"

definition spend_multi :: "spend_multi_request \<Rightarrow> spend_multi_response eng" where
  "spend_multi rq =
    sq (observe_block_height (mr_height rq))
   (bnd (prepare_spend_multi rq) (\<lambda>p. bnd (apply_locked p False) (\<lambda>(response, _). ret response)))"

section \<open>Unspend\<close>

definition caller_owns_spend :: "utxo_slot \<Rightarrow> bytes \<Rightarrow> bool" where
  "caller_owns_spend sl dat \<longleftrightarrow>
    status sl = UTXO_SPENT \<and> \<not> (status sl = UTXO_FROZEN \<or> spending_data sl = FROZEN_DATA) \<and> spending_data sl = dat"

text \<open>The write of the header; when it fails on the owned path the slot is put back, and a failed
  revert poisons the node.\<close>

definition persist_unspend ::
  "index_entry \<Rightarrow> unspend_request \<Rightarrow> utxo_slot \<Rightarrow> bool \<Rightarrow> tx_metadata \<Rightarrow> unit eng" where
  "persist_unspend e rq sl owns m2 =
    bnd (attempt (write_metadata_fast (ie_device e) (ie_offset e) m2)) (\<lambda>r. case r of
        Inr _ \<Rightarrow> ret ()
      | Inl meta_err \<Rightarrow>
          sq (if owns then
                bnd (attempt (write_slot_fast (ie_device e) (ie_offset e) (uq_offset rq) sl)) (\<lambda>q. case q of
                    Inl _ \<Rightarrow> sq poison_all_redo_logs (throw StorageError)
                  | Inr _ \<Rightarrow> note_all_spent (uq_key rq) (ie_mined_slot e) (spent_utxos m2 + 1 = utxo_count m2))
              else ret ())
             (throw meta_err))"

definition unspend_finish ::
  "unspend_request \<Rightarrow> index_entry \<Rightarrow> tx_metadata \<Rightarrow> utxo_slot \<Rightarrow> signal \<times> dah_patch option \<times> tx_metadata \<Rightarrow> unspend_response eng" where
  "unspend_finish rq e m sl = (\<lambda>(sig, patch, m2).
    let key = uq_key rq; mslot = ie_mined_slot e; owns = caller_owns_spend sl (uq_data rq) in
    sq (if owns \<or> delete_at_height m2 \<noteq> delete_at_height m then
          sq (persist_unspend e rq sl owns m2)
         (sq (mirror_de_flags key mslot m2)
         (sq (note_patch key mslot patch)
             (update_dah_index key (delete_at_height m) (delete_at_height m2))))
        else ret ())
       (ret \<lparr>up_signal = sig, up_generation = generation m2\<rparr>))"

definition unspend_recount :: "unspend_request \<Rightarrow> index_entry \<Rightarrow> tx_metadata \<Rightarrow> utxo_slot \<Rightarrow> unspend_response eng" where
  "unspend_recount rq e m sl =
    (let key = uq_key rq; mslot = ie_mined_slot e; owns = caller_owns_spend sl (uq_data rq) in
     bnd (gets en_now) (\<lambda>now.
     let m1 = (if owns then touched now (m\<lparr>spent_utxos := spent_utxos m - 1\<rparr>) else m) in
     sq (if owns then note_all_spent key mslot False else ret ())
    (bnd (mined_block_entries_at key mslot) (\<lambda>(es, um).
     bnd (evaluate_patched key mslot m1 (es \<noteq> []) um (uq_height rq) (uq_retention rq)) (unspend_finish rq e m sl)))))"

definition unspend_apply :: "unspend_request \<Rightarrow> index_entry \<Rightarrow> tx_metadata \<Rightarrow> utxo_slot \<Rightarrow> unspend_response eng" where
  "unspend_apply rq e m sl =
    (let owns = caller_owns_spend sl (uq_data rq) in
     sq (fail_if (owns \<and> spent_utxos m = 0) StorageError)
    (sq (if owns then write_slot_fast (ie_device e) (ie_offset e) (uq_offset rq) (new_unspent (uq_hash rq)) else ret ())
        (unspend_recount rq e m sl)))"

definition unspend :: "unspend_request \<Rightarrow> unspend_response eng" where
  "unspend rq =
    (let key = uq_key rq; off = uq_offset rq in
     sq (observe_block_height (uq_height rq))
    (bnd (lookup_or_not_found key) (\<lambda>e.
     bnd (read_metadata_fast (ie_device e) (ie_offset e)) (\<lambda>m.
     sq (fail_if (utxo_count m \<le> off) (UtxoNotFound off))
    (bnd (read_slot_fast (ie_device e) (ie_offset e) off) (\<lambda>sl.
     sq (fail_if (slot_hash sl \<noteq> uq_hash rq) (UtxoHashMismatch off))
    (sq (fail_if (status sl = UTXO_PRUNED) (Pruned off (spending_data sl)))
    (sq (fail_if (status sl \<noteq> UTXO_UNSPENT \<and> status sl \<noteq> UTXO_SPENT \<and> status sl \<noteq> UTXO_FROZEN) StorageError)
        (unspend_apply rq e m sl)))))))))"

end
