(* ===== verification/Engine_Rules.thy ===== *)
theory Engine_Rules
  imports Engine_Space Engine_Spend
begin

text \<open>
  Rules for the reads and writes of records under every fault schedule, and the rule of the relocation
  of a record in a log-structured store, where the invariant of the engine rests on the allocator's
  contract.
\<close>

section \<open>Reads\<close>

lemma wp_core:
  assumes "noncore m" "\<And>x s'. core s' = core s \<Longrightarrow> m s = (Inr x, s') \<Longrightarrow> Q x s'"
    "\<And>e s'. core s' = core s \<Longrightarrow> m s = (Inl e, s') \<Longrightarrow> E e s'"
  shows "wp m Q E s"
proof -
  obtain r s' where m: "m s = (r, s')" by force
  then have "core s' = core s" using assms(1) by (metis noncore_def snd_conv)
  then show ?thesis using assms(2,3) m by (auto simp: wp_def split: sum.splits)
qed

lemma device_io_error: "device_io s = (Inl e, s') \<Longrightarrow> e = StorageError"
  by (auto simp: device_io_def split: list.splits if_splits)

lemma fast_io_error: "fast_io d s = (Inl e, s') \<Longrightarrow> e = StorageError"
  by (auto simp: fast_io_def dest: device_io_error split: if_splits)

lemma wp_device_io:
  assumes "at R V I X s" "\<And>s'. at R V I X s' \<Longrightarrow> core s' = core s \<Longrightarrow> Q () s'" "\<And>s'. at R V I X s' \<Longrightarrow> E StorageError s'"
  shows "wp device_io Q E s"
  by (rule wp_core [OF noncore_device_io]) (auto intro: assms at_core dest: device_io_error)

lemma wp_fast_io:
  assumes "at R V I X s" "\<And>s'. at R V I X s' \<Longrightarrow> core s' = core s \<Longrightarrow> Q () s'" "\<And>s'. at R V I X s' \<Longrightarrow> E StorageError s'"
  shows "wp (fast_io d) Q E s"
  by (rule wp_core [OF noncore_fast_io]) (auto intro: assms at_core dest: fast_io_error)

lemma at_block:
  assumes "at R V I X s" "I key = Some e" "V key = Some (r, ls)"
  shows "en_blocks s (ie_device e, ie_offset e) = Some (RecordBlock r)"
proof -
  obtain f where "I key = Some f" "en_blocks s (loc f) = Some (RecordBlock r)" by (rule at_viewed [OF assms(1,3)])
  then show ?thesis using assms(2) by (simp add: loc_def)
qed

lemma wp_read_block:
  assumes "at R V I X s" "I key = Some e" "V key = Some (r, ls)" "Q r s"
  shows "wp (read_block (ie_device e) (ie_offset e)) Q E s"
  using at_block [OF assms(1-3)] assms(4) by (simp add: wp_def read_block_def)

lemma wp_read_metadata:
  assumes "at R V I X s" "I key = Some e" "V key = Some (r, ls)"
    and "\<And>s'. at R V I X s' \<Longrightarrow> core s' = core s \<Longrightarrow> Q (sr_meta r) s'" "\<And>s'. at R V I X s' \<Longrightarrow> E StorageError s'"
  shows "wp (read_metadata_fast (ie_device e) (ie_offset e)) Q E s"
  unfolding read_metadata_fast_def wp
proof (rule wp_fast_io [OF assms(1)])
  fix s' assume a: "at R V I X s'" "core s' = core s"
  show "wp (read_block (ie_device e) (ie_offset e)) (\<lambda>r. Q (sr_meta r)) E s'"
    by (rule wp_read_block [OF a(1) assms(2,3)]) (simp add: wp assms(4) a)
qed (rule assms(5))

lemma at_slots:
  assumes "at R V I X s" "V key = Some (r, ls)"
  shows "length (sr_slots r) = unat (utxo_count (sr_meta r))" "tx_id (sr_meta r) = key" "record_size (sr_meta r) \<noteq> 0"
proof -
  have "record_ok key r" by (rule at_viewed [OF assms])
  then show "length (sr_slots r) = unat (utxo_count (sr_meta r))" "tx_id (sr_meta r) = key" "record_size (sr_meta r) \<noteq> 0"
    by (simp_all add: record_ok_def)
qed

lemma wp_read_slot:
  assumes "at R V I X s" "I key = Some e" "V key = Some (r, ls)"
    and "\<And>s'. at R V I X s' \<Longrightarrow> core s' = core s \<Longrightarrow> unat i < length (sr_slots r) \<Longrightarrow> Q (sr_slots r ! unat i) s'"
      "\<And>s'. at R V I X s' \<Longrightarrow> E StorageError s'"
  shows "wp (read_slot_fast (ie_device e) (ie_offset e) i) Q E s"
  unfolding read_slot_fast_def wp
proof (rule wp_fast_io [OF assms(1)])
  fix s' assume a: "at R V I X s'" "core s' = core s"
  show "wp (read_block (ie_device e) (ie_offset e))
      (\<lambda>r. if unat i < length (sr_slots r) then Q (sr_slots r ! unat i) else E StorageError) E s'"
    by (rule wp_read_block [OF a(1) assms(2,3)]) (simp add: assms(4,5) a)
qed (rule assms(5))

lemma wp_lookup_or:
  assumes "at R V I X s" "\<And>e. I key = Some e \<Longrightarrow> Q e s" "I key = None \<Longrightarrow> E TxNotFound s"
  shows "wp (lookup_or_not_found key) Q E s"
  using assms by (cases "I key") (auto simp: lookup_or_not_found_def lookup_checked_def at_def wp)

lemma wp_entries_at:
  assumes "at R V I X s" "\<And>es um s'. at R V I X s' \<Longrightarrow> core s' = core s \<Longrightarrow> Q (es, um) s'" "\<And>s'. at R V I X s' \<Longrightarrow> E StorageError s'"
  shows "wp (mined_block_entries_at key slot) Q E s"
  using assms by (auto simp: wp_def mined_block_entries_at_def split: option.splits)

text \<open>The shape of the header an evaluation produces.\<close>

definition patched_from :: "tx_metadata \<Rightarrow> tx_metadata \<Rightarrow> bool" where
  "patched_from m m2 \<longleftrightarrow> (\<exists>fl dah. m2 = m\<lparr>flags := fl, delete_at_height := dah\<rparr>)"

lemma patched_from_flags: "patched_from m (m\<lparr>flags := fl\<rparr>)"
  unfolding patched_from_def by (intro exI [of _ fl] exI [of _ "delete_at_height m"]) simp

lemma apply_dah_patch_from: "patched_from m (apply_dah_patch (m\<lparr>flags := fl\<rparr>) p)"
  unfolding patched_from_def
  by (intro exI [of _ "flag_set fl LAST_SPENT_ALL (last_spent_all p)"] exI [of _ "new_delete_at_height p"]
      tx_metadata.equality) (simp_all add: apply_dah_patch_def)

lemma wp_evaluate:
  assumes "at R V I X s"
    and "\<And>sig patch m2 s'. at R V I X s' \<Longrightarrow> core s' = core s \<Longrightarrow> patched_from m m2 \<Longrightarrow> Q (sig, patch, m2) s'"
    and "\<And>e s'. at R V I X s' \<Longrightarrow> E e s'"
  shows "wp (evaluate_patched key slot m hb um h rt) Q E s"
  unfolding evaluate_patched_def wp Let_def
  using assms by (auto simp: wp patched_from_flags apply_dah_patch_from split: sum.splits option.splits)

section \<open>Writes\<close>

lemma wp_write_metadata:
  assumes at: "at R V I X s" and e: "I key = Some e" and v: "V key = Some (r, ls)" and sc: "same_claims r (r\<lparr>sr_meta := m\<rparr>)"
    and Q: "\<And>s'. at R (V(key \<mapsto> (r\<lparr>sr_meta := m\<rparr>, ls))) I X s' \<Longrightarrow> Q () s'" and E: "\<And>s'. at R V I X s' \<Longrightarrow> E StorageError s'"
  shows "wp (write_metadata_fast (ie_device e) (ie_offset e) m) Q E s"
  unfolding write_metadata_fast_def wp put_block_def
proof (rule wp_fast_io [OF at])
  fix s' assume a: "at R V I X s'"
  show "wp (read_block (ie_device e) (ie_offset e))
      (\<lambda>r s. Q () (put_at (ie_device e, ie_offset e) (RecordBlock (r\<lparr>sr_meta := m\<rparr>)) s)) E s'"
    using at_put_record [OF a e v sc] by (intro wp_read_block [OF a e v]) (simp add: Q loc_def)
qed (rule E)

lemma wp_write_slot:
  assumes at: "at R V I X s" and e: "I key = Some e" and v: "V key = Some (r, ls)"
    and Q: "\<And>s'. at R (V(key \<mapsto> (r\<lparr>sr_slots := (sr_slots r)[unat i := sl]\<rparr>, ls))) I X s' \<Longrightarrow> Q () s'"
    and E: "\<And>s'. at R V I X s' \<Longrightarrow> E StorageError s'"
  shows "wp (write_slot_fast (ie_device e) (ie_offset e) i sl) Q E s"
proof -
  have sc: "same_claims r (r\<lparr>sr_slots := (sr_slots r)[unat i := sl]\<rparr>)" by (simp add: same_claims_def)
  show ?thesis
    unfolding write_slot_fast_def wp put_block_def
  proof (rule wp_fast_io [OF at])
    fix s' assume a: "at R V I X s'"
    show "wp (read_block (ie_device e) (ie_offset e))
        (\<lambda>r s. Q () (put_at (ie_device e, ie_offset e) (RecordBlock (r\<lparr>sr_slots := (sr_slots r)[unat i := sl]\<rparr>)) s)) E s'"
      using at_put_record [OF a e v sc] by (intro wp_read_block [OF a e v]) (simp add: Q loc_def)
  qed (rule E)
qed

section \<open>Relocation\<close>

lemma wp_write_image:
  assumes at: "at R V I X s" and x: "(d, off, R d sz) \<in> X"
    and Q: "\<And>s'. at R V I X s' \<Longrightarrow> en_blocks s' (d, off) = Some (RecordBlock img) \<Longrightarrow> Q () s'"
    and E: "\<And>s'. at R V I (X - {(d, off, R d sz)}) s' \<Longrightarrow> E StorageError s'"
  shows "wp (write_image d off img sz) Q E s"
  unfolding write_image_def wp put_block_def
proof (rule wp_device_io [OF at])
  fix s' assume a: "at R V I X s'"
  show "wp (case Inr () of Inr u \<Rightarrow> ret () | Inl e \<Rightarrow> sq (attempt (free_region_at d off sz)) (throw e)) Q E
      (put_at (d, off) (RecordBlock img) s')"
    using Q [OF at_put_unlinked [OF a x]] by (simp add: wp)
next
  fix s' assume a: "at R V I X s'"
  show "wp (case Inl StorageError of Inr u \<Rightarrow> ret () | Inl e \<Rightarrow> sq (attempt (free_region_at d off sz)) (throw e)) Q E s'"
    using wp_free [OF a x, of "\<lambda>_. E StorageError" "\<lambda>_. E StorageError"] E by (simp add: wp)
qed

lemma at_claims:
  assumes at: "at R V I X s" and e: "I key = Some e" and v: "V key = Some (r, ls)"
  shows "claim s (key, BodyClaim) = Some (ie_device e, ie_offset e, R (ie_device e) (unat (record_size (sr_meta r))))"
    and "has_list tag (sr_meta r) \<Longrightarrow>
      claim s (key, tag) = Some (ie_device e, list_offset tag (sr_meta r), R (ie_device e) (32 * list_count tag (sr_meta r)))"
    and "claim s (key, tag) \<noteq> Some x \<or> x \<notin> X"
proof -
  obtain L where sp: "space_ok X s L" and "records_ok s" "view s = V" and I: "en_index s = I" and R: "reservations s = R"
    by (rule at_space [OF at])
  have res: "store_reservation (en_alloc s d) n = R d n" for d n using R by (auto simp: reservations_def)
  have b: "en_blocks s (loc e) = Some (RecordBlock r)" using at_block [OF at e v] by (simp add: loc_def)
  then show "claim s (key, BodyClaim) = Some (ie_device e, ie_offset e, R (ie_device e) (unat (record_size (sr_meta r))))"
    using e I by (simp add: claim_def claim_region_def res)
  assume "has_list tag (sr_meta r)"
  moreover from this have "tag \<noteq> BodyClaim" by (auto simp: has_list_def)
  ultimately show "claim s (key, tag) = Some (ie_device e, list_offset tag (sr_meta r), R (ie_device e) (32 * list_count tag (sr_meta r)))"
    using b e I by (simp add: claim_def claim_region_def res)
next
  obtain L where sp: "space_ok X s L" by (rule at_space [OF at])
  obtain d q where x: "x = (d, q)" by (metis surj_pair)
  show "claim s (key, tag) \<noteq> Some x \<or> x \<notin> X" using sp unfolding space_ok_def x by blast
qed

lemma at_repoint:
  assumes at: "at R V I (insert (ie_device e, off, n) X) s" and e: "I key = Some e" and v: "V key = Some (r, ls)"
    and b: "en_blocks s (ie_device e, off) = Some (RecordBlock r')" and sc: "same_claims r r'"
    and n: "n = R (ie_device e) (unat (record_size (sr_meta r)))" and fr: "(ie_device e, off, n) \<notin> X"
    and e'_def: "e' = \<lparr>ie_device = ie_device e, ie_offset = off, ie_mined_slot = mslot\<rparr>"
  shows "at R (V(key \<mapsto> (r', ls))) (I(key \<mapsto> e'))
    (insert (ie_device e, ie_offset e, n) X) (set_index key (Some e') s)"
proof -
  let ?Y = "insert (ie_device e, off, n) X" and ?s = "set_index key (Some e') s"
  have rs: "record_size (sr_meta r') = record_size (sr_meta r)" using sc by (simp add: same_claims_def)
  obtain f where f: "I key = Some f" "en_blocks s (loc f) = Some (RecordBlock r)" "record_ok key r" and lo0: "\<And>tag. list_ok s f (sr_meta r) tag"
      and ls0: "ls = (\<lambda>tag. list_at s (ie_device f) (list_count tag (sr_meta r)) (list_offset tag (sr_meta r)))"
    using at_viewed [OF at v] by blast
  have fe: "f = e" using f(1) e by simp
  note lo = lo0 [unfolded fe] and ls = ls0 [unfolded fe]
  have be: "en_blocks s (loc e') = Some (RecordBlock r')" using b by (simp add: e'_def loc_def)
  have dev: "ie_device e' = ie_device e" "ie_offset e' = off" by (simp_all add: e'_def)
  have a1: "at R (V(key \<mapsto> (r', \<lambda>tag. list_at s (ie_device e') (list_count tag (sr_meta r')) (list_offset tag (sr_meta r')))))
      (I(key \<mapsto> e')) ((?Y \<union> {x. \<exists>t. claim s (key, t) = Some x}) - {x. \<exists>t. claim ?s (key, t) = Some x}) ?s"
  proof (rule at_set_index [OF at _ be])
    show "(ie_device e', ie_offset e', R (ie_device e') (unat (record_size (sr_meta r')))) \<in> ?Y" by (simp add: dev rs n)
    show "record_ok key r'" using f(3) sc by (simp add: record_ok_def same_claims_def)
    show "list_ok s e' (sr_meta r') tag" for tag
      using lo [of tag] same_claims_lists(1-3) [OF sc, of tag] by (simp add: list_ok_def dev)
    show "claim s (key, tag) = Some (ie_device e', list_offset tag (sr_meta r'), R (ie_device e') (32 * list_count tag (sr_meta r')))"
      if "has_list tag (sr_meta r')" for tag
      using at_claims(2) [OF at e v, of tag] that same_claims_lists(1-3) [OF sc, of tag] by (simp add: dev)
  qed
  obtain L where sp: "space_ok ?Y s L" and "records_ok s" "view s = V" and I: "en_index s = I" and R: "reservations s = R"
    by (rule at_space [OF at])
  have res: "store_reservation (en_alloc s d) n = R d n" for d n using R by (auto simp: reservations_def)
  have own: "claim ?s (key, t) = (if t = BodyClaim then Some (ie_device e, off, n) else claim s (key, t))" for t
  proof (cases "t = BodyClaim")
    case True
    then show ?thesis using be by (simp add: claim_def claim_region_def dev res rs n)
  next
    case False
    have "en_blocks s (loc e) = Some (RecordBlock r)" using at_block [OF at e v] by (simp add: loc_def)
    then show ?thesis
      using False be e I same_claims_lists(1-3) [OF sc, of t] by (simp add: claim_def claim_region_def dev)
  qed
  note body = at_claims(1) [OF at e v] and unl = at_claims(3) [OF at e v]
  have "insert (ie_device e, ie_offset e, n) X \<subseteq> (?Y \<union> {x. \<exists>t. claim s (key, t) = Some x}) - {x. \<exists>t. claim ?s (key, t) = Some x}"
  proof
    fix x assume x: "x \<in> insert (ie_device e, ie_offset e, n) X"
    have inj: "c = c'" if "claim s c = Some y" "claim s c' = Some y" for c c' y using sp that unfolding space_ok_def by blast
    have "claim ?s (key, t) \<noteq> Some x" for t
    proof (cases "x \<in> X")
      case True
      then have "x \<noteq> (ie_device e, off, n)" using fr by auto
      then show ?thesis using unl [of t x] True by (auto simp: own)
    next
      case False
      then have x: "x = (ie_device e, ie_offset e, n)" using x by simp
      then have c: "claim s (key, BodyClaim) = Some x" using body n by simp
      then have "x \<noteq> (ie_device e, off, n)" using unl [of BodyClaim x] by auto
      then show ?thesis using c inj [of "(key, t)" x "(key, BodyClaim)"] by (auto simp: own)
    qed
    then show "x \<in> (?Y \<union> {x. \<exists>t. claim s (key, t) = Some x}) - {x. \<exists>t. claim ?s (key, t) = Some x}"
      using x body n by auto
  qed
  moreover have "(\<lambda>tag. list_at s (ie_device e') (list_count tag (sr_meta r')) (list_offset tag (sr_meta r'))) = ls"
    unfolding ls dev same_claims_lists(1,2) [OF sc] by (rule refl)
  ultimately show ?thesis using at_mono [OF a1] by simp
qed

lemma wp_move_record:
  assumes at: "at R V I {} s" and e: "I key = Some e" and v: "V key = Some (r, ls)" and sc: "same_claims r img"
    and sz: "sz = unat (record_size (sr_meta r))"
    and Q: "\<And>off s' I'. at R (V(key \<mapsto> (img, ls))) I' {} s' \<Longrightarrow> Q off s'"
    and E1: "\<And>s'. at R V I {} s' \<Longrightarrow> E StorageError s'"
    and E2: "\<And>e' s' I'. at R (V(key \<mapsto> (img, ls))) I' {} s' \<Longrightarrow> E e' s'"
  shows "wp (move_record (ie_device e) key e sz img) Q E s"
proof -
  let ?d = "ie_device e"
  have pos: "0 < sz" "sz < 2 ^ 32"
    using at_slots(3) [OF at v] sz unsigned_less [of "record_size (sr_meta r)"] by (simp_all add: unat_gt_0)
  show ?thesis
    unfolding wp move_record_def
  proof (rule wp_allocate [OF at pos])
    fix off s1 assume fr: "fresh ?d off (R ?d sz) {}" and a1: "at R V I (insert (?d, off, R ?d sz) {}) s1"
    show "wp (write_image ?d off img sz)
        (\<lambda>_ s. wp (free_region_at ?d (ie_offset e) sz) (\<lambda>_. Q off) E
           (set_index key (Some \<lparr>ie_device = ?d, ie_offset = off, ie_mined_slot = ie_mined_slot e\<rparr>) s)) E s1"
    proof (rule wp_write_image [OF a1])
      fix s2 assume a2: "at R V I (insert (?d, off, R ?d sz) {}) s2"
        and b2: "en_blocks s2 (?d, off) = Some (RecordBlock img)"
      let ?e = "\<lparr>ie_device = ?d, ie_offset = off, ie_mined_slot = ie_mined_slot e\<rparr>"
      have a3: "at R (V(key \<mapsto> (img, ls))) (I(key \<mapsto> ?e)) (insert (?d, ie_offset e, R ?d sz) {})
          (set_index key (Some ?e) s2)"
        by (rule at_repoint [OF a2 e v b2 sc _ _ refl]) (simp_all add: sz)
      show "wp (free_region_at ?d (ie_offset e) sz) (\<lambda>_. Q off) E (set_index key (Some ?e) s2)"
        by (rule wp_free [OF a3]) (use Q E2 in auto)
    qed (use E1 in auto)
  qed (rule E1)
qed

section \<open>Safety of compositions\<close>

text \<open>\<open>safe P m s\<close>: whatever the faults, \<open>m\<close> run from \<open>s\<close> ends in a state satisfying \<open>P\<close>.\<close>

definition safe :: "(engine \<Rightarrow> bool) \<Rightarrow> 'a eng \<Rightarrow> engine \<Rightarrow> bool" where
  "safe P m s \<longleftrightarrow> P (snd (m s))"

lemma safe_wp: "safe P m s \<longleftrightarrow> wp m (\<lambda>_. P) (\<lambda>_. P) s"
  by (auto simp: safe_def wp_def split: prod.splits sum.splits)

lemma safe_sq: "safe P (sq m k) s \<longleftrightarrow> wp m (\<lambda>_. safe P k) (\<lambda>_. P) s"
  by (simp add: safe_wp [abs_def] wp)

lemma safe_bnd: "safe P (bnd m k) s \<longleftrightarrow> wp m (\<lambda>x. safe P (k x)) (\<lambda>_. P) s"
  by (simp add: safe_wp [abs_def] wp)

lemma safe_ret: "P s \<Longrightarrow> safe P (ret x) s"
  by (simp add: safe_wp wp)

lemma safe_throw: "P s \<Longrightarrow> safe P (throw e) s"
  by (simp add: safe_wp wp)

lemma safe_fail_if: "P s \<Longrightarrow> (\<not> c \<Longrightarrow> safe P k s) \<Longrightarrow> safe P (sq (fail_if c e) k) s"
  by (simp add: safe_wp wp)

lemma safe_gets: "safe P (k (f s)) s \<Longrightarrow> safe P (bnd (gets f) k) s"
  by (simp add: safe_wp wp)

lemma safe_noncore:
  assumes "at R V I X s" "noncore m" "\<And>s'. at R V I X s' \<Longrightarrow> P s'"
  shows "safe P m s"
  unfolding safe_wp by (rule wp_noncore [OF assms(2,1)]) (rule assms(3), assumption)+

lemma safe_bnd_noncore:
  assumes "at R V I X s" "noncore m" "\<And>s'. at R V I X s' \<Longrightarrow> P s'" "\<And>x s'. at R V I X s' \<Longrightarrow> safe P (k x) s'"
  shows "safe P (bnd m k) s"
  unfolding safe_wp wp by (rule wp_noncore [OF assms(2,1)]) (use assms(3,4) in \<open>auto simp: safe_wp\<close>)

lemma safe_sq_noncore:
  assumes "at R V I X s" "noncore m" "\<And>s'. at R V I X s' \<Longrightarrow> P s'" "\<And>s'. at R V I X s' \<Longrightarrow> safe P k s'"
  shows "safe P (sq m k) s"
  unfolding sq_def by (rule safe_bnd_noncore [OF assms(1,2)]) (rule assms(3,4), assumption)+

lemma safe_lookup:
  assumes "at R V I X s" "\<And>s'. at R V I X s' \<Longrightarrow> P s'"
    "\<And>e r ls. I key = Some e \<Longrightarrow> V key = Some (r, ls) \<Longrightarrow> safe P (k e) s"
  shows "safe P (bnd (lookup_or_not_found key) k) s"
  unfolding safe_wp wp
proof (rule wp_lookup_or [OF assms(1)])
  fix e assume e: "I key = Some e"
  obtain r where "V key = Some (r, \<lambda>tag. list_at s (ie_device e) (list_count tag (sr_meta r)) (list_offset tag (sr_meta r)))"
    by (rule at_indexed [OF assms(1) e])
  then show "wp (k e) (\<lambda>_. P) (\<lambda>_. P) s" using assms(3) [OF e] by (simp add: safe_wp)
qed (use assms(1,2) in auto)

lemma safe_read_metadata:
  assumes "at R V I X s" "I key = Some e" "V key = Some (r, ls)" "\<And>s'. at R V I X s' \<Longrightarrow> P s'"
    "\<And>s'. at R V I X s' \<Longrightarrow> safe P (k (sr_meta r)) s'"
  shows "safe P (bnd (read_metadata_fast (ie_device e) (ie_offset e)) k) s"
  unfolding safe_wp wp by (rule wp_read_metadata [OF assms(1-3)]) (use assms(4,5) in \<open>auto simp: safe_wp\<close>)

lemma safe_read_slot:
  assumes "at R V I X s" "I key = Some e" "V key = Some (r, ls)" "\<And>s'. at R V I X s' \<Longrightarrow> P s'"
    "\<And>s'. at R V I X s' \<Longrightarrow> unat i < length (sr_slots r) \<Longrightarrow> safe P (k (sr_slots r ! unat i)) s'"
  shows "safe P (bnd (read_slot_fast (ie_device e) (ie_offset e) i) k) s"
  unfolding safe_wp wp by (rule wp_read_slot [OF assms(1-3)]) (use assms(4,5) in \<open>auto simp: safe_wp\<close>)

lemma safe_evaluate:
  assumes "at R V I X s" "\<And>s'. at R V I X s' \<Longrightarrow> P s'"
    "\<And>sig patch m2 s'. at R V I X s' \<Longrightarrow> patched_from m m2 \<Longrightarrow> safe P (k (sig, patch, m2)) s'"
  shows "safe P (bnd (evaluate_patched key slot m hb um h rt) k) s"
  unfolding safe_wp wp by (rule wp_evaluate [OF assms(1)]) (use assms(2,3) in \<open>auto simp: safe_wp\<close>)

lemma safe_write_metadata:
  assumes "at R V I X s" "I key = Some e" "V key = Some (r, ls)" "same_claims r (r\<lparr>sr_meta := m\<rparr>)" "\<And>s'. at R V I X s' \<Longrightarrow> P s'"
    "\<And>s'. at R (V(key \<mapsto> (r\<lparr>sr_meta := m\<rparr>, ls))) I X s' \<Longrightarrow> safe P k s'"
  shows "safe P (sq (write_metadata_fast (ie_device e) (ie_offset e) m) k) s"
  unfolding safe_wp wp by (rule wp_write_metadata [OF assms(1-4)]) (use assms(5,6) in \<open>auto simp: safe_wp\<close>)

lemma safe_write_slot:
  assumes "at R V I X s" "I key = Some e" "V key = Some (r, ls)" "\<And>s'. at R V I X s' \<Longrightarrow> P s'"
    "\<And>s'. at R (V(key \<mapsto> (r\<lparr>sr_slots := (sr_slots r)[unat i := sl]\<rparr>, ls))) I X s' \<Longrightarrow> safe P k s'"
  shows "safe P (sq (write_slot_fast (ie_device e) (ie_offset e) i sl) k) s"
  unfolding safe_wp wp by (rule wp_write_slot [OF assms(1-3)]) (use assms(4,5) in \<open>auto simp: safe_wp\<close>)

lemma safe_relocate:
  assumes at: "at R V I {} s" and e: "I key = Some e" and v: "V key = Some (r, ls)"
    and sc: "same_claims r (overlay m muts r)" and P: "\<And>s'. at R V I {} s' \<Longrightarrow> P s'"
    and P': "\<And>s' I'. at R (V(key \<mapsto> (overlay m muts r, ls))) I' {} s' \<Longrightarrow> P s'"
    and k: "\<And>s' I'. at R (V(key \<mapsto> (overlay m muts r, ls))) I' {} s' \<Longrightarrow> safe P k s'"
  shows "safe P (sq (relocate_record (ie_device e) key m muts) k) s"
proof -
  have sz: "unat (record_size m) = unat (record_size (sr_meta r))" using sc by (simp add: same_claims_def overlay_def)
  have move: "wp (device_io) (\<lambda>_. wp (read_block (ie_device e) (ie_offset e))
      (\<lambda>r. wp (move_record (ie_device e) key e (unat (record_size m)) (overlay m muts r)) (\<lambda>_. wp k (\<lambda>_. P) (\<lambda>_. P)) (\<lambda>_. P)) (\<lambda>_. P)) (\<lambda>_. P) s"
  proof (rule wp_device_io [OF at])
    fix s1 assume a1: "at R V I {} s1"
    show "wp (read_block (ie_device e) (ie_offset e))
      (\<lambda>r. wp (move_record (ie_device e) key e (unat (record_size m)) (overlay m muts r)) (\<lambda>_. wp k (\<lambda>_. P) (\<lambda>_. P)) (\<lambda>_. P)) (\<lambda>_. P) s1"
      by (rule wp_read_block [OF a1 e v], rule wp_move_record [OF a1 e v sc sz]) (use P P' k in \<open>auto simp: safe_wp\<close>)
  qed (rule P)
  show ?thesis
    unfolding safe_wp wp relocate_record_def Let_def
    by (rule wp_lookup_or [OF at]) (use e move P [OF at] in auto)
qed

end
