(* ===== verification/Engine_Safety.thy ===== *)
theory Engine_Safety
  imports Engine_Rules
begin

text \<open>
  What spending and unspending can do to the store under every fault schedule: which records change,
  and how.
\<close>

section \<open>Changes to one record\<close>

definition upd :: "txkey \<Rightarrow> (stored_record \<Rightarrow> stored_record \<Rightarrow> bool) \<Rightarrow> (txkey \<Rightarrow> logical option) \<Rightarrow> (txkey \<Rightarrow> logical option) \<Rightarrow> bool" where
  "upd key P V V' \<longleftrightarrow> (\<forall>k. k \<noteq> key \<longrightarrow> V' k = V k) \<and>
    (V' key = V key \<or> (\<exists>r r' ls. V key = Some (r, ls) \<and> V' key = Some (r', ls) \<and> P r r'))"

definition ends :: "(u8 \<Rightarrow> nat \<Rightarrow> nat) \<Rightarrow> (txkey \<Rightarrow> logical option) \<Rightarrow> txkey \<Rightarrow> (stored_record \<Rightarrow> stored_record \<Rightarrow> bool) \<Rightarrow> engine \<Rightarrow> bool" where
  "ends R V key P s \<longleftrightarrow> (\<exists>V' I'. at R V' I' {} s \<and> upd key P V V')"

lemma ends_same: "at R V I {} s \<Longrightarrow> ends R V key P s"
  unfolding ends_def upd_def by blast

lemma ends_put: "at R (V(key \<mapsto> (r', ls))) I' {} s \<Longrightarrow> V key = Some (r, ls) \<Longrightarrow> P r r' \<Longrightarrow> ends R V key P s"
  unfolding ends_def upd_def by (intro exI conjI, assumption) auto

lemma ends_mono: "ends R V key P s \<Longrightarrow> (\<And>r r'. P r r' \<Longrightarrow> P' r r') \<Longrightarrow> ends R V key P' s"
  unfolding ends_def upd_def by blast

section \<open>Headers\<close>

definition same_header :: "tx_metadata \<Rightarrow> tx_metadata \<Rightarrow> bool" where
  "same_header m m' \<longleftrightarrow> tx_id m' = tx_id m \<and> utxo_count m' = utxo_count m \<and> record_size m' = record_size m \<and>
    conflicting_children_count m' = conflicting_children_count m \<and>
    conflicting_children_offset m' = conflicting_children_offset m \<and>
    deleted_children_count m' = deleted_children_count m \<and> deleted_children_offset m' = deleted_children_offset m"

lemma same_header_patched: "patched_from m1 m2 \<Longrightarrow> same_header m m1 \<Longrightarrow> same_header m m2"
  by (auto simp: patched_from_def same_header_def)

lemma same_header_touched [simp]: "same_header m (touched now m') \<longleftrightarrow> same_header m m'"
  by (simp add: same_header_def touched_def)

lemma same_header_refl [simp]: "same_header m m"
  by (simp add: same_header_def)

lemma patched_fields:
  assumes "patched_from m m2"
  shows "spent_utxos m2 = spent_utxos m" "pruned_utxos m2 = pruned_utxos m" "utxo_count m2 = utxo_count m" "generation m2 = generation m"
    "preserve_until m2 = preserve_until m"
  using assms by (auto simp: patched_from_def)

lemma counted_header:
  assumes "patched_from (touched now (m\<lparr>spent_utxos := n\<rparr>)) m2"
  shows "spent_utxos m2 = n" "generation m2 = generation m + 1" "same_header m m2"
  using assms by (auto simp: patched_from_def touched_def same_header_def)

lemma length_overlay [simp]: "length (sr_slots (overlay m muts r)) = length (sr_slots r)"
proof -
  have "length (fold (\<lambda>(vout, sl) ss. ss[unat vout := sl]) muts ss) = length ss" for ss :: "utxo_slot list"
    by (induction muts arbitrary: ss) auto
  then show ?thesis by (simp add: overlay_def)
qed

lemma same_claims_meta: "same_header (sr_meta r) m \<Longrightarrow> same_claims r (r\<lparr>sr_meta := m\<rparr>)"
  by (simp add: same_claims_def same_header_def)

lemma same_claims_overlay: "same_header (sr_meta r) m \<Longrightarrow> same_claims r (overlay m muts r)"
  using length_overlay [of m muts r] by (simp add: same_claims_def same_header_def) (simp add: overlay_def)

lemma overlay_single: "overlay m [(i, sl)] r = r\<lparr>sr_slots := (sr_slots r)[unat i := sl], sr_meta := m\<rparr>"
  by (rule stored_record.equality) (simp_all add: overlay_def)

section \<open>Spend\<close>

definition spend_change :: "spend_request \<Rightarrow> stored_record \<Rightarrow> stored_record \<Rightarrow> bool" where
  "spend_change rq r r' \<longleftrightarrow>
    unat (rq_offset rq) < length (sr_slots r) \<and> rq_data rq \<noteq> FROZEN_DATA \<and>
    judge_slot (sr_slots r ! unat (rq_offset rq)) (rq_offset rq) (rq_hash rq) (rq_data rq) (rq_height rq) = SpendSlot \<and>
    sr_slots r' = (sr_slots r)[unat (rq_offset rq) := new_spent (rq_hash rq) (rq_data rq)] \<and> sr_cold r' = sr_cold r \<and>
    (sr_meta r' = sr_meta r \<or>
     spent_utxos (sr_meta r') = spent_utxos (sr_meta r) + 1 \<and> generation (sr_meta r') = generation (sr_meta r) + 1 \<and>
     same_header (sr_meta r) (sr_meta r'))"

lemma safe_persist_spend:
  assumes at: "at R V I {} s" and e: "I key = Some e" and v: "V key = Some (r, ls)"
    and hd: "same_header (sr_meta r) m"
    and P0: "\<And>s'. at R V I {} s' \<Longrightarrow> P s'"
    and P1: "\<And>s' I'. at R (V(key \<mapsto> (r\<lparr>sr_slots := (sr_slots r)[unat i := sl]\<rparr>, ls))) I' {} s' \<Longrightarrow> P s'"
    and P2: "\<And>s' I'. at R (V(key \<mapsto> (r\<lparr>sr_slots := (sr_slots r)[unat i := sl], sr_meta := m\<rparr>, ls))) I' {} s' \<Longrightarrow> P s'"
    and k: "\<And>s' I'. at R (V(key \<mapsto> (r\<lparr>sr_slots := (sr_slots r)[unat i := sl], sr_meta := m\<rparr>, ls))) I' {} s' \<Longrightarrow> safe P k s'"
  shows "safe P (sq (persist_spend (ie_device e) (ie_offset e) key m [(i, sl)] True) k) s"
proof (cases "is_log_structured (en_alloc s (ie_device e))")
  case True
  have "safe P (sq (relocate_record (ie_device e) key m [(i, sl)]) k) s"
    by (rule safe_relocate [OF at e v same_claims_overlay [OF hd]]) (use P0 P2 k in \<open>auto simp: overlay_single\<close>)
  then show ?thesis using True by (simp add: persist_spend_def safe_wp wp)
next
  case False
  let ?r = "r\<lparr>sr_slots := (sr_slots r)[unat i := sl]\<rparr>"
  have "safe P (sq (write_slot_fast (ie_device e) (ie_offset e) i sl) (sq (write_metadata_fast (ie_device e) (ie_offset e) m) k)) s"
  proof (rule safe_write_slot [OF at e v P0])
    fix s' assume a: "at R (V(key \<mapsto> (?r, ls))) I {} s'"
    show "safe P (sq (write_metadata_fast (ie_device e) (ie_offset e) m) k) s'"
      by (rule safe_write_metadata [OF a e]) (use P1 k same_claims_meta [of ?r m] hd in auto)
  qed
  then show ?thesis using False by (simp add: persist_spend_def safe_wp wp)
qed

lemma safe_commit_spend:
  assumes at: "at R V I {} s" and e: "I (rq_key rq) = Some e" and v: "V (rq_key rq) = Some (r, ls)"
    and ch: "unat (rq_offset rq) < length (sr_slots r)" "rq_data rq \<noteq> FROZEN_DATA"
      "judge_slot (sr_slots r ! unat (rq_offset rq)) (rq_offset rq) (rq_hash rq) (rq_data rq) (rq_height rq) = SpendSlot"
  shows "safe (ends R V (rq_key rq) (spend_change rq)) (commit_spend rq e (sr_meta r)) s"
proof -
  let ?P = "ends R V (rq_key rq) (spend_change rq)" and ?sl = "new_spent (rq_hash rq) (rq_data rq)"
  have P1: "?P s'" if "at R (V(rq_key rq \<mapsto> (r\<lparr>sr_slots := (sr_slots r)[unat (rq_offset rq) := ?sl]\<rparr>, ls))) I' {} s'" for s' I'
    by (rule ends_put [OF that v]) (simp add: spend_change_def ch)
  have tail: "safe ?P (sq (mirror_de_flags (rq_key rq) ms m2) (sq (note_patch (rq_key rq) ms patch)
      (sq (update_dah_index (rq_key rq) a b) (ret resp)))) s'"
    if "at R V' I' {} s'" "\<And>s'. at R V' I' {} s' \<Longrightarrow> ?P s'" for V' I' s' ms m2 patch a b resp
    by (rule safe_noncore [OF that(1)]) (intro noncore that(2); assumption?)+
  show ?thesis
    unfolding commit_spend_def Let_def
    apply (rule safe_gets)
    apply (rule safe_sq_noncore [OF at])
      apply (intro noncore)
     apply (erule ends_same)
    apply (rule safe_bnd_noncore, assumption, rule noncore_entries_at, erule ends_same)
    apply (split prod.split, intro allI impI)
    apply (rule safe_evaluate, assumption, erule ends_same)
    apply (simp only: prod.case)
    apply (rule safe_persist_spend, assumption, rule e, rule v, erule counted_header, erule ends_same, erule P1)
     apply (erule ends_put, rule v)
     apply (simp add: spend_change_def ch counted_header)
    apply (rule tail, assumption)
    apply (erule ends_put, rule v)
    apply (simp add: spend_change_def ch counted_header)
    done
qed

lemma noncore_guards [noncore]: "noncore (spend_guards key slot m ic il h)"
  unfolding spend_guards_def by (intro noncore) (simp add: noncore split: prod.split)

lemma noncore_children [noncore]: "noncore (read_children_at d n off)"
  unfolding read_children_at_def by (intro noncore)

lemma noncore_child_deleted [noncore]: "noncore (child_deleted d m dat)"
  unfolding child_deleted_def by (intro noncore)

lemma spend_safe:
  assumes at: "at R V I {} s"
  shows "safe (ends R V (rq_key rq) (spend_change rq)) (spend rq) s"
  unfolding spend_def Let_def
  apply (rule safe_sq_noncore [OF at noncore_observe], erule ends_same)
  apply (rule safe_fail_if, erule ends_same)
  apply (rule safe_lookup, assumption, erule ends_same)
  apply (rule safe_read_metadata, assumption+, erule ends_same)
  apply (rule safe_sq_noncore, assumption, rule noncore_guards, erule ends_same)
  apply (rule safe_fail_if, erule ends_same)
  apply (rule safe_read_slot, assumption+, erule ends_same)
  apply (split slot_verdict.split, intro conjI impI allI)
    apply (rule safe_commit_spend; assumption)
   apply (rule safe_bnd_noncore, assumption, rule noncore_child_deleted, erule ends_same)
   apply (rule safe_fail_if, erule ends_same)
   apply (rule safe_noncore, assumption, intro noncore, simp add: noncore split: prod.split, erule ends_same)
  apply (rule safe_throw, erule ends_same)
  done

section \<open>Unspend\<close>

text \<open>A finished unspend either changed nothing, or freed an owned output and counted it, or only moved
  the delete-at-height of the record.  A torn one freed the output without counting it.\<close>

definition unspend_change :: "unspend_request \<Rightarrow> stored_record \<Rightarrow> stored_record \<Rightarrow> bool" where
  "unspend_change rq r r' \<longleftrightarrow>
    (let i = unat (uq_offset rq); sl = sr_slots r ! i in
     i < length (sr_slots r) \<and> sr_cold r' = sr_cold r \<and> same_header (sr_meta r) (sr_meta r') \<and>
     (if caller_owns_spend sl (uq_data rq)
      then slot_hash sl = uq_hash rq \<and> spent_utxos (sr_meta r) \<noteq> 0 \<and>
        sr_slots r' = (sr_slots r)[i := new_unspent (uq_hash rq)] \<and>
        spent_utxos (sr_meta r') = spent_utxos (sr_meta r) - 1
      else sr_slots r' = sr_slots r \<and> spent_utxos (sr_meta r') = spent_utxos (sr_meta r)))"

definition unspend_torn :: "unspend_request \<Rightarrow> stored_record \<Rightarrow> stored_record \<Rightarrow> bool" where
  "unspend_torn rq r r' \<longleftrightarrow>
    (let i = unat (uq_offset rq); sl = sr_slots r ! i in
     i < length (sr_slots r) \<and> caller_owns_spend sl (uq_data rq) \<and> slot_hash sl = uq_hash rq \<and>
     spent_utxos (sr_meta r) \<noteq> 0 \<and> r' = r\<lparr>sr_slots := (sr_slots r)[i := new_unspent (uq_hash rq)]\<rparr>)"

definition readable :: "txkey \<Rightarrow> u32 \<Rightarrow> engine \<Rightarrow> bool" where
  "readable key slot s \<longleftrightarrow> slot = NO_MINED_SLOT \<or> read_block_entries (en_mined s) key slot \<noteq> None"

definition no_overflow :: "u32 \<Rightarrow> u32 \<Rightarrow> bool" where
  "no_overflow height retention \<longleftrightarrow> retention = 0 \<or> unat height + unat retention < 2 ^ 32"

lemma evaluate_no_overflow:
  assumes "no_overflow h rt"
  obtains sig patch where "evaluate_delete_at_height m hb um h rt = Inr (sig, patch)"
proof -
  have "\<exists>x. evaluate_delete_at_height m hb um h rt = Inr x"
    using assms by (auto simp: evaluate_delete_at_height_def no_overflow_def checked_new_dah_def checked_add_def Let_def)
  then show thesis using that by (metis surj_pair)
qed

lemma readable_set_all_spent:
  "read_block_entries (set_all_spent mi key slot b) key slot = None \<longleftrightarrow> read_block_entries mi key slot = None"
proof (cases "shard_for mi key < length (mi_shards mi)")
  case True
  then show ?thesis
    by (auto simp: read_block_entries_def set_all_spent_def shard_of_def put_shard_def shard_for_def Let_def shard_get_modify
        split: option.splits)
next
  case False
  then show ?thesis by (simp add: set_all_spent_def put_shard_def list_update_beyond)
qed

lemma unspend_middle:
  assumes "readable key slot s" "no_overflow h rt"
  obtains sig patch m2 s' where "core s' = core s" "en_redo s' = en_redo s" "patched_from m1 m2"
    "sq (if owns then note_all_spent key slot False else ret ()) (bnd (mined_block_entries_at key slot) (\<lambda>(es, um).
       bnd (evaluate_patched key slot m1 (es \<noteq> []) um h rt) k)) s = k (sig, patch, m2) s'"
proof -
  let ?s = "if owns \<and> slot \<noteq> NO_MINED_SLOT then s\<lparr>en_mined := set_all_spent (en_mined s) key slot False\<rparr> else s"
  have c: "core ?s = core s" "en_redo ?s = en_redo s" by (simp_all add: core_def)
  have "readable key slot ?s" using assms(1) readable_set_all_spent [of "en_mined s" key slot False]
    unfolding readable_def by (cases "owns \<and> slot \<noteq> NO_MINED_SLOT") (simp_all del: not_None_eq)
  then obtain es um where en: "mined_block_entries_at key slot ?s = (Inr (es, um), ?s)"
    by (cases "slot = NO_MINED_SLOT") (fastforce simp: mined_block_entries_at_def readable_def)+
  have nt: "(if owns then note_all_spent key slot False else ret ()) s = (Inr (), ?s)"
    by (simp add: note_all_spent_def ret_def modify_mined_def modify_def)
  let ?m = "m1\<lparr>flags := flag_set (flags m1) LAST_SPENT_ALL
      (cache_authoritative_lsa (en_mined ?s) key slot (flag_contains (flags m1) LAST_SPENT_ALL))\<rparr>"
  obtain sig patch where ev: "evaluate_delete_at_height ?m (es \<noteq> []) um h rt = Inr (sig, patch)"
    by (rule evaluate_no_overflow [OF assms(2)])
  let ?m2 = "case patch of Some p \<Rightarrow> apply_dah_patch ?m p | None \<Rightarrow> ?m"
  have "evaluate_patched key slot m1 (es \<noteq> []) um h rt ?s = (Inr (sig, patch, ?m2), ?s)"
    using ev by (simp add: evaluate_patched_def bnd_def gets_def lift_sum_def ret_def Let_def)
  then have "sq (if owns then note_all_spent key slot False else ret ()) (bnd (mined_block_entries_at key slot) (\<lambda>(es, um).
       bnd (evaluate_patched key slot m1 (es \<noteq> []) um h rt) k)) s = k (sig, patch, ?m2) ?s"
    using nt en by (simp add: sq_def bnd_def)
  moreover have "patched_from m1 ?m2" by (cases patch) (simp_all add: patched_from_flags apply_dah_patch_from)
  ultimately show thesis using that [OF c] by blast
qed

text \<open>Reads and writes of records change neither the mined index nor the presence of a redo log.\<close>

definition frame :: "'a eng \<Rightarrow> bool" where
  "frame m \<longleftrightarrow> (\<forall>s. en_mined (snd (m s)) = en_mined s \<and> en_redo (snd (m s)) = en_redo s)"

named_theorems frame \<open>operations that leave the mined index alone\<close>

lemma frame_ret [frame]: "frame (ret x)" by (simp add: frame_def ret_def)
lemma frame_throw [frame]: "frame (throw e)" by (simp add: frame_def throw_def)
lemma frame_gets [frame]: "frame (gets f)" by (simp add: frame_def gets_def)
lemma frame_fail_if [frame]: "frame (fail_if c e)" by (simp add: fail_if_def frame)

lemma frame_modify [frame]:
  "(\<And>s. en_mined (f s) = en_mined s \<and> en_redo (f s) = en_redo s) \<Longrightarrow> frame (modify f)"
  by (simp add: frame_def modify_def)

lemma frame_bnd [frame]: "frame m \<Longrightarrow> (\<And>x. frame (k x)) \<Longrightarrow> frame (bnd m k)"
  by (auto simp: frame_def bnd_def split: prod.splits sum.splits) (metis snd_conv)+

lemma frame_sq [frame]: "frame m \<Longrightarrow> frame k \<Longrightarrow> frame (sq m k)"
  by (simp add: sq_def frame_bnd)

lemma frame_if [frame]: "frame m \<Longrightarrow> frame n \<Longrightarrow> frame (if c then m else n)"
  by simp

lemma frame_device_io [frame]: "frame device_io"
  by (auto simp: frame_def device_io_def split: list.splits)

lemma frame_fast_io [frame]: "frame (fast_io d)"
  using frame_device_io by (simp add: frame_def fast_io_def)

lemma frame_read_block [frame]: "frame (read_block d off)"
  by (auto simp: frame_def read_block_def split: option.splits device_block.splits)

lemma frame_put_block [frame]: "frame (put_block d off b)"
  unfolding put_block_def by (intro frame) simp

lemma frame_rw [frame]:
  "frame (read_metadata_fast d off)" "frame (read_slot_fast d off i)"
  "frame (write_metadata_fast d off m)" "frame (write_slot_fast d off i sl)"
  unfolding read_metadata_fast_def read_slot_fast_def write_metadata_fast_def write_slot_fast_def by (intro frame)+

lemma frame_observe [frame]: "frame (observe_block_height h)"
  unfolding observe_block_height_def by (intro frame) simp

lemma frame_lookup [frame]: "frame (lookup_or_not_found key)"
  unfolding lookup_or_not_found_def lookup_checked_def by (intro frame) (simp add: frame split: option.split)

lemma wp_frame:
  assumes "wp m Q E s" "frame m"
  shows "wp m (\<lambda>x s'. Q x s' \<and> en_mined s' = en_mined s \<and> en_redo s' = en_redo s)
    (\<lambda>e s'. E e s' \<and> en_mined s' = en_mined s \<and> en_redo s' = en_redo s) s"
proof -
  obtain r s' where m: "m s = (r, s')" by force
  then have "en_mined s' = en_mined s \<and> en_redo s' = en_redo s" using assms(2) by (metis frame_def snd_conv)
  then show ?thesis using assms(1) m by (auto simp: wp_def split: sum.splits)
qed

lemma wp_write_slot_redo:
  assumes "at R V I X s" "I key = Some e" "V key = Some (r, ls)"
    and "\<And>s'. at R (V(key \<mapsto> (r\<lparr>sr_slots := (sr_slots r)[unat i := sl]\<rparr>, ls))) I X s' \<Longrightarrow>
      en_mined s' = en_mined s \<Longrightarrow> en_redo s' = en_redo s \<Longrightarrow> Q () s'"
    and "\<And>s'. at R V I X s' \<Longrightarrow> en_redo s' = en_redo s \<Longrightarrow> E StorageError s'"
  shows "wp (write_slot_fast (ie_device e) (ie_offset e) i sl) Q E s"
proof -
  have "wp (write_slot_fast (ie_device e) (ie_offset e) i sl)
      (\<lambda>_. at R (V(key \<mapsto> (r\<lparr>sr_slots := (sr_slots r)[unat i := sl]\<rparr>, ls))) I X) (\<lambda>e' s'. at R V I X s' \<and> e' = StorageError) s"
    by (rule wp_write_slot [OF assms(1-3)]) auto
  from wp_frame [OF this frame_rw(4)] show ?thesis by (rule wp_mono) (use assms(4,5) in auto)
qed

lemma wp_write_metadata_redo:
  assumes "at R V I X s" "I key = Some e" "V key = Some (r, ls)" "same_claims r (r\<lparr>sr_meta := m\<rparr>)"
    and "\<And>s'. at R (V(key \<mapsto> (r\<lparr>sr_meta := m\<rparr>, ls))) I X s' \<Longrightarrow> en_redo s' = en_redo s \<Longrightarrow> Q () s'"
    and "\<And>s'. at R V I X s' \<Longrightarrow> en_redo s' = en_redo s \<Longrightarrow> E StorageError s'"
  shows "wp (write_metadata_fast (ie_device e) (ie_offset e) m) Q E s"
proof -
  have "wp (write_metadata_fast (ie_device e) (ie_offset e) m)
      (\<lambda>_. at R (V(key \<mapsto> (r\<lparr>sr_meta := m\<rparr>, ls))) I X) (\<lambda>e' s'. at R V I X s' \<and> e' = StorageError) s"
    by (rule wp_write_metadata [OF assms(1-4)]) auto
  from wp_frame [OF this frame_rw(3)] show ?thesis by (rule wp_mono) (use assms(5,6) in auto)
qed

definition unspend_ends ::
  "(u8 \<Rightarrow> nat \<Rightarrow> nat) \<Rightarrow> (txkey \<Rightarrow> logical option) \<Rightarrow> unspend_request \<Rightarrow> bool \<Rightarrow> engine \<Rightarrow> bool" where
  "unspend_ends R V rq redo s \<longleftrightarrow> ends R V (uq_key rq) (unspend_change rq) s \<or>
    ends R V (uq_key rq) (unspend_torn rq) s \<and> (redo \<longrightarrow> en_poisoned s)"

lemma safe_persist_unspend:
  assumes at: "at R V1 I {} s" and e: "I (uq_key rq) = Some e" and v1: "V1 (uq_key rq) = Some (r1, ls)"
    and v: "V (uq_key rq) = Some (r, ls)" and V1: "V1 = V(uq_key rq \<mapsto> (r1, ls))"
    and hd: "same_header (sr_meta r1) m2"
    and i: "unat (uq_offset rq) < length (sr_slots r)" and sl: "sl = sr_slots r ! unat (uq_offset rq)"
    and own: "owns \<Longrightarrow> unspend_torn rq r r1" and nown: "\<not> owns \<Longrightarrow> r1 = r"
    and new: "unspend_change rq r (r1\<lparr>sr_meta := m2\<rparr>)"
    and k: "\<And>s'. at R (V(uq_key rq \<mapsto> (r1\<lparr>sr_meta := m2\<rparr>, ls))) I {} s' \<Longrightarrow> safe (unspend_ends R V rq (en_redo s)) k s'"
  shows "safe (unspend_ends R V rq (en_redo s)) (sq (persist_unspend e rq sl owns m2) k) s"
proof -
  let ?P = "unspend_ends R V rq (en_redo s)"
  have same: "?P s'" if "at R V I {} s'" for s' using ends_same [OF that] by (simp add: unspend_ends_def)
  have vv: "V(uq_key rq \<mapsto> (r, ls)) = V" using v by (simp add: fun_upd_idem)
  have torn: "?P s'" if "at R V1 I {} s'" "owns" "en_redo s \<longrightarrow> en_poisoned s'" for s'
    proof -
    have "ends R V (uq_key rq) (unspend_torn rq) s'"
      by (rule ends_put [where r' = r1], rule that(1) [unfolded V1], rule v, rule own [OF that(2)])
    then show ?thesis using that(3) by (simp add: unspend_ends_def)
  qed
  show ?thesis
    unfolding safe_wp wp persist_unspend_def
  proof (rule wp_write_metadata_redo [OF at e v1 same_claims_meta [OF hd]], goal_cases)
    case (1 s1)
    from 1(1) have "at R (V(uq_key rq \<mapsto> (r1\<lparr>sr_meta := m2\<rparr>, ls))) I {} s1" unfolding V1 fun_upd_upd .
    then show ?case using k [of s1] by (simp add: safe_wp wp)
  next
    case (2 s1)
    show ?case
    proof (cases owns)
      case True
      have rev: "r1\<lparr>sr_slots := (sr_slots r1)[unat (uq_offset rq) := sl]\<rparr> = r"
        using own [OF True] i sl by (auto simp: unspend_torn_def Let_def)
      have "wp (write_slot_fast (ie_device e) (ie_offset e) (uq_offset rq) sl)
          (\<lambda>_. at R V I {}) (\<lambda>_ s'. at R V1 I {} s' \<and> en_redo s' = en_redo s1) s1"
        by (rule wp_write_slot_redo [OF 2(1) e v1]) (simp_all only: rev V1 fun_upd_upd vv)
      then have "wp (write_slot_fast (ie_device e) (ie_offset e) (uq_offset rq) sl)
          (\<lambda>_. wp (note_all_spent (uq_key rq) (ie_mined_slot e) (spent_utxos m2 + 1 = utxo_count m2)) (\<lambda>_. ?P) (\<lambda>_. ?P))
          (\<lambda>_. wp (sq poison_all_redo_logs (throw StorageError)) (\<lambda>_. ?P) (\<lambda>_. ?P)) s1"
      proof (rule wp_mono)
        fix s2 assume "at R V I {} s2"
        then show "wp (note_all_spent (uq_key rq) (ie_mined_slot e) (spent_utxos m2 + 1 = utxo_count m2)) (\<lambda>_. ?P) (\<lambda>_. ?P) s2"
          by (rule wp_noncore [OF noncore_note_all_spent]) (rule same, assumption)+
      next
        fix s2 assume a: "at R V1 I {} s2 \<and> en_redo s2 = en_redo s1"
        have "at R V1 I {} (if en_redo s2 then s2\<lparr>en_poisoned := True\<rparr> else s2)"
          by (rule at_core [of R V1 I "{}" s2]) (use a in \<open>simp_all add: core_def\<close>)
        then have "?P (if en_redo s2 then s2\<lparr>en_poisoned := True\<rparr> else s2)"
          by (rule torn [OF _ True]) (use a 2(2) in auto)
        then show "wp (sq poison_all_redo_logs (throw StorageError)) (\<lambda>_. ?P) (\<lambda>_. ?P) s2"
          by (simp add: wp poison_all_redo_logs_def)
      qed
      then show ?thesis using True by (simp add: wp)
    next
      case False
      then have "V1 = V" using nown V1 vv by simp
      then show ?thesis using 2 False same by (simp add: wp)
    qed
  qed
qed

lemma safe_unspend_recount:
  assumes at: "at R (V(uq_key rq \<mapsto> (r1, ls))) I {} s" and e: "I (uq_key rq) = Some e" and v: "V (uq_key rq) = Some (r, ls)"
    and i: "unat (uq_offset rq) < length (sr_slots r)" and sl: "sl = sr_slots r ! unat (uq_offset rq)"
    and h: "slot_hash sl = uq_hash rq"
    and rd: "readable (uq_key rq) (ie_mined_slot e) s" "no_overflow (uq_height rq) (uq_retention rq)"
    and nz: "caller_owns_spend sl (uq_data rq) \<Longrightarrow> spent_utxos (sr_meta r) \<noteq> 0"
    and r1: "r1 = (if caller_owns_spend sl (uq_data rq)
      then r\<lparr>sr_slots := (sr_slots r)[unat (uq_offset rq) := new_unspent (uq_hash rq)]\<rparr> else r)"
  shows "safe (unspend_ends R V rq (en_redo s)) (unspend_recount rq e (sr_meta r) sl) s"
proof -
  let ?owns = "caller_owns_spend sl (uq_data rq)" and ?P = "unspend_ends R V rq (en_redo s)"
  let ?m1 = "if ?owns then touched (en_now s) ((sr_meta r)\<lparr>spent_utxos := spent_utxos (sr_meta r) - 1\<rparr>) else sr_meta r"
  obtain sig patch m2 s' where c: "core s' = core s" "en_redo s' = en_redo s" and p: "patched_from ?m1 m2"
    and eq: "sq (if ?owns then note_all_spent (uq_key rq) (ie_mined_slot e) False else ret ())
      (bnd (mined_block_entries_at (uq_key rq) (ie_mined_slot e)) (\<lambda>(es, um).
       bnd (evaluate_patched (uq_key rq) (ie_mined_slot e) ?m1 (es \<noteq> []) um (uq_height rq) (uq_retention rq))
         (unspend_finish rq e (sr_meta r) sl))) s = unspend_finish rq e (sr_meta r) sl (sig, patch, m2) s'"
    by (rule unspend_middle [OF rd])
  have at': "at R (V(uq_key rq \<mapsto> (r1, ls))) I {} s'" by (rule at_core [OF at c(1)])
  have hd: "same_header (sr_meta r) m2"
    by (rule same_header_patched [OF p]) (simp add: same_header_def touched_def)
  have hd1: "same_header (sr_meta r1) m2" using hd r1 by (cases ?owns) simp_all
  have cnt: "spent_utxos m2 = (if ?owns then spent_utxos (sr_meta r) - 1 else spent_utxos (sr_meta r))"
    using patched_fields(1) [OF p] by (cases ?owns) (simp_all add: touched_def)
  have new: "unspend_change rq r (r1\<lparr>sr_meta := m2\<rparr>)"
    using hd cnt nz i h r1 unfolding unspend_change_def Let_def sl [symmetric] by (cases ?owns) simp_all
  have old: "?owns \<or> ?P x" if "at R (V(uq_key rq \<mapsto> (r1, ls))) I {} x" for x
    using that ends_same [of R V I x] r1 v by (cases ?owns) (simp_all add: unspend_ends_def fun_upd_idem)
  have final: "?P x" if "at R (V(uq_key rq \<mapsto> (r1\<lparr>sr_meta := m2\<rparr>, ls))) I {} x" for x
  proof -
    have "ends R V (uq_key rq) (unspend_change rq) x" by (rule ends_put [where r' = "r1\<lparr>sr_meta := m2\<rparr>"], rule that, rule v, rule new)
    then show ?thesis by (simp add: unspend_ends_def)
  qed
  have tail: "safe ?P (sq (mirror_de_flags (uq_key rq) (ie_mined_slot e) m2) (sq (note_patch (uq_key rq) (ie_mined_slot e) patch)
      (sq (update_dah_index (uq_key rq) (delete_at_height (sr_meta r)) (delete_at_height m2)) (ret resp)))) x"
    if "at R (V(uq_key rq \<mapsto> (r1\<lparr>sr_meta := m2\<rparr>, ls))) I {} x" for x resp
    by (rule safe_noncore [OF that]) (intro noncore final; assumption?)+
  have "safe ?P (unspend_finish rq e (sr_meta r) sl (sig, patch, m2)) s'"
  proof (cases "?owns \<or> delete_at_height m2 \<noteq> delete_at_height (sr_meta r)")
    case True
    have "safe (unspend_ends R V rq (en_redo s')) (sq (persist_unspend e rq sl ?owns m2)
        (sq (mirror_de_flags (uq_key rq) (ie_mined_slot e) m2) (sq (note_patch (uq_key rq) (ie_mined_slot e) patch)
        (sq (update_dah_index (uq_key rq) (delete_at_height (sr_meta r)) (delete_at_height m2))
          (ret \<lparr>up_signal = sig, up_generation = generation m2\<rparr>))))) s'"
    proof (rule safe_persist_unspend [OF at' e _ v refl hd1 i sl _ _ new])
      show "unspend_torn rq r r1" if "?owns" using that i h nz r1 unfolding unspend_torn_def Let_def sl [symmetric] by simp
      show "r1 = r" if "\<not> ?owns" using that r1 by simp
    qed (use tail c in auto)
    then show ?thesis using True c(2) by (simp add: unspend_finish_def Let_def safe_wp wp)
  next
    case False
    then have "?P s'" using old [OF at'] by blast
    then show ?thesis using False by (auto simp: unspend_finish_def Let_def safe_wp wp)
  qed
  then show ?thesis
    using eq by (simp add: unspend_recount_def Let_def safe_def bnd_def [of "gets en_now"] gets_def)
qed

lemma safe_unspend_apply:
  assumes at: "at R V I {} s" and e: "I (uq_key rq) = Some e" and v: "V (uq_key rq) = Some (r, ls)"
    and i: "unat (uq_offset rq) < length (sr_slots r)" and h: "slot_hash (sr_slots r ! unat (uq_offset rq)) = uq_hash rq"
    and rd: "readable (uq_key rq) (ie_mined_slot e) s" "no_overflow (uq_height rq) (uq_retention rq)"
  shows "safe (unspend_ends R V rq (en_redo s)) (unspend_apply rq e (sr_meta r) (sr_slots r ! unat (uq_offset rq))) s"
proof -
  let ?P = "unspend_ends R V rq (en_redo s)"
  let ?sl = "sr_slots r ! unat (uq_offset rq)" and ?owns = "caller_owns_spend (sr_slots r ! unat (uq_offset rq)) (uq_data rq)"
  let ?r1 = "if ?owns then r\<lparr>sr_slots := (sr_slots r)[unat (uq_offset rq) := new_unspent (uq_hash rq)]\<rparr> else r"
  have same: "?P s'" if "at R V I {} s'" for s' using ends_same [OF that] by (simp add: unspend_ends_def)
  have go: "safe ?P (unspend_recount rq e (sr_meta r) ?sl) s1"
    if a: "at R (V(uq_key rq \<mapsto> (?r1, ls))) I {} s1" and mi: "en_mined s1 = en_mined s" "en_redo s1 = en_redo s"
      and nz: "?owns \<Longrightarrow> spent_utxos (sr_meta r) \<noteq> 0" for s1
    using safe_unspend_recount [OF a e v i refl h _ rd(2) nz refl] rd(1) mi by (simp add: readable_def)
  show ?thesis
    unfolding unspend_apply_def Let_def
  proof (rule safe_fail_if [where P = ?P, OF same [OF at]])
    assume nz: "\<not> (?owns \<and> spent_utxos (sr_meta r) = 0)"
    show "safe ?P (sq (if ?owns then write_slot_fast (ie_device e) (ie_offset e) (uq_offset rq) (new_unspent (uq_hash rq)) else ret ())
        (unspend_recount rq e (sr_meta r) ?sl)) s"
    proof (cases ?owns)
      case True
      have "wp (write_slot_fast (ie_device e) (ie_offset e) (uq_offset rq) (new_unspent (uq_hash rq)))
          (\<lambda>_. safe ?P (unspend_recount rq e (sr_meta r) ?sl)) (\<lambda>_. ?P) s"
        by (rule wp_write_slot_redo [OF at e v]) (use True nz go same in auto)
      then show ?thesis using True by (simp add: safe_sq)
    next
      case False
      then show ?thesis using go [of s] at v by (simp add: safe_wp wp fun_upd_idem)
    qed
  qed
qed

lemma unspend_safe:
  assumes at: "at R V I {} s" and rd: "\<And>e. I (uq_key rq) = Some e \<Longrightarrow> readable (uq_key rq) (ie_mined_slot e) s"
    and no: "no_overflow (uq_height rq) (uq_retention rq)"
  shows "safe (unspend_ends R V rq (en_redo s)) (unspend rq) s"
proof -
  let ?P = "unspend_ends R V rq (en_redo s)"
  let ?A = "\<lambda>s'. at R V I {} s' \<and> en_mined s' = en_mined s \<and> en_redo s' = en_redo s"
  have same: "?P s'" if "?A s'" for s' using that ends_same [of R V I s'] by (simp add: unspend_ends_def)
  have step: "wp m (\<lambda>x s'. Q x \<and> ?A s') (\<lambda>_. ?P) s1" if "wp m (\<lambda>x s'. Q x \<and> at R V I {} s') (\<lambda>_. at R V I {}) s1" "frame m" "?A s1"
    for m :: "'a eng" and Q s1
    using wp_frame [OF that(1,2)] by (rule wp_mono) (use that(3) same in auto)
  have obs: "?A (s\<lparr>en_height := max (en_height s) h\<rparr>)" for h
    using at_core [OF at, of "s\<lparr>en_height := max (en_height s) h\<rparr>"] by (simp add: core_def)
  have guards: "safe ?P (sq (fail_if c1 e1) (sq (fail_if c2 e2) (sq (fail_if c3 e3) k))) s1"
    if "?A s1" "\<not> c1 \<Longrightarrow> safe ?P k s1" for c1 c2 c3 e1 e2 e3 s1 and k :: "unspend_response eng"
    using that same by (auto simp: safe_wp wp)
  have main: "safe ?P (bnd (read_metadata_fast (ie_device e) (ie_offset e)) (\<lambda>m.
     sq (fail_if (utxo_count m \<le> off) (UtxoNotFound off))
    (bnd (read_slot_fast (ie_device e) (ie_offset e) (uq_offset rq)) (\<lambda>sl.
     sq (fail_if (slot_hash sl \<noteq> uq_hash rq) (UtxoHashMismatch off))
    (sq (fail_if (c2 sl) (e2 sl)) (sq (fail_if (c3 sl) e3) (unspend_apply rq e m sl))))))) s1"
    if e: "I (uq_key rq) = Some e" and v: "V (uq_key rq) = Some (r, ls)" and A: "?A s1" for e r ls s1 off c2 e2 c3 e3
  proof -
    have slot: "safe ?P (bnd (read_slot_fast (ie_device e) (ie_offset e) (uq_offset rq)) (\<lambda>sl.
        sq (fail_if (slot_hash sl \<noteq> uq_hash rq) (UtxoHashMismatch off))
        (sq (fail_if (c2 sl) (e2 sl)) (sq (fail_if (c3 sl) e3) (unspend_apply rq e (sr_meta r) sl))))) s2" if A2: "?A s2" for s2
    proof -
      have "wp (read_slot_fast (ie_device e) (ie_offset e) (uq_offset rq))
          (\<lambda>sl s'. (sl = sr_slots r ! unat (uq_offset rq) \<and> unat (uq_offset rq) < length (sr_slots r)) \<and> at R V I {} s') (\<lambda>_. at R V I {}) s2"
        by (rule wp_read_slot [OF conjunct1 [OF A2] e v]) auto
      from step [OF this frame_rw(2) A2] show ?thesis
        unfolding safe_bnd
      proof (rule wp_mono)
        fix sl s3 assume b: "(sl = sr_slots r ! unat (uq_offset rq) \<and> unat (uq_offset rq) < length (sr_slots r)) \<and> ?A s3"
        show "safe ?P (sq (fail_if (slot_hash sl \<noteq> uq_hash rq) (UtxoHashMismatch off))
          (sq (fail_if (c2 sl) (e2 sl)) (sq (fail_if (c3 sl) e3) (unspend_apply rq e (sr_meta r) sl)))) s3"
        proof (rule guards)
          assume "\<not> slot_hash sl \<noteq> uq_hash rq"
          then show "safe ?P (unspend_apply rq e (sr_meta r) sl) s3"
            using safe_unspend_apply [of R V I s3 rq e r ls] b e v rd [OF e] no by (simp add: readable_def)
        qed (use b in blast)
      qed
    qed
    have "wp (read_metadata_fast (ie_device e) (ie_offset e)) (\<lambda>m s'. m = sr_meta r \<and> at R V I {} s') (\<lambda>_. at R V I {}) s1"
      by (rule wp_read_metadata [OF conjunct1 [OF A] e v]) auto
    from step [OF this frame_rw(1) A] show ?thesis
      unfolding safe_bnd by (rule wp_mono) (use slot same in \<open>auto intro!: safe_fail_if\<close>)
  qed
  show ?thesis
    unfolding unspend_def Let_def observe_block_height_def safe_sq wp
  proof (rule safe_lookup)
    show "at R V I {} (s\<lparr>en_height := max (en_height s) (uq_height rq)\<rparr>)" using obs by blast
    show "?P s'" if "at R V I {} s'" for s' using ends_same [OF that] by (simp add: unspend_ends_def)
  qed (rule main, assumption+, rule obs)
qed

end
