(* ===== verification/Engine_Slots.thy ===== *)
theory Engine_Slots
  imports Engine_Spend
begin

text \<open>
  The remaining operations on single outputs (\<open>src/src/ops/engine.rs\<close>): freezing, unfreezing,
  reassigning and pruning a slot, the point read of a spend, and the generation sync of a replica.
\<close>

section \<open>Requests\<close>

record slot_request =
  lq_key :: txkey
  lq_offset :: u32
  lq_hash :: bytes

record reassign_request =
  aq_key :: txkey
  aq_offset :: u32
  aq_hash :: bytes
  aq_new_hash :: bytes
  aq_height :: u32
  aq_after :: u32

record get_spend_response =
  gs_status :: u8
  gs_data :: "bytes option"
  gs_locktime :: u32

section \<open>Freezing\<close>

definition bump_generation :: "index_entry \<Rightarrow> tx_metadata \<Rightarrow> u32 eng" where
  "bump_generation e m =
    bnd (gets en_now) (\<lambda>now.
      sq (write_metadata_fast (ie_device e) (ie_offset e) (touched now m)) (ret (generation m + 1)))"

definition frozen_image :: "utxo_slot \<Rightarrow> bytes \<Rightarrow> utxo_slot" where
  "frozen_image sl h =
    (let cooldown = reassignment_cooldown sl in
     if cooldown = 0 then new_frozen h else new_frozen_with_cooldown h cooldown)"

definition freeze :: "slot_request \<Rightarrow> u32 eng" where
  "freeze rq =
    (let off = lq_offset rq in
     bnd (lookup_or_not_found (lq_key rq)) (\<lambda>e.
     bnd (read_metadata_fast (ie_device e) (ie_offset e)) (\<lambda>m.
     sq (fail_if (utxo_count m \<le> off) (UtxoNotFound off))
    (bnd (read_slot_fast (ie_device e) (ie_offset e) off) (\<lambda>sl.
     sq (fail_if (slot_hash sl \<noteq> lq_hash rq) (UtxoHashMismatch off))
    (sq (fail_if (status sl = UTXO_FROZEN) (AlreadyFrozen off))
    (sq (fail_if (status sl = UTXO_SPENT) (AlreadySpent off (spending_data sl)))
    (sq (fail_if (status sl \<noteq> UTXO_UNSPENT) StorageError)
    (sq (write_slot_fast (ie_device e) (ie_offset e) off (frozen_image sl (lq_hash rq)))
        (bump_generation e m))))))))))"

definition unfrozen_image :: "utxo_slot \<Rightarrow> bytes \<Rightarrow> utxo_slot" where
  "unfrozen_image sl h =
    (let cooldown = reassignment_cooldown sl in
     if cooldown = 0 \<or> cooldown = 0xFFFFFFFF then new_unspent h else new_unspent_with_cooldown h cooldown)"

definition unfreeze :: "slot_request \<Rightarrow> u32 eng" where
  "unfreeze rq =
    (let off = lq_offset rq in
     bnd (lookup_or_not_found (lq_key rq)) (\<lambda>e.
     bnd (read_metadata_fast (ie_device e) (ie_offset e)) (\<lambda>m.
     sq (fail_if (utxo_count m \<le> off) (UtxoNotFound off))
    (bnd (read_slot_fast (ie_device e) (ie_offset e) off) (\<lambda>sl.
     sq (fail_if (slot_hash sl \<noteq> lq_hash rq) (UtxoHashMismatch off))
    (sq (fail_if (status sl \<noteq> UTXO_FROZEN) (NotFrozen off))
    (sq (write_slot_fast (ie_device e) (ie_offset e) off (unfrozen_image sl (lq_hash rq)))
        (bump_generation e m))))))))"

text \<open>A reassignment passes the spending guards with no override.\<close>

definition reassign :: "reassign_request \<Rightarrow> u32 eng" where
  "reassign rq =
    (let key = aq_key rq; off = aq_offset rq in
     bnd (lookup_or_not_found key) (\<lambda>e.
     bnd (read_metadata_fast (ie_device e) (ie_offset e)) (\<lambda>m.
     sq (fail_if (utxo_count m \<le> off) (UtxoNotFound off))
    (sq (spend_guards key (ie_mined_slot e) m False False (aq_height rq))
    (bnd (read_slot_fast (ie_device e) (ie_offset e) off) (\<lambda>sl.
     sq (fail_if (slot_hash sl \<noteq> aq_hash rq) (UtxoHashMismatch off))
    (sq (fail_if (status sl \<noteq> UTXO_FROZEN) (NotFrozen off))
    (case checked_add (aq_height rq) (aq_after rq) of
       None \<Rightarrow> throw (ReassignOverflow (aq_height rq) (aq_after rq))
     | Some spendable_height \<Rightarrow>
         sq (write_slot_fast (ie_device e) (ie_offset e) off (new_unspent_with_cooldown (aq_new_hash rq) spendable_height))
        (bnd (gets en_now) (\<lambda>now.
         let m1 = touched now (m\<lparr>flags := flags m OR REASSIGNED,
                    reassignment_count := (if reassignment_count m = 255 then 255 else reassignment_count m + 1)\<rparr>) in
         sq (write_metadata_fast (ie_device e) (ie_offset e) m1)
        (sq (mirror_de_flags key (ie_mined_slot e) m1)
            (ret (generation m1)))))))))))))"

section \<open>Pruning\<close>

definition spent_by_child :: "utxo_slot \<Rightarrow> bytes \<Rightarrow> bool" where
  "spent_by_child sl child \<longleftrightarrow> status sl = UTXO_SPENT \<and> take 32 (spending_data sl) = child"

fun scan_spent :: "index_entry \<Rightarrow> bytes \<Rightarrow> u32 list \<Rightarrow> u32 list eng" where
  "scan_spent e child [] = ret []"
| "scan_spent e child (off # rest) =
    bnd (read_slot_fast (ie_device e) (ie_offset e) off) (\<lambda>sl.
    bnd (scan_spent e child rest) (\<lambda>offs. ret (if spent_by_child sl child then off # offs else offs)))"

definition slots_spent_by_child :: "txkey \<Rightarrow> bytes \<Rightarrow> u32 list eng" where
  "slots_spent_by_child parent child =
    bnd (lookup_checked parent) (\<lambda>r. case r of
      None \<Rightarrow> ret []
    | Some e \<Rightarrow> bnd (read_metadata_fast (ie_device e) (ie_offset e)) (\<lambda>m.
        scan_spent e child (map of_nat [0..<unat (utxo_count m)])))"

text \<open>Pruning a spent slot moves it from the spent to the pruned counter.  The deletion height is only
  ever lowered here.\<close>

definition prune_recount :: "txkey \<Rightarrow> index_entry \<Rightarrow> tx_metadata \<Rightarrow> unit eng" where
  "prune_recount key e m =
    (let mslot = ie_mined_slot e; old_dah = delete_at_height m in
     sq (fail_if (spent_utxos m = 0) StorageError)
    (sq (fail_if (checked_add (pruned_utxos m) 1 = None) StorageError)
    (bnd (gets en_now) (\<lambda>now.
     let m1 = touched now (m\<lparr>spent_utxos := spent_utxos m - 1, pruned_utxos := pruned_utxos m + 1\<rparr>) in
     sq (note_all_spent key mslot False)
    (bnd (mined_block_entries_at key mslot) (\<lambda>(es, um).
     bnd (gets (\<lambda>s. cache_authoritative_lsa (en_mined s) key mslot (flag_contains (flags m1) LAST_SPENT_ALL))) (\<lambda>lsa.
     let m2 = m1\<lparr>flags := flag_set (flags m1) LAST_SPENT_ALL lsa\<rparr> in
     bnd (lift_sum (evaluate_delete_at_height m2 (es \<noteq> []) um 0 1)) (\<lambda>(_, patch).
     let lower = (case patch of Some p \<Rightarrow> if new_delete_at_height p < old_dah then Some p else None | None \<Rightarrow> None);
         m3 = (case lower of Some p \<Rightarrow> apply_dah_patch m2 p | None \<Rightarrow> m2) in
     sq (note_patch key mslot lower)
    (sq (write_metadata_fast (ie_device e) (ie_offset e) m3)
    (sq (mirror_de_flags key mslot m3)
        (update_dah_index key old_dah (delete_at_height m3))))))))))))"

definition prune_locked :: "txkey \<Rightarrow> u32 \<Rightarrow> bytes \<Rightarrow> bool eng" where
  "prune_locked parent off child =
    bnd (lookup_checked parent) (\<lambda>r. case r of
      None \<Rightarrow> ret False
    | Some e \<Rightarrow> bnd (read_metadata_fast (ie_device e) (ie_offset e)) (\<lambda>m.
        if utxo_count m \<le> off then ret False
        else bnd (read_slot_fast (ie_device e) (ie_offset e) off) (\<lambda>sl.
          if status sl = UTXO_PRUNED \<or> \<not> spent_by_child sl child then ret False
          else sq (write_slot_fast (ie_device e) (ie_offset e) off (sl\<lparr>status := UTXO_PRUNED\<rparr>))
              (sq (prune_recount parent e m) (ret True)))))"

definition prune_slot :: "txkey \<Rightarrow> u32 \<Rightarrow> bool eng" where
  "prune_slot key off =
    bnd (lookup_checked key) (\<lambda>r. case r of
      None \<Rightarrow> ret False
    | Some e \<Rightarrow> bnd (read_metadata_fast (ie_device e) (ie_offset e)) (\<lambda>m.
        if utxo_count m \<le> off then ret False
        else bnd (read_slot_fast (ie_device e) (ie_offset e) off) (\<lambda>sl.
          if status sl = UTXO_PRUNED then ret False
          else sq (write_slot_fast (ie_device e) (ie_offset e) off (sl\<lparr>status := UTXO_PRUNED\<rparr>)) (ret True))))"

definition set_record_generation :: "txkey \<Rightarrow> u32 \<Rightarrow> bool eng" where
  "set_record_generation key g =
    bnd (lookup_checked key) (\<lambda>r. case r of
      None \<Rightarrow> ret False
    | Some e \<Rightarrow> bnd (read_metadata_fast (ie_device e) (ie_offset e)) (\<lambda>m.
        sq (write_metadata_fast (ie_device e) (ie_offset e) (m\<lparr>generation := g\<rparr>)) (ret True)))"

section \<open>Point read\<close>

text \<open>Two device reads: the identity first, then identity and slot together.\<close>

definition read_identity_at :: "txkey \<Rightarrow> u32 \<Rightarrow> index_entry \<Rightarrow> stored_record eng" where
  "read_identity_at key off e =
    sq device_io
   (bnd (read_block (ie_device e) (ie_offset e)) (\<lambda>r.
     sq (fail_if (tx_id (sr_meta r) \<noteq> key) TxNotFound)
    (sq (fail_if (utxo_count (sr_meta r) \<le> off) (UtxoNotFound off))
        (ret r))))"

definition get_spend :: "slot_request \<Rightarrow> get_spend_response eng" where
  "get_spend rq =
    (let key = lq_key rq; off = lq_offset rq in
     bnd (lookup_or_not_found key) (\<lambda>e.
     sq (read_identity_at key off e)
    (bnd (read_identity_at key off e) (\<lambda>r.
     if length (sr_slots r) \<le> unat off then throw StorageError
     else let sl = sr_slots r ! unat off in
       sq (fail_if (slot_hash sl \<noteq> lq_hash rq) (UtxoHashMismatch off))
          (ret \<lparr>gs_status = status sl,
                gs_data = (if status sl = UTXO_SPENT \<or> status sl = UTXO_FROZEN \<or> status sl = UTXO_PRUNED
                           then Some (spending_data sl) else None),
                gs_locktime = locktime (sr_meta r)\<rparr>)))))"

end
