(* ===== verification/Engine_Flags.thy ===== *)
theory Engine_Flags
  imports Engine_Spend
begin

text \<open>
  The operations on a record's state (\<open>src/src/ops/engine.rs\<close>): mined state, longest chain,
  conflicting and locked flags, preservation and its expiry, and the sweep's eligibility checks with
  the deletion they guard.
\<close>

section \<open>Mined state\<close>

record set_mined_params =
  sm_block_id :: u32
  sm_block_height :: u32
  sm_subtree_idx :: u32
  sm_height :: u32
  sm_retention :: u32
  sm_on_longest_chain :: bool
  sm_unset :: bool

record set_mined_response =
  sd_signal :: signal
  sd_block_ids :: "u32 list"

definition mined_transition_of :: "set_mined_params \<Rightarrow> mined_transition" where
  "mined_transition_of p =
    (if sm_unset p then TransUnset (sm_block_id p) (sm_height p)
     else TransSet (sm_block_id p) (sm_block_height p) (sm_subtree_idx p) (sm_on_longest_chain p))"

definition apply_transition :: "txkey \<Rightarrow> u32 \<Rightarrow> set_mined_params \<Rightarrow> mined_transition_state eng" where
  "apply_transition key slot p s =
    (if slot = NO_MINED_SLOT
     then (Inr \<lparr>ts_block_entries = [], ts_unmined_since = 0, ts_de_flags = 0, ts_all_spent = False\<rparr>, s)
     else case apply_mined_transition (en_mined s) key slot (mined_transition_of p) of
       (Applied st, mi) \<Rightarrow> (Inr st, s\<lparr>en_mined := mi\<rparr>)
     | (OutcomeFull, mi) \<Rightarrow> (Inl (BlockEntriesFull 255), s\<lparr>en_mined := mi\<rparr>)
     | (SlotAbsent, mi) \<Rightarrow> (Inl StorageError, s\<lparr>en_mined := mi\<rparr>))"

definition dah_of :: "engine \<Rightarrow> txkey \<Rightarrow> u32" where
  "dah_of s key = (case dah_get_height (en_dah s) key of Some h \<Rightarrow> h | None \<Rightarrow> 0)"

definition set_mined_inner :: "txkey \<Rightarrow> set_mined_params \<Rightarrow> set_mined_response eng" where
  "set_mined_inner key p =
    sq (observe_block_height (sm_height p))
   (bnd (lookup_or_not_found key) (\<lambda>e.
    bnd (apply_transition key (ie_mined_slot e) p) (\<lambda>st.
    bnd (gets (\<lambda>s. dah_of s key)) (\<lambda>old_dah.
    bnd (lift_sum (evaluate_dah_from_ram (tx_flags_from_de_flags (ts_de_flags st)) (ts_all_spent st)
           (ts_block_entries st \<noteq> []) (ts_unmined_since st) (ts_de_flags st AND MINED_PRESERVED \<noteq> 0)
           old_dah (sm_height p) (sm_retention p))) (\<lambda>(sig, patch).
    sq (update_both_secondary_indexes key old_dah
          (case patch of Some q \<Rightarrow> new_delete_at_height q | None \<Rightarrow> old_dah))
   (sq (case patch of
          Some q \<Rightarrow> modify_mined (\<lambda>mi. set_de_flag mi key (ie_mined_slot e) MINED_LAST_SPENT_ALL (last_spent_all q))
        | None \<Rightarrow> ret ())
       (ret \<lparr>sd_signal = sig, sd_block_ids = map be_block_id (ts_block_entries st)\<rparr>)))))))"

fun set_mined_batch :: "set_mined_params \<Rightarrow> txkey list \<Rightarrow> (spend_error + set_mined_response) list eng" where
  "set_mined_batch p [] = ret []"
| "set_mined_batch p (key # keys) =
    bnd (attempt (set_mined_inner key p)) (\<lambda>r. bnd (set_mined_batch p keys) (\<lambda>rs. ret (r # rs)))"

record mark_request =
  mk_key :: txkey
  mk_on_longest_chain :: bool
  mk_height :: u32
  mk_retention :: u32

record signal_response =
  sg_signal :: signal
  sg_generation :: u32

definition mark_on_longest_chain :: "mark_request \<Rightarrow> signal_response eng" where
  "mark_on_longest_chain rq =
    (let key = mk_key rq in
     sq (observe_block_height (mk_height rq))
    (bnd (lookup_or_not_found key) (\<lambda>e.
     bnd (read_metadata_fast (ie_device e) (ie_offset e)) (\<lambda>m.
     bnd (gets en_now) (\<lambda>now.
     let m1 = touched now (m\<lparr>unmined_since := (if mk_on_longest_chain rq then 0 else mk_height rq)\<rparr>) in
     bnd (mined_block_entries_at key (ie_mined_slot e)) (\<lambda>(es, _).
     bnd (evaluate_patched key (ie_mined_slot e) m1 (es \<noteq> []) (unmined_since m1) (mk_height rq) (mk_retention rq))
       (\<lambda>(sig, patch, m2).
     sq (write_metadata_fast (ie_device e) (ie_offset e) m2)
    (sq (mirror_de_flags key (ie_mined_slot e) m2)
    (sq (note_patch key (ie_mined_slot e) patch)
    (sq (sync_primary_and_both_secondary_atomic key (delete_at_height m) (delete_at_height m2))
    (sq (if ie_mined_slot e = NO_MINED_SLOT then ret ()
         else modify_mined (\<lambda>mi. set_longest_chain mi key (ie_mined_slot e) (mk_on_longest_chain rq) (mk_height rq)))
        (ret \<lparr>sg_signal = sig, sg_generation = generation m2\<rparr>))))))))))))"

section \<open>Conflicting flag\<close>

record set_conflicting_request =
  cq_key :: txkey
  cq_value :: bool
  cq_height :: u32
  cq_retention :: u32

text \<open>On a memory-mapped store the decision is taken by the cached evaluator, which reports no old
  deletion height for a preserved record.\<close>

definition conflicting_direct :: "set_conflicting_request \<Rightarrow> index_entry \<Rightarrow> bool \<Rightarrow> u32 \<Rightarrow> signal_response eng" where
  "conflicting_direct rq e has_blocks um =
    (let key = cq_key rq; mslot = ie_mined_slot e in
     bnd (read_metadata_fast (ie_device e) (ie_offset e)) (\<lambda>m.
     let has_preserve = (preserve_until m \<noteq> 0);
         old_dah = (if has_preserve then 0 else delete_at_height m);
         tf = flag_set (flags m) CONFLICTING (cq_value rq) in
     bnd (gets (\<lambda>s. cache_authoritative_lsa (en_mined s) key mslot (flag_contains tf LAST_SPENT_ALL))) (\<lambda>lsa.
     let tf1 = flag_set tf LAST_SPENT_ALL lsa in
     bnd (lift_sum (evaluate_dah_cached tf1 (spent_utxos m) (utxo_count m) (if has_blocks then 1 else 0) um has_preserve
            (if has_preserve then preserve_until m else delete_at_height m) (cq_height rq) (cq_retention rq))) (\<lambda>(sig, patch).
     let tf2 = (case patch of Some p \<Rightarrow> flag_set tf1 LAST_SPENT_ALL (last_spent_all p) | None \<Rightarrow> tf1);
         new_dah = (case patch of Some p \<Rightarrow> new_delete_at_height p | None \<Rightarrow> old_dah) in
     sq (note_patch key mslot patch)
    (bnd (gets en_now) (\<lambda>now.
     let m1 = (touched now m)\<lparr>flags := tf2, delete_at_height := new_dah\<rparr> in
     sq (write_metadata_fast (ie_device e) (ie_offset e) m1)
    (sq (mirror_de_flags key mslot m1)
    (sq (update_dah_index key old_dah new_dah)
        (ret \<lparr>sg_signal = sig, sg_generation = generation m1\<rparr>)))))))))"

definition conflicting_buffered :: "set_conflicting_request \<Rightarrow> index_entry \<Rightarrow> bool \<Rightarrow> u32 \<Rightarrow> signal_response eng" where
  "conflicting_buffered rq e has_blocks um =
    (let key = cq_key rq; mslot = ie_mined_slot e in
     bnd (read_metadata_fast (ie_device e) (ie_offset e)) (\<lambda>m.
     bnd (gets en_now) (\<lambda>now.
     let m1 = touched now (m\<lparr>flags := flag_set (flags m) CONFLICTING (cq_value rq)\<rparr>) in
     bnd (evaluate_patched key mslot m1 has_blocks um (cq_height rq) (cq_retention rq)) (\<lambda>(sig, patch, m2).
     sq (write_metadata_fast (ie_device e) (ie_offset e) m2)
    (sq (mirror_de_flags key mslot m2)
    (sq (note_patch key mslot patch)
    (sq (update_dah_index key (delete_at_height m) (delete_at_height m2))
        (ret \<lparr>sg_signal = sig, sg_generation = generation m2\<rparr>))))))))"

definition set_conflicting_locked :: "set_conflicting_request \<Rightarrow> signal_response eng" where
  "set_conflicting_locked rq =
    (let key = cq_key rq in
     bnd (lookup_or_not_found key) (\<lambda>e.
     bnd (mined_block_entries_at key (ie_mined_slot e)) (\<lambda>(es, um).
     bnd (gets (\<lambda>s. en_direct s (ie_device e))) (\<lambda>direct.
     bnd (if direct then conflicting_direct rq e (es \<noteq> []) um else conflicting_buffered rq e (es \<noteq> []) um) (\<lambda>response.
     sq (modify (\<lambda>s. s\<lparr>en_conflicting :=
           (if cq_value rq then conflicting_insert (en_conflicting s) key else conflicting_remove (en_conflicting s) key)\<rparr>))
        (ret response))))))"

section \<open>Locked flag\<close>

record set_locked_response =
  lr_generation :: u32
  lr_prior_locked :: bool
  lr_prior_dah :: u32

text \<open>The memory-mapped and the buffered branch of the code perform the same accesses.\<close>

definition set_locked_with_before_image :: "txkey \<Rightarrow> bool \<Rightarrow> set_locked_response eng" where
  "set_locked_with_before_image key value =
    bnd (lookup_or_not_found key) (\<lambda>e.
    bnd (read_metadata_fast (ie_device e) (ie_offset e)) (\<lambda>m.
    bnd (gets (\<lambda>s. dah_of s key)) (\<lambda>authoritative_dah.
    bnd (gets en_now) (\<lambda>now.
    let m1 = touched now
          (if value then m\<lparr>flags := flag_insert (flags m) LOCKED, delete_at_height := 0\<rparr>
           else m\<lparr>flags := flag_remove (flags m) LOCKED\<rparr>) in
    sq (write_metadata_fast (ie_device e) (ie_offset e) m1)
   (sq (update_dah_index key authoritative_dah (if value then 0 else authoritative_dah))
       (ret \<lparr>lr_generation = generation m1, lr_prior_locked = flag_contains (flags m) LOCKED,
             lr_prior_dah = authoritative_dah\<rparr>))))))"

definition restore_set_locked_for_compensation :: "txkey \<Rightarrow> bool \<Rightarrow> u32 \<Rightarrow> u32 eng" where
  "restore_set_locked_for_compensation key locked dah =
    bnd (lookup_or_not_found key) (\<lambda>e.
    bnd (read_metadata_fast (ie_device e) (ie_offset e)) (\<lambda>m.
    bnd (gets en_now) (\<lambda>now.
    let m1 = touched now (m\<lparr>flags := flag_set (flags m) LOCKED locked, delete_at_height := dah\<rparr>) in
    sq (write_metadata_fast (ie_device e) (ie_offset e) m1)
   (sq (update_dah_index key (delete_at_height m) dah)
       (ret (generation m1))))))"

end
