(* ===== verification/Engine_Delete.thy ===== *)
theory Engine_Delete
  imports Engine_Flags
begin

text \<open>
  Preservation and its expiry, the sweep's eligibility checks, and the deletion of a record they guard
  (\<open>src/src/ops/engine.rs\<close>).  The sequence numbers an expiry draws from the log are not modelled.
\<close>

section \<open>Preservation\<close>

definition preserve_record_until :: "txkey \<Rightarrow> u32 \<Rightarrow> signal_response eng" where
  "preserve_record_until key h =
    bnd (lookup_or_not_found key) (\<lambda>e.
    bnd (read_metadata_fast (ie_device e) (ie_offset e)) (\<lambda>m.
    bnd (gets en_now) (\<lambda>now.
    let m1 = touched now (m\<lparr>delete_at_height := 0, preserve_until := h\<rparr>) in
    sq (write_metadata_fast (ie_device e) (ie_offset e) m1)
   (sq (mirror_de_flags key (ie_mined_slot e) m1)
   (sq (if delete_at_height m \<noteq> 0 then update_dah_index key (delete_at_height m) 0 else ret ())
   (sq (update_preserve_index key (preserve_until m) h)
       (ret \<lparr>sg_signal = (if flag_contains (flags m1) EXTERNAL then SigPreserve else SigNone),
             sg_generation = generation m1\<rparr>)))))))"

definition sweep_eligible_with_mined :: "tx_metadata \<Rightarrow> bool \<Rightarrow> u32 \<Rightarrow> bool" where
  "sweep_eligible_with_mined m has_blocks um =
    (if flag_contains (flags m) CONFLICTING then True
     else if flag_contains (flags m) REASSIGNED then False
     else spent_utxos m = utxo_count m \<and> has_blocks \<and> um = 0)"

definition commit_preservation_expiry :: "txkey \<Rightarrow> index_entry \<Rightarrow> tx_metadata \<Rightarrow> u32 \<Rightarrow> u32 eng" where
  "commit_preservation_expiry key e m new_dah =
    bnd (gets en_now) (\<lambda>now.
    let m1 = touched now (m\<lparr>preserve_until := 0, delete_at_height := new_dah\<rparr>) in
    sq (journal_secondary_ops [ExpirePreservation key new_dah])
   (sq (write_metadata_fast (ie_device e) (ie_offset e) m1)
   (sq (mirror_de_flags key (ie_mined_slot e) m1)
   (sq (update_preserve_index key (preserve_until m) 0)
   (sq (update_dah_index key (delete_at_height m) new_dah)
       (ret (generation m1)))))))"

record preservation_expiry =
  px_dah :: u32
  px_generation :: u32
  px_prior_preserve :: u32

definition expire_preservation_set_dah :: "txkey \<Rightarrow> u32 \<Rightarrow> u32 \<Rightarrow> preservation_expiry option eng" where
  "expire_preservation_set_dah key height retention =
    (if retention = 0 then ret None
     else bnd (lookup_checked key) (\<lambda>r. case r of
       None \<Rightarrow> ret None
     | Some e \<Rightarrow>
         bnd (read_metadata_for_key (ie_device e) key (ie_offset e)) (\<lambda>m.
         let preserve = preserve_until m in
         if preserve = 0 \<or> height < preserve then ret None
         else
           bnd (mined_block_entries_at key (ie_mined_slot e)) (\<lambda>(es, um).
           bnd (if sweep_eligible_with_mined m (es \<noteq> []) um
                then (case checked_add height retention of
                        Some h \<Rightarrow> ret h
                      | None \<Rightarrow> throw (DahOverflow height retention))
                else ret 0) (\<lambda>new_dah.
           bnd (commit_preservation_expiry key e m new_dah) (\<lambda>g.
             ret (Some \<lparr>px_dah = new_dah, px_generation = g, px_prior_preserve = preserve\<rparr>)))))))"

definition apply_replicated_preservation_expiry :: "txkey \<Rightarrow> u32 \<Rightarrow> unit eng" where
  "apply_replicated_preservation_expiry key dah =
    bnd (lookup_or_not_found key) (\<lambda>e.
    bnd (read_metadata_for_key (ie_device e) key (ie_offset e)) (\<lambda>m.
    sq (commit_preservation_expiry key e m dah) (ret ())))"

section \<open>Sweep\<close>

text \<open>The fresh header is judged together with the live deletion height and the mined index.\<close>

definition mined_read :: "engine \<Rightarrow> txkey \<Rightarrow> (block_entry list \<times> u32) option" where
  "mined_read s key = (case mined_block_entries key s of (Inr r, _) \<Rightarrow> Some r | _ \<Rightarrow> None)"

definition record_due_for_sweep :: "engine \<Rightarrow> txkey \<Rightarrow> tx_metadata \<Rightarrow> u32 \<Rightarrow> bool" where
  "record_due_for_sweep s key m height =
    (if preserve_until m \<noteq> 0 then False
     else if flag_contains (flags m) LOCKED then False
     else case dah_get_height (en_dah s) key of
       None \<Rightarrow> False
     | Some dah \<Rightarrow>
         if dah = 0 \<or> height < dah then False
         else case mined_read s key of
           None \<Rightarrow> False
         | Some (es, um) \<Rightarrow> sweep_eligible_with_mined m (es \<noteq> []) um)"

definition is_due_for_sweep :: "txkey \<Rightarrow> u32 \<Rightarrow> bool eng" where
  "is_due_for_sweep key height =
    bnd (lookup_checked key) (\<lambda>r. case r of
      None \<Rightarrow> ret False
    | Some e \<Rightarrow> bnd (attempt (read_metadata_for_key (ie_device e) key (ie_offset e))) (\<lambda>q. case q of
          Inl _ \<Rightarrow> ret False
        | Inr m \<Rightarrow> gets (\<lambda>s. record_due_for_sweep s key m height)))"

section \<open>Deletion\<close>

datatype removal_authority = Authoritative | HeldCopy

record delete_request =
  dl_key :: txkey
  dl_due_guard :: "u32 option"

definition unregister :: "txkey \<Rightarrow> unit eng" where
  "unregister key = modify (\<lambda>s. s\<lparr>en_index := (en_index s)(key := None)\<rparr>)"

text \<open>The physical removal: the header is overwritten by a deleted-record marker, which is synced unless
  the log is buffered, and the region returns to the allocator.\<close>

definition release_record :: "index_entry \<Rightarrow> tx_metadata \<Rightarrow> unit eng" where
  "release_record e m =
    sq (write_zeroed_metadata_header (ie_device e) (ie_offset e) (ucast (record_size m)))
   (bnd (gets en_buffered) (\<lambda>buffered.
    sq (if buffered then ret () else device_io)
       (free_region_at (ie_device e) (ie_offset e) (unat (record_size m)))))"

definition record_tombstone :: "delete_request \<Rightarrow> removal_authority \<Rightarrow> u32 \<Rightarrow> unit eng" where
  "record_tombstone rq authority g =
    modify (\<lambda>s. case en_tombstones s of
        None \<Rightarrow> s
      | Some log \<Rightarrow>
          if authority = Authoritative then
            s\<lparr>en_tombstones := Some (tomb_record (dl_key rq) g
              (case dl_due_guard rq of Some h \<Rightarrow> h | None \<Rightarrow> en_height s)
              (if dl_due_guard rq \<noteq> None then CauseDah else CauseClientDelete) log)\<rparr>
          else s)"

definition clear_secondary :: "txkey \<Rightarrow> index_entry \<Rightarrow> tx_metadata \<Rightarrow> unit eng" where
  "clear_secondary key e m =
    bnd (gets (\<lambda>s. dah_of s key)) (\<lambda>live_dah.
    sq (if delete_at_height m \<noteq> 0 \<or> live_dah \<noteq> 0
        then update_dah_index key (max (delete_at_height m) live_dah) 0 else ret ())
   (sq (if preserve_until m \<noteq> 0 then update_preserve_index key (preserve_until m) 0 else ret ())
   (sq (if flag_contains (flags m) CONFLICTING
        then modify (\<lambda>s. s\<lparr>en_conflicting := conflicting_remove (en_conflicting s) key\<rparr>) else ret ())
       (if ie_mined_slot e \<noteq> NO_MINED_SLOT
        then modify_mined (\<lambda>mi. mined_free mi key (ie_mined_slot e)) else ret ()))))"

definition delete_inner :: "delete_request \<Rightarrow> removal_authority \<Rightarrow> unit eng" where
  "delete_inner rq authority =
    (let key = dl_key rq in
     bnd (gets write_healthy) (\<lambda>healthy.
     sq (fail_if (dl_due_guard rq \<noteq> None \<and> \<not> healthy) StorageError)
    (bnd (lookup_or_not_found key) (\<lambda>e.
     bnd (read_metadata_for_key (ie_device e) key (ie_offset e)) (\<lambda>m.
     bnd (gets (\<lambda>s. case dl_due_guard rq of Some h \<Rightarrow> record_due_for_sweep s key m h | None \<Rightarrow> True)) (\<lambda>due.
     sq (fail_if (\<not> due) NotDue)
    (sq (unregister key)
    (sq (release_record e m)
    (sq (clear_secondary key e m)
        (record_tombstone rq authority (generation m)))))))))))"

end
