(* ===== verification/Cold_Data.thy ===== *)
theory Cold_Data
  imports TS_Prelude Tx_Record
begin

text \<open>
  The cold data stored behind the slots of a record (\<open>src/src/ops/engine.rs\<close>,
  \<open>src/src/storage/tiers.rs\<close>): the blob built from a transaction's inputs, outputs and inpoints,
  the length check of the reader, and the parents named by the inputs.  The durable height file is
  here as well.  The sums of \<open>declared_inline_cold_len\<close> stay below \<open>2 ^ 34 + 12\<close>, so their saturation
  never acts and they are written on natural numbers.
\<close>

section \<open>Inline cold data\<close>

definition inline_cold_offset :: "u32 \<Rightarrow> nat" where
  "inline_cold_offset count = METADATA_SIZE + unat count * UTXO_SLOT_SIZE"

definition section_bytes :: "bytes option \<Rightarrow> bytes" where
  "section_bytes b = (case b of Some xs \<Rightarrow> xs | None \<Rightarrow> [])"

definition len_prefixed :: "bytes \<Rightarrow> bytes" where
  "len_prefixed xs = u32_le (of_nat (length xs)) @ xs"

definition build_cold_data :: "bytes option \<Rightarrow> bytes option \<Rightarrow> bytes option \<Rightarrow> bytes" where
  "build_cold_data inputs outputs inpoints =
    (let a = section_bytes inputs; b = section_bytes outputs; c = section_bytes inpoints in
     if a = [] \<and> b = [] \<and> c = [] then []
     else len_prefixed a @ len_prefixed b @ len_prefixed c)"

definition read_len :: "bytes \<Rightarrow> nat \<Rightarrow> nat" where
  "read_len cold off = unat (le_val (slice off 4 cold) :: u32)"

definition declared_inline_cold_len :: "bytes \<Rightarrow> nat option" where
  "declared_inline_cold_len cold =
    (if length cold < 12 then None
     else
       let inputs_len = read_len cold 0;
           outputs_off = 4 + inputs_len;
           outputs_len = (if outputs_off + 4 \<le> length cold then read_len cold outputs_off else 0);
           inpoints_off = outputs_off + 4 + outputs_len;
           inpoints_len = (if inpoints_off + 4 \<le> length cold then read_len cold inpoints_off else 0)
       in Some (12 + inputs_len + outputs_len + inpoints_len))"

section \<open>Parents\<close>

definition add_new :: "bytes list \<Rightarrow> bytes \<Rightarrow> bytes list" where
  "add_new acc x = (if x \<in> set acc then acc else acc @ [x])"

fun scan_inputs :: "bytes \<Rightarrow> nat \<Rightarrow> nat \<Rightarrow> bytes list \<Rightarrow> string + bytes list" where
  "scan_inputs blob 0 pos acc = Inr acc"
| "scan_inputs blob (Suc n) pos acc =
    (if length blob < pos + 4 then Inl ''input entry length truncated''
     else
       let entry_len = read_len blob pos; start = pos + 4 in
       if entry_len < 32 then Inl ''input entry shorter than parent txid''
       else if length blob < start + entry_len then Inl ''input entry data truncated''
       else
         let txid = slice start 32 blob in
         scan_inputs blob n (start + entry_len) (add_new acc txid))"

definition extract_parent_txids_from_cold_data :: "bytes \<Rightarrow> string + bytes list" where
  "extract_parent_txids_from_cold_data cold =
    (if cold = [] then Inr []
     else if length cold < 4 then Inl ''cold data missing inputs length''
     else
       let blob_len = read_len cold 0 in
       if blob_len = 0 then Inr []
       else if length cold < 4 + blob_len then Inl ''inputs blob length exceeds cold data''
       else
         let blob = slice 4 blob_len cold in
         if length blob < 4 then Inl ''inputs blob missing count''
         else scan_inputs blob (read_len blob 0) 4 [])"

section \<open>Durable height\<close>

definition DURABLE_HEIGHT_MAGIC :: bytes where "DURABLE_HEIGHT_MAGIC = [0x54, 0x53, 0x48, 0x54]"
definition DURABLE_HEIGHT_VERSION :: u16 where "DURABLE_HEIGHT_VERSION = 1"
definition DURABLE_HEIGHT_LEN :: nat where "DURABLE_HEIGHT_LEN = 4 + 2 + 2 + 4 + 4"

definition encode_durable_height :: "(bytes \<Rightarrow> u32) \<Rightarrow> u32 \<Rightarrow> bytes" where
  "encode_durable_height crc height =
    (let body = DURABLE_HEIGHT_MAGIC @ u16_le DURABLE_HEIGHT_VERSION @ [0, 0] @ u32_le height in
     body @ u32_le (crc body))"

definition decode_durable_height :: "(bytes \<Rightarrow> u32) \<Rightarrow> bytes \<Rightarrow> u32 option" where
  "decode_durable_height crc bs =
    (if length bs \<noteq> DURABLE_HEIGHT_LEN then None
     else if slice 0 4 bs \<noteq> DURABLE_HEIGHT_MAGIC then None
     else if (le_val (slice 4 2 bs) :: u16) \<noteq> DURABLE_HEIGHT_VERSION then None
     else if (le_val (slice 12 4 bs) :: u32) \<noteq> crc (slice 0 12 bs) then None
     else Some (le_val (slice 8 4 bs)))"

definition reconcile_height_floor :: "u32 option \<Rightarrow> u32 \<Rightarrow> u32" where
  "reconcile_height_floor persisted tail_floor =
    max (case persisted of Some h \<Rightarrow> h | None \<Rightarrow> 0) tail_floor"

section \<open>Lengths\<close>

lemma le_bytes_Nil_iff [simp]: "le_bytes n w = [] \<longleftrightarrow> n = 0"
  by (cases n) simp_all

lemma length_len_prefixed [simp]: "length (len_prefixed xs) = 4 + length xs"
  by (simp add: len_prefixed_def)

lemma len_prefixed_neq [simp]: "len_prefixed xs \<noteq> []"
  by (simp add: len_prefixed_def)

lemma read_len_here:
  assumes "length xs < 2 ^ 32"
  shows "read_len (len_prefixed xs @ ys) 0 = length xs"
proof -
  have "slice 0 4 (len_prefixed xs @ ys) = u32_le (of_nat (length xs))"
    by (simp add: len_prefixed_def slice_def)
  then show ?thesis using assms by (simp add: read_len_def unsigned_of_nat take_bit_nat_eq_self)
qed

lemma read_len_after: "read_len (xs @ ys) (length xs + n) = read_len ys n"
  by (simp add: read_len_def slice_def)

lemma read_len_left: "n + 4 \<le> length xs \<Longrightarrow> read_len (xs @ ys) n = read_len xs n"
  by (simp add: read_len_def slice_append_left)

lemma read_len_slice: "n + 4 \<le> m \<Longrightarrow> read_len (slice off m xs) n = read_len xs (off + n)"
  by (simp add: read_len_def slice_slice)

lemma declared_length:
  assumes "length a < 2 ^ 32" "length b < 2 ^ 32" "length c < 2 ^ 32"
  shows "declared_inline_cold_len (len_prefixed a @ len_prefixed b @ len_prefixed c) =
    Some (length (len_prefixed a @ len_prefixed b @ len_prefixed c))"
proof -
  let ?cold = "len_prefixed a @ len_prefixed b @ len_prefixed c"
  have 1: "read_len ?cold 0 = length a" by (rule read_len_here [OF assms(1)])
  have 2: "read_len ?cold (4 + length a) = length b"
    using read_len_after [of "len_prefixed a" "len_prefixed b @ len_prefixed c" 0] read_len_here [OF assms(2)] by simp
  have 3: "read_len ?cold (8 + length a + length b) = length c"
    using read_len_after [of "len_prefixed a @ len_prefixed b" "len_prefixed c" 0] read_len_here [OF assms(3), of "[]"]
    by (simp add: algebra_simps)
  show ?thesis using 2 3 by (simp add: declared_inline_cold_len_def Let_def 1 algebra_simps)
qed

section \<open>Parents of an input list\<close>

definition encode_inputs :: "bytes list \<Rightarrow> bytes" where
  "encode_inputs es = u32_le (of_nat (length es)) @ concat (map len_prefixed es)"

lemma foldl_add_new: "foldl add_new [] xs = rev (remdups (rev xs))"
  by (induction xs rule: rev_induct) (auto simp: add_new_def)

lemma scan_inputs_encoded:
  assumes "list_all (\<lambda>e. 32 \<le> length e \<and> length e < 2 ^ 32) es"
  shows "scan_inputs (pre @ concat (map len_prefixed es)) (length es) (length pre) acc =
    Inr (foldl add_new acc (map (take 32) es))"
  using assms
proof (induction es arbitrary: pre acc)
  case (Cons e es)
  have r: "read_len (pre @ len_prefixed e @ concat (map len_prefixed es)) (length pre) = length e"
    using read_len_after [of pre _ 0] read_len_here [of e] Cons.prems by simp
  have s: "slice (length pre + 4) 32 (pre @ len_prefixed e @ concat (map len_prefixed es)) = take 32 e"
    using Cons.prems by (simp add: slice_def len_prefixed_def)
  have "scan_inputs ((pre @ len_prefixed e) @ concat (map len_prefixed es)) (length es) (length (pre @ len_prefixed e)) (add_new acc (take 32 e)) =
      Inr (foldl add_new (add_new acc (take 32 e)) (map (take 32) es))"
    by (rule Cons.IH) (use Cons.prems in simp)
  then show ?case using Cons.prems r s by (simp add: Let_def add.assoc)
qed simp

lemma parents_of_inputs:
  assumes "list_all (\<lambda>e. 32 \<le> length e) es" "length (encode_inputs es) < 2 ^ 32"
  shows "extract_parent_txids_from_cold_data (build_cold_data (Some (encode_inputs es)) outputs inpoints) =
    Inr (rev (remdups (rev (map (take 32) es))))"
proof -
  let ?blob = "encode_inputs es"
  let ?rest = "len_prefixed (section_bytes outputs) @ len_prefixed (section_bytes inpoints)"
  have ne: "?blob \<noteq> []" by (simp add: encode_inputs_def)
  then have cold: "build_cold_data (Some ?blob) outputs inpoints = len_prefixed ?blob @ ?rest"
    by (simp add: build_cold_data_def section_bytes_def Let_def)
  have len: "4 \<le> length ?blob" "length (concat (map len_prefixed es)) < 2 ^ 32"
    using assms(2) by (simp_all add: encode_inputs_def)
  have each: "list_all (\<lambda>e. 32 \<le> length e \<and> length e < 2 ^ 32) es"
  proof -
    have "length e < 2 ^ 32" if "e \<in> set es" for e
    proof -
      have "length (len_prefixed e) \<le> length (concat (map len_prefixed es))"
        using that by (auto simp: length_concat in_set_conv_decomp)
      then show ?thesis using len(2) by simp
    qed
    then show ?thesis using assms(1) by (auto simp: list_all_iff)
  qed
  have count: "length es < 2 ^ 32"
  proof -
    have "length es \<le> length (concat (map len_prefixed es))"
      by (induction es) simp_all
    then show ?thesis using len(2) by simp
  qed
  have n: "read_len ?blob 0 = length es"
    using count by (simp add: encode_inputs_def read_len_def slice_def unsigned_of_nat take_bit_nat_eq_self)
  have sl: "slice 4 (length ?blob) (len_prefixed ?blob @ ?rest) = ?blob"
    by (simp add: slice_def len_prefixed_def)
  have "scan_inputs ?blob (length es) 4 [] = Inr (foldl add_new [] (map (take 32) es))"
    using scan_inputs_encoded [OF each, of "u32_le (of_nat (length es))" "[]"] by (simp add: encode_inputs_def)
  then show ?thesis
    using ne len(1) read_len_here [OF assms(2), of ?rest] sl n
    by (simp add: cold extract_parent_txids_from_cold_data_def Let_def foldl_add_new)
qed

text \<open>C34: the cold data a create builds declares exactly its own length, so the reader's length check never
  refuses it, and the parents read back from it are the distinct first 32 bytes of the encoded inputs in
  order of their first occurrence, for every list of inputs of at least 32 bytes each.\<close>

theorem cold_data_faithful:
  assumes "list_all (\<lambda>e. 32 \<le> length e) es" "length (encode_inputs es) < 2 ^ 32"
    and "length (section_bytes outputs) < 2 ^ 32" "length (section_bytes inpoints) < 2 ^ 32"
  shows "declared_inline_cold_len (build_cold_data (Some (encode_inputs es)) outputs inpoints) =
      Some (length (build_cold_data (Some (encode_inputs es)) outputs inpoints)) \<and>
    extract_parent_txids_from_cold_data (build_cold_data (Some (encode_inputs es)) outputs inpoints) =
      Inr (rev (remdups (rev (map (take 32) es))))"
proof -
  have "encode_inputs es \<noteq> []" by (simp add: encode_inputs_def)
  then show ?thesis
    using declared_length [OF assms(2-4)] parents_of_inputs [OF assms(1,2)]
    by (simp add: build_cold_data_def section_bytes_def Let_def)
qed

theorem cold_data_faithful_witness:
  "let cold = build_cold_data (Some (encode_inputs [replicate 32 1, replicate 40 2, replicate 33 1])) None (Some [7]) in
   declared_inline_cold_len cold = Some 134 \<and> length cold = 134 \<and>
   extract_parent_txids_from_cold_data cold = Inr [replicate 32 1, replicate 32 2]"
proof -
  let ?es = "[replicate 32 1, replicate 40 2, replicate 33 1] :: bytes list"
  have len: "length (encode_inputs ?es) = 121" by (simp add: encode_inputs_def)
  have "list_all (\<lambda>e. 32 \<le> length e) ?es" "length (encode_inputs ?es) < 2 ^ 32"
    "length (section_bytes None) < 2 ^ 32" "length (section_bytes (Some [7])) < 2 ^ 32"
    unfolding len by (simp_all add: section_bytes_def)
  note * = cold_data_faithful [OF this]
  have cold: "length (build_cold_data (Some (encode_inputs ?es)) None (Some [7])) = 134"
    by (simp add: build_cold_data_def Let_def section_bytes_def len)
  have ne: "replicate 32 (1 :: u8) \<noteq> replicate 32 2" by (simp add: replicate_eq_replicate)
  have "rev (remdups (rev (map (take 32) ?es))) = [replicate 32 1, replicate 32 2]"
    using ne by simp
  then show ?thesis using * cold by (simp only: Let_def)
qed

definition height_image :: "(bytes \<Rightarrow> u32) \<Rightarrow> bytes \<Rightarrow> u32 \<Rightarrow> bytes" where
  "height_image crc reserved h =
    (let body = DURABLE_HEIGHT_MAGIC @ u16_le DURABLE_HEIGHT_VERSION @ reserved @ u32_le h in body @ u32_le (crc body))"

lemma split16:
  assumes "length bs = 16"
  shows "bs = slice 0 4 bs @ slice 4 2 bs @ slice 6 2 bs @ slice 8 4 bs @ slice 12 4 bs"
    and "slice 0 12 bs = slice 0 4 bs @ slice 4 2 bs @ slice 6 2 bs @ slice 8 4 bs"
  using assms by (simp_all add: slice_join slice_all)

lemma length_u [simp]: "length DURABLE_HEIGHT_MAGIC = 4"
  by (simp add: DURABLE_HEIGHT_MAGIC_def)

lemma decode_height_image: "length reserved = 2 \<Longrightarrow> decode_durable_height crc (height_image crc reserved h) = Some h"
  by (simp add: decode_durable_height_def height_image_def Let_def DURABLE_HEIGHT_LEN_def codec) (simp add: slice_def)

lemma decode_height_only:
  assumes "decode_durable_height crc bs = Some h"
  shows "bs = height_image crc (slice 6 2 bs) h"
proof -
  have len: "length bs = 16" and mg: "slice 0 4 bs = DURABLE_HEIGHT_MAGIC"
    and v: "(le_val (slice 4 2 bs) :: u16) = DURABLE_HEIGHT_VERSION" and h: "h = le_val (slice 8 4 bs)"
    and c: "(le_val (slice 12 4 bs) :: u32) = crc (slice 0 12 bs)"
    using assms by (auto simp: decode_durable_height_def DURABLE_HEIGHT_LEN_def split: if_splits)
  have "slice 4 2 bs = u16_le DURABLE_HEIGHT_VERSION" "slice 8 4 bs = u32_le h" "slice 12 4 bs = u32_le (crc (slice 0 12 bs))"
    using len by (simp_all add: v [symmetric] h c [symmetric])
  then show ?thesis using split16 [OF len] mg by (simp add: height_image_def Let_def)
qed

text \<open>C35: the durable height file is read as a height exactly when it is the image of that height, up to its two
  reserved bytes: the written file is read back, and a short, foreign or corrupted file is refused.\<close>

theorem durable_height_exact:
  "encode_durable_height crc h = height_image crc [0, 0] h \<and>
   (decode_durable_height crc bs = Some h \<longleftrightarrow> (\<exists>x y. bs = height_image crc [x, y] h))"
proof -
  have "\<exists>x y. bs = height_image crc [x, y] h" if d: "decode_durable_height crc bs = Some h"
  proof -
    have "length bs = 16" using d by (simp add: decode_durable_height_def DURABLE_HEIGHT_LEN_def split: if_splits)
    then have "slice 6 2 bs = [bs ! 6, bs ! 7]" by (intro nth_equalityI) (auto simp: slice_def less_Suc_eq numeral_eq_Suc)
    then show ?thesis using decode_height_only [OF d] by metis
  qed
  then show ?thesis
    using decode_height_image [of "[x, y]" crc h for x y] by (auto simp: encode_durable_height_def height_image_def)
qed

end
