(* ===== verification/Engine_Children.thy ===== *)
theory Engine_Children
  imports Engine_Slots Engine_Delete Cold_Data
begin

text \<open>
  The two lists of child transactions of a record and the operations that maintain them
  (\<open>src/src/ops/engine.rs\<close>): appending to and removing from a list, pruning a parent's slot when its
  child is deleted, and marking a transaction conflicting with the propagation to its parents.  The append and remove loops of the two lists differ only in the header fields,
  the log entry and the error of a full list, and are one definition here.

  External cold data lies in the blob store: its lookup and the content digest are parameters.
\<close>

section \<open>Lists of children\<close>

datatype child_kind = ConflictingKind | DeletedKind

fun kids_count :: "child_kind \<Rightarrow> tx_metadata \<Rightarrow> nat" where
  "kids_count ConflictingKind m = unat (conflicting_children_count m)"
| "kids_count DeletedKind m = unat (deleted_children_count m)"

fun kids_offset :: "child_kind \<Rightarrow> tx_metadata \<Rightarrow> nat" where
  "kids_offset ConflictingKind m = unat (conflicting_children_offset m)"
| "kids_offset DeletedKind m = unat (deleted_children_offset m)"

fun set_kids :: "child_kind \<Rightarrow> nat \<Rightarrow> nat \<Rightarrow> tx_metadata \<Rightarrow> tx_metadata" where
  "set_kids ConflictingKind n off m = m\<lparr>conflicting_children_count := of_nat n, conflicting_children_offset := of_nat off\<rparr>"
| "set_kids DeletedKind n off m = m\<lparr>deleted_children_count := of_nat n, deleted_children_offset := of_nat off\<rparr>"

fun kids_full :: "child_kind \<Rightarrow> spend_error" where
  "kids_full ConflictingKind = ConflictingChildrenFull 255"
| "kids_full DeletedKind = StorageError"

fun append_intent :: "child_kind \<Rightarrow> txkey \<Rightarrow> bytes \<Rightarrow> redo_intent" where
  "append_intent ConflictingKind p c = AppendConflictingChild p c"
| "append_intent DeletedKind p c = AppendDeletedChild p c"

text \<open>In a packed store the block is read before it is written.\<close>

definition write_children_block :: "u8 \<Rightarrow> nat \<Rightarrow> bytes list \<Rightarrow> unit eng" where
  "write_children_block d off kids =
    bnd (gets (\<lambda>s. store_is_packed (en_alloc s d))) (\<lambda>packed.
    sq (if packed then device_io else ret ())
   (sq device_io (put_block d off (ChildBlock kids))))"

definition free_children_block :: "u8 \<Rightarrow> nat \<Rightarrow> nat \<Rightarrow> unit eng" where
  "free_children_block d off n = free_region_at d off (n * 32)"

definition allocate_children_block :: "u8 \<Rightarrow> bytes list \<Rightarrow> nat eng" where
  "allocate_children_block d kids =
    bnd (allocate_region d (length kids * 32)) (\<lambda>off.
    bnd (attempt (write_children_block d off kids)) (\<lambda>r. case r of
      Inr _ \<Rightarrow> ret off
    | Inl e \<Rightarrow> sq (attempt (free_children_block d off (length kids))) (throw e)))"

definition MAX_RETRIES :: nat where "MAX_RETRIES = 16"

text \<open>The commit re-reads the record under the lock and refuses a changed list: \<open>True\<close> when the header
  was written.\<close>

definition commit_children ::
  "child_kind \<Rightarrow> nat \<Rightarrow> nat \<Rightarrow> nat \<Rightarrow> nat \<Rightarrow> nat \<Rightarrow> index_entry \<Rightarrow> bool eng" where
  "commit_children kind ro n off new_n new_off e =
    (if ie_offset e \<noteq> ro then ret False
     else bnd (read_metadata_fast (ie_device e) ro) (\<lambda>m.
       if kids_count kind m \<noteq> n \<or> kids_offset kind m \<noteq> off then ret False
       else bnd (gets en_now) (\<lambda>now.
         sq (write_metadata_fast (ie_device e) ro (touched now (set_kids kind new_n new_off m))) (ret True))))"

text \<open>The replacement block is written first, then the header is switched to it, then the old block is freed.\<close>

definition switch_children ::
  "child_kind \<Rightarrow> index_entry \<Rightarrow> tx_metadata \<Rightarrow> nat \<Rightarrow> unit eng \<Rightarrow> nat \<Rightarrow> index_entry option \<Rightarrow> unit eng" where
  "switch_children kind e m len retry new_off r =
    (let d = ie_device e; n = kids_count kind m; off = kids_offset kind m;
         drop_new = (if new_off \<noteq> 0 then free_children_block d new_off len else ret ()) in
     case r of
       None \<Rightarrow> drop_new
     | Some e2 \<Rightarrow>
         bnd (commit_children kind (ie_offset e) n off len new_off e2) (\<lambda>committed.
         if committed
         then (if 0 < n \<and> off \<noteq> 0 then sq (attempt (free_children_block d off n)) (ret ()) else ret ())
         else sq drop_new retry))"

definition replace_children ::
  "child_kind \<Rightarrow> txkey \<Rightarrow> index_entry \<Rightarrow> tx_metadata \<Rightarrow> bytes list \<Rightarrow> unit eng \<Rightarrow> unit eng" where
  "replace_children kind parent e m kids retry =
    bnd (if kids = [] then ret 0 else allocate_children_block (ie_device e) kids) (\<lambda>new_off.
    bnd (lookup_checked parent) (switch_children kind e m (length kids) retry new_off))"

fun append_loop :: "child_kind \<Rightarrow> txkey \<Rightarrow> bytes \<Rightarrow> nat \<Rightarrow> bool \<Rightarrow> unit eng" where
  "append_loop kind parent child 0 logged = throw StorageError"
| "append_loop kind parent child (Suc k) logged =
    bnd (lookup_checked parent) (\<lambda>r. case r of
      None \<Rightarrow> ret ()
    | Some e \<Rightarrow>
        bnd (read_metadata_fast (ie_device e) (ie_offset e)) (\<lambda>m.
        bnd (read_children_at (ie_device e) (kids_count kind m) (kids_offset kind m)) (\<lambda>kids.
        if child \<in> set kids then ret ()
        else sq (fail_if (255 < length kids + 1) (kids_full kind))
            (sq (if logged then ret () else journal_secondary_ops [append_intent kind parent child])
                (replace_children kind parent e m (kids @ [child]) (append_loop kind parent child k True))))))"

definition append_conflicting_child :: "txkey \<Rightarrow> bytes \<Rightarrow> unit eng" where
  "append_conflicting_child parent child = append_loop ConflictingKind parent child MAX_RETRIES False"

definition append_deleted_child :: "txkey \<Rightarrow> bytes \<Rightarrow> unit eng" where
  "append_deleted_child parent child = append_loop DeletedKind parent child MAX_RETRIES False"

fun remove_loop :: "txkey \<Rightarrow> bytes \<Rightarrow> nat \<Rightarrow> bool \<Rightarrow> unit eng" where
  "remove_loop parent child 0 logged = throw StorageError"
| "remove_loop parent child (Suc k) logged =
    bnd (lookup_checked parent) (\<lambda>r. case r of
      None \<Rightarrow> ret ()
    | Some e \<Rightarrow>
        bnd (read_metadata_fast (ie_device e) (ie_offset e)) (\<lambda>m.
        bnd (read_children_at (ie_device e) (kids_count ConflictingKind m) (kids_offset ConflictingKind m)) (\<lambda>kids.
        if child \<notin> set kids then ret ()
        else sq (if logged then ret () else journal_secondary_ops [RemoveConflictingChild parent child])
               (replace_children ConflictingKind parent e m (filter (\<lambda>c. c \<noteq> child) kids)
                  (remove_loop parent child k True)))))"

definition remove_conflicting_child :: "txkey \<Rightarrow> bytes \<Rightarrow> unit eng" where
  "remove_conflicting_child parent child = remove_loop parent child MAX_RETRIES False"

definition read_children :: "child_kind \<Rightarrow> txkey \<Rightarrow> bytes list eng" where
  "read_children kind key =
    bnd (lookup_or_not_found key) (\<lambda>e.
    bnd (read_metadata_fast (ie_device e) (ie_offset e)) (\<lambda>m.
      read_children_at (ie_device e) (kids_count kind m) (kids_offset kind m)))"

definition best_effort :: "'a eng \<Rightarrow> unit eng" where
  "best_effort m = sq (attempt m) (ret ())"

definition prune_slot_if_spent_by_child :: "txkey \<Rightarrow> u32 \<Rightarrow> bytes \<Rightarrow> bool eng" where
  "prune_slot_if_spent_by_child parent off child =
    bnd (prune_locked parent off child) (\<lambda>pruned.
      if pruned then sq (best_effort (append_deleted_child parent child)) (ret True) else ret False)"

section \<open>Cold data and the propagation to parents\<close>

type_synonym blob_lookup = "(txkey \<Rightarrow> unit + bytes option) option"

definition read_external :: "blob_lookup \<Rightarrow> (bytes \<Rightarrow> bytes) \<Rightarrow> txkey \<Rightarrow> tx_metadata \<Rightarrow> bytes eng" where
  "read_external blobs sha256 key m =
    (case blobs of
       None \<Rightarrow> throw (BlobNotFound key)
     | Some get \<Rightarrow> (case get key of
         Inl _ \<Rightarrow> throw StorageError
       | Inr None \<Rightarrow> throw (BlobNotFound key)
       | Inr (Some dat) \<Rightarrow>
           sq (fail_if (length dat \<noteq> unat (total_size (external_ref m))) StorageError)
          (sq (fail_if (sha256 dat \<noteq> content_hash (external_ref m)) StorageError)
              (ret dat))))"

definition read_cold_data :: "blob_lookup \<Rightarrow> (bytes \<Rightarrow> bytes) \<Rightarrow> txkey \<Rightarrow> bytes eng" where
  "read_cold_data blobs sha256 key =
    bnd (lookup_or_not_found key) (\<lambda>e.
    bnd (read_metadata_for_key (ie_device e) key (ie_offset e)) (\<lambda>m.
    if flag_contains (flags m) EXTERNAL then read_external blobs sha256 key m
    else
      let cold_size = unat (record_size m) - inline_cold_offset (utxo_count m) in
      if cold_size = 0 then ret []
      else
        sq device_io (bnd (read_block (ie_device e) (ie_offset e)) (\<lambda>r.
        let cold = take cold_size (sr_cold r) in
        case declared_inline_cold_len cold of
          Some declared \<Rightarrow>
            if cold_size < declared then throw (ColdDataInconsistent (of_nat declared) (of_nat cold_size)) else ret cold
        | None \<Rightarrow> ret cold))))"

definition parent_txids_for_child :: "blob_lookup \<Rightarrow> (bytes \<Rightarrow> bytes) \<Rightarrow> txkey \<Rightarrow> bytes list eng" where
  "parent_txids_for_child blobs sha256 key =
    bnd (read_cold_data blobs sha256 key) (\<lambda>cold.
      case extract_parent_txids_from_cold_data cold of Inr ps \<Rightarrow> ret ps | Inl _ \<Rightarrow> throw StorageError)"

definition append_conflicting_children_from_cold_data :: "blob_lookup \<Rightarrow> (bytes \<Rightarrow> bytes) \<Rightarrow> txkey \<Rightarrow> unit eng" where
  "append_conflicting_children_from_cold_data blobs sha256 child =
    bnd (attempt (parent_txids_for_child blobs sha256 child)) (\<lambda>r. case r of
      Inl _ \<Rightarrow> ret ()
    | Inr parents \<Rightarrow> each (\<lambda>p. best_effort (append_conflicting_child p child)) parents)"

definition set_conflicting :: "blob_lookup \<Rightarrow> (bytes \<Rightarrow> bytes) \<Rightarrow> set_conflicting_request \<Rightarrow> signal_response eng" where
  "set_conflicting blobs sha256 rq =
    bnd (set_conflicting_locked rq) (\<lambda>response.
    sq (if cq_value rq then append_conflicting_children_from_cold_data blobs sha256 (cq_key rq) else ret ())
       (ret response))"

end
