(* ===== verification/Engine_Lists.thy ===== *)
theory Engine_Lists
  imports Engine_Safety Engine_Children
begin

text \<open>
  Replacing a record's list of children under every fault schedule: the header always names a list block
  that was completely written before, the old block is freed only after the switch, and no other record
  is touched.
\<close>

section \<open>Switching the header to another list\<close>

definition list_region :: "(u8 \<Rightarrow> nat \<Rightarrow> nat) \<Rightarrow> index_entry \<Rightarrow> tx_metadata \<Rightarrow> claim_tag \<Rightarrow> (u8 \<times> region) set" where
  "list_region R e m tag =
    (if has_list tag m then {(ie_device e, list_offset tag m, R (ie_device e) (32 * list_count tag m))} else {})"

definition relists :: "claim_tag \<Rightarrow> tx_metadata \<Rightarrow> tx_metadata \<Rightarrow> bool" where
  "relists tag m m' \<longleftrightarrow> tag \<noteq> BodyClaim \<and> tx_id m' = tx_id m \<and> utxo_count m' = utxo_count m \<and> record_size m' = record_size m \<and>
    (\<forall>t. t \<noteq> tag \<longrightarrow> list_count t m' = list_count t m \<and> list_offset t m' = list_offset t m)"

lemma relists_other:
  assumes "relists tag m m'" "t \<noteq> tag"
  shows "list_count t m' = list_count t m" "list_offset t m' = list_offset t m" "has_list t m' = has_list t m"
    "claim_region a e m' t = claim_region a e m t"
proof -
  show 1: "list_count t m' = list_count t m" "list_offset t m' = list_offset t m" using assms by (auto simp: relists_def)
  then show "has_list t m' = has_list t m" by (simp add: has_list_def)
  then show "claim_region a e m' t = claim_region a e m t" using 1 assms(1) by (simp add: claim_region_def relists_def)
qed

lemma at_relist:
  assumes at: "at R V I X s" and e: "I key = Some e" and v: "V key = Some (r, ls)" and rl: "relists tag (sr_meta r) m'"
    and new: "list_region R e m' tag \<subseteq> X"
    and blk: "has_list tag m' \<Longrightarrow> en_blocks s (ie_device e, list_offset tag m') = Some (ChildBlock kids) \<and> length kids = list_count tag m'"
    and nil: "\<not> has_list tag m' \<Longrightarrow> kids = []"
  shows "at R (V(key \<mapsto> (r\<lparr>sr_meta := m'\<rparr>, ls(tag := kids)))) I ((X \<union> list_region R e (sr_meta r) tag) - list_region R e m' tag)
    (put_at (loc e) (RecordBlock (r\<lparr>sr_meta := m'\<rparr>)) s)"
proof -
  let ?r = "r\<lparr>sr_meta := m'\<rparr>" and ?s = "put_at (loc e) (RecordBlock (r\<lparr>sr_meta := m'\<rparr>)) s"
  obtain L where sp: "space_ok X s L" and rec: "records_ok s" and V: "view s = V" and I: "en_index s = I" and R: "reservations s = R"
    by (rule at_space [OF at])
  have res: "store_reservation (en_alloc s d) n = R d n" for d n using R by (auto simp: reservations_def)
  have ie: "en_index s key = Some e" using e I by simp
  obtain f where f: "I key = Some f" "en_blocks s (loc f) = Some (RecordBlock r)" "record_ok key r" and lo0: "\<And>t. list_ok s f (sr_meta r) t"
      and ls0: "ls = (\<lambda>t. list_at s (ie_device f) (list_count t (sr_meta r)) (list_offset t (sr_meta r)))"
    using at_viewed [OF at v] by blast
  have fe: "f = e" using f(1) e by simp
  note b = f(2) [unfolded fe] and lo = lo0 [unfolded fe] and ls = ls0 [unfolded fe]
  have keep: "en_blocks ?s (ie_device e, list_offset t (sr_meta r)) = en_blocks s (ie_device e, list_offset t (sr_meta r))"
    if "has_list t (sr_meta r)" for t by (rule own_list_untouched [OF rec ie b that])
  have newblk: "en_blocks ?s (ie_device e, list_offset tag m') = Some (ChildBlock kids)" if h: "has_list tag m'"
  proof -
    have "(ie_device e, list_offset tag m', R (ie_device e) (32 * list_count tag m')) \<in> X"
      using new h by (simp add: list_region_def)
    then have "loc e \<noteq> (ie_device e, list_offset tag m')" by (rule put_unlinked_others(1) [OF rec sp _ ie b])
    then show ?thesis using blk [OF h] by simp
  qed
  have own: "list_ok ?s e m' t" for t
  proof (cases "t = tag")
    case True
    then show ?thesis using newblk blk by (auto simp: list_ok_def simp del: fun_upd_apply)
  next
    case False
    then show ?thesis using lo [of t] keep [of t] relists_other [OF rl False]
      by (simp add: list_ok_def del: fun_upd_apply)
  qed
  have "record_ok key ?r" using f(3) rl by (simp add: record_ok_def relists_def)
  then have rec': "records_ok ?s" by (rule put_record_records [OF rec ie]) (simp add: own)
  have lst: "list_at ?s (ie_device e) (list_count t m') (list_offset t m') = (ls(tag := kids)) t" for t
  proof (cases "t = tag")
    case True
    then show ?thesis using newblk blk nil by (auto simp: list_at_has simp del: fun_upd_apply) simp_all
  next
    case False
    then show ?thesis using keep [of t] relists_other [OF rl False] by (simp add: list_at_has ls del: fun_upd_apply) simp
  qed
  have "view ?s key = Some (?r, ls(tag := kids))" using ie lst by (simp add: view_def fun_eq_iff)
  then have vw: "view ?s = V(key \<mapsto> (?r, ls(tag := kids)))" using put_record_view [OF rec ie] V by (auto intro!: ext)
  have mine: "claim ?s (key, t) = claim_region (en_alloc s (ie_device e)) e m' t" for t using ie by (simp add: claim_def)
  have old: "claim s (key, t) = claim_region (en_alloc s (ie_device e)) e (sr_meta r) t" for t using ie b by (simp add: claim_def)
  have same: "claim ?s (key, t) = claim s (key, t)" if "t \<noteq> tag" for t
    using relists_other(4) [OF rl that] by (simp add: mine old)
  have tagreg: "claim ?s (key, tag) = Some x \<longleftrightarrow> x \<in> list_region R e m' tag" "claim s (key, tag) = Some x \<longleftrightarrow> x \<in> list_region R e (sr_meta r) tag" for x
    using rl by (auto simp: mine old claim_region_def list_region_def relists_def res)
  have "space_ok ((X \<union> {x. \<exists>t. claim s (key, t) = Some x}) - {x. \<exists>t. claim ?s (key, t) = Some x}) ?s L"
    by (rule space_update_key [OF sp, where moved = tag]) (use put_record_claim [OF rec ie] same tagreg new in auto)
  moreover have "(X \<union> list_region R e (sr_meta r) tag) - list_region R e m' tag \<subseteq>
      (X \<union> {x. \<exists>t. claim s (key, t) = Some x}) - {x. \<exists>t. claim ?s (key, t) = Some x}"
  proof
    fix x assume x: "x \<in> (X \<union> list_region R e (sr_meta r) tag) - list_region R e m' tag"
    obtain d q where xq: "x = (d, q)" by (metis surj_pair)
    have inj: "c = c'" if "claim s c = Some x" "claim s c' = Some x" for c c' using sp that unfolding space_ok_def by blast
    have unl: "claim s c = Some x \<Longrightarrow> x \<notin> X" for c using sp unfolding space_ok_def xq by blast
    have "claim ?s (key, t) \<noteq> Some x" for t
    proof (cases "t = tag")
      case True
      then show ?thesis using x tagreg by simp
    next
      case False
      then show ?thesis using x tagreg unl [of "(key, t)"] inj [of "(key, t)" "(key, tag)"] by (auto simp: same)
    qed
    then show "x \<in> (X \<union> {x. \<exists>t. claim s (key, t) = Some x}) - {x. \<exists>t. claim ?s (key, t) = Some x}"
      using x tagreg(2) [of x] by blast
  qed
  ultimately have "space_ok ((X \<union> list_region R e (sr_meta r) tag) - list_region R e m' tag) ?s L" by (rule space_mono)
  then show ?thesis using rec' vw I R by (auto simp: at_def structure_ok_def reservations_def [abs_def])
qed

section \<open>Reading and writing lists\<close>

fun kind_tag :: "child_kind \<Rightarrow> claim_tag" where
  "kind_tag ConflictingKind = ConflictingClaim"
| "kind_tag DeletedKind = DeletedClaim"

lemma kind_tag_simps [simp]:
  "list_count (kind_tag k) m = kids_count k m" "list_offset (kind_tag k) m = kids_offset k m" "kind_tag k \<noteq> BodyClaim"
  by (cases k; simp)+

lemma set_kids_simps:
  assumes "n < 256" "off < 2 ^ 64"
  shows "kids_count k (set_kids k n off m) = n" "kids_offset k (set_kids k n off m) = off"
  using assms by (cases k; simp add: unsigned_of_nat take_bit_nat_eq_self)+

lemma set_kids_relists: "relists (kind_tag k) m (touched now (set_kids k n off m))"
  unfolding relists_def touched_def
proof (intro conjI allI impI)
  fix t assume "t \<noteq> kind_tag k"
  then show "list_count t (set_kids k n off m\<lparr>generation := generation (set_kids k n off m) + 1, updated_at := now\<rparr>) = list_count t m"
    "list_offset t (set_kids k n off m\<lparr>generation := generation (set_kids k n off m) + 1, updated_at := now\<rparr>) = list_offset t m"
    by (cases k; cases t; simp)+
qed (cases k; simp)+

lemma kids_touched [simp]: "kids_count k (touched now m) = kids_count k m" "kids_offset k (touched now m) = kids_offset k m"
  by (cases k; simp add: touched_def)+

lemma wp_read_children:
  assumes at: "at R V I X s" and e: "I key = Some e" and v: "V key = Some (r, ls)"
    and Q: "\<And>s'. at R V I X s' \<Longrightarrow> Q (ls (kind_tag k)) s'" and E: "\<And>s'. at R V I X s' \<Longrightarrow> E StorageError s'"
  shows "wp (read_children_at (ie_device e) (kids_count k (sr_meta r)) (kids_offset k (sr_meta r))) Q E s"
proof -
  have val: "list_at s' (ie_device e) (kids_count k (sr_meta r)) (kids_offset k (sr_meta r)) = ls (kind_tag k)" if a: "at R V I X s'" for s'
  proof -
    obtain f where "I key = Some f" "ls = (\<lambda>t. list_at s' (ie_device f) (list_count t (sr_meta r)) (list_offset t (sr_meta r)))"
      using at_viewed [OF a v] by blast
    then show ?thesis using e by simp
  qed
  show ?thesis
  proof (cases "kids_count k (sr_meta r) = 0 \<or> kids_offset k (sr_meta r) = 0")
    case True
    then have "ls (kind_tag k) = []" using val [OF at] by (auto simp: list_at_def)
    then show ?thesis using True Q [OF at] by (simp add: read_children_at_def wp)
  next
    case False
    have "wp device_io (\<lambda>_ s. Q (list_at s (ie_device e) (kids_count k (sr_meta r)) (kids_offset k (sr_meta r))) s) E s"
      by (rule wp_device_io [OF at]) (use val Q E in simp_all)
    then show ?thesis using False by (simp add: read_children_at_def wp)
  qed
qed

lemma wp_write_children:
  assumes at: "at R V I X s" and x: "(d, off, R d n) \<in> X"
    and Q: "\<And>s'. at R V I X s' \<Longrightarrow> en_blocks s' (d, off) = Some (ChildBlock kids) \<Longrightarrow> Q () s'"
    and E: "\<And>s'. at R V I X s' \<Longrightarrow> E StorageError s'"
  shows "wp (write_children_block d off kids) Q E s"
proof -
  have w: "wp device_io (\<lambda>_ s. Q () (put_at (d, off) (ChildBlock kids) s)) E s'" if "at R V I X s'" for s'
    by (rule wp_device_io [OF that]) (use Q at_put_unlinked [OF _ x] E in auto)
  show ?thesis
    unfolding write_children_block_def wp put_block_def
    by (auto intro: w at wp_device_io [OF at] E)
qed

lemma wp_allocate_children:
  assumes at: "at R V I {} s" and k: "kids \<noteq> []" "length kids < 256"
    and Q: "\<And>off s'. at R V I {(d, off, R d (32 * length kids))} s' \<Longrightarrow> en_blocks s' (d, off) = Some (ChildBlock kids) \<Longrightarrow>
      0 < off \<Longrightarrow> off < 2 ^ 64 \<Longrightarrow> Q off s'"
    and E: "\<And>s'. at R V I {} s' \<Longrightarrow> E StorageError s'"
  shows "wp (allocate_children_block d kids) Q E s"
  unfolding allocate_children_block_def wp
proof (rule wp_allocate [OF at])
  show "0 < length kids * 32" "length kids * 32 < 2 ^ 32" using k by simp_all
  fix off s1 assume fr: "fresh d off (R d (length kids * 32)) {}" and a: "at R V I {(d, off, R d (length kids * 32))} s1"
  have drop: "wp (free_children_block d off (length kids)) (\<lambda>_. E StorageError) (\<lambda>_. E StorageError) s2"
    if "at R V I {(d, off, R d (length kids * 32))} s2" for s2
    unfolding free_children_block_def by (rule wp_free [OF that]) (use E in simp_all)
  show "wp (write_children_block d off kids)
      (\<lambda>x. wp (case Inr x of Inr _ \<Rightarrow> ret off | Inl e \<Rightarrow> sq (attempt (free_children_block d off (length kids))) (throw e)) Q E)
      (\<lambda>x. wp (case Inl x of Inr _ \<Rightarrow> ret off | Inl e \<Rightarrow> sq (attempt (free_children_block d off (length kids))) (throw e)) Q E) s1"
    by (rule wp_write_children [OF a]) (use Q fr drop in \<open>simp_all add: wp fresh_def mult.commute\<close>)
qed (rule E)

section \<open>Replacing a list\<close>

lemma wp_commit_children:
  assumes at: "at R V I X s" and e: "I key = Some e" and v: "V key = Some (r, ls)" and n: "length kids < 256" "off < 2 ^ 64"
    and X: "if kids = [] then off = 0 else 0 < off \<and> (ie_device e, off, R (ie_device e) (32 * length kids)) \<in> X \<and>
      en_blocks s (ie_device e, off) = Some (ChildBlock kids)"
    and Q: "\<And>now s'. at R (V(key \<mapsto> (r\<lparr>sr_meta := touched now (set_kids k (length kids) off (sr_meta r))\<rparr>, ls(kind_tag k := kids)))) I
      ((X \<union> list_region R e (sr_meta r) (kind_tag k)) - {(ie_device e, off, R (ie_device e) (32 * length kids))}) s' \<Longrightarrow> Q True s'"
    and E: "\<And>s'. at R V I X s' \<Longrightarrow> E StorageError s'"
  shows "wp (commit_children k (ie_offset e) (kids_count k (sr_meta r)) (kids_offset k (sr_meta r)) (length kids) off e) Q E s"
proof -
  let ?m = "\<lambda>now. touched now (set_kids k (length kids) off (sr_meta r))"
  let ?reg = "(ie_device e, off, R (ie_device e) (32 * length kids))"
  have has: "has_list (kind_tag k) (?m now) \<longleftrightarrow> kids \<noteq> []" for now
    using X n by (auto simp: has_list_def set_kids_simps split: if_splits)
  have reg: "list_region R e (?m now) (kind_tag k) = (if kids = [] then {} else {?reg})" for now
    using has [of now] n by (simp add: list_region_def set_kids_simps)
  have put: "Q True (put_at (ie_device e, ie_offset e) (RecordBlock (r\<lparr>sr_meta := ?m now\<rparr>)) s')"
    if a: "at R V I X s'" and c: "en_blocks s' = en_blocks s" for now s'
  proof (rule Q)
    have "at R (V(key \<mapsto> (r\<lparr>sr_meta := ?m now\<rparr>, ls(kind_tag k := kids)))) I
        ((X \<union> list_region R e (sr_meta r) (kind_tag k)) - list_region R e (?m now) (kind_tag k))
        (put_at (loc e) (RecordBlock (r\<lparr>sr_meta := ?m now\<rparr>)) s')"
    proof (rule at_relist [OF a e v set_kids_relists])
      show "list_region R e (?m now) (kind_tag k) \<subseteq> X" using X by (auto simp: reg split: if_splits)
    qed (use X n c has [of now] in \<open>auto simp: set_kids_simps split: if_splits\<close>)
    then show "at R (V(key \<mapsto> (r\<lparr>sr_meta := ?m now\<rparr>, ls(kind_tag k := kids)))) I
        ((X \<union> list_region R e (sr_meta r) (kind_tag k)) - {?reg}) (put_at (ie_device e, ie_offset e) (RecordBlock (r\<lparr>sr_meta := ?m now\<rparr>)) s')"
      unfolding loc_def by (rule at_mono) (auto simp: reg)
  qed
  have wr: "wp (fast_io (ie_device e)) (\<lambda>_. wp (read_block (ie_device e) (ie_offset e))
      (\<lambda>q s'. Q True (put_at (ie_device e, ie_offset e) (RecordBlock (q\<lparr>sr_meta := ?m now\<rparr>)) s')) E) E s1"
    if a: "at R V I X s1" and c: "en_blocks s1 = en_blocks s" for now s1
  proof (rule wp_fast_io [OF a])
    fix s2 assume a2: "at R V I X s2" and "core s2 = core s1"
    then have "en_blocks s2 = en_blocks s" using c by (simp add: core_def)
    then show "wp (read_block (ie_device e) (ie_offset e))
        (\<lambda>q s'. Q True (put_at (ie_device e, ie_offset e) (RecordBlock (q\<lparr>sr_meta := ?m now\<rparr>)) s')) E s2"
      by (intro wp_read_block [OF a2 e v] put [OF a2])
  qed (rule E)
  have "wp (read_metadata_fast (ie_device e) (ie_offset e)) (\<lambda>m. wp (if kids_count k m \<noteq> kids_count k (sr_meta r) \<or>
      kids_offset k m \<noteq> kids_offset k (sr_meta r) then ret False else bnd (gets en_now) (\<lambda>now.
        sq (write_metadata_fast (ie_device e) (ie_offset e) (touched now (set_kids k (length kids) off m))) (ret True))) Q E) E s"
  proof (rule wp_read_metadata [OF at e v])
    fix s1 assume a: "at R V I X s1" and "core s1 = core s"
    then have "en_blocks s1 = en_blocks s" by (simp add: core_def)
    then show "wp (if kids_count k (sr_meta r) \<noteq> kids_count k (sr_meta r) \<or>
      kids_offset k (sr_meta r) \<noteq> kids_offset k (sr_meta r) then ret False else bnd (gets en_now) (\<lambda>now.
        sq (write_metadata_fast (ie_device e) (ie_offset e) (touched now (set_kids k (length kids) off (sr_meta r)))) (ret True))) Q E s1"
      using wr [OF a] by (simp add: wp write_metadata_fast_def put_block_def)
  qed (rule E)
  then show ?thesis by (simp add: commit_children_def wp)
qed

definition with_list :: "txkey \<Rightarrow> stored_record \<Rightarrow> (claim_tag \<Rightarrow> bytes list) \<Rightarrow> child_kind \<Rightarrow> bytes list \<Rightarrow>
    (txkey \<Rightarrow> logical option) \<Rightarrow> (txkey \<Rightarrow> logical option) \<Rightarrow> bool" where
  "with_list key r ls k kids V V' \<longleftrightarrow> (\<exists>now n off.
    V' = V(key \<mapsto> (r\<lparr>sr_meta := touched now (set_kids k n off (sr_meta r))\<rparr>, ls(kind_tag k := kids))))"

lemma wp_switch_children:
  assumes at: "at R V I X s" and e: "I key = Some e" and v: "V key = Some (r, ls)" and n: "length kids < 256" "off < 2 ^ 64"
    and X: "if kids = [] then off = 0 \<and> X = {} else 0 < off \<and> X = {(ie_device e, off, R (ie_device e) (32 * length kids))} \<and>
        en_blocks s (ie_device e, off) = Some (ChildBlock kids)"
    and Q: "\<And>V' s'. with_list key r ls k kids V V' \<Longrightarrow> at R V' I {} s' \<Longrightarrow> Q () s'"
    and E: "\<And>er s'. at R V I {} s' \<Longrightarrow> E er s'"
  shows "wp (switch_children k e (sr_meta r) (length kids) retry off (Some e)) Q E s"
  unfolding wp_bnd switch_children_def Let_def option.case
proof (rule wp_commit_children [OF at e v n])
  let ?m = "sr_meta r"
  show "if kids = [] then off = 0 else 0 < off \<and> (ie_device e, off, R (ie_device e) (32 * length kids)) \<in> X \<and>
      en_blocks s (ie_device e, off) = Some (ChildBlock kids)" using X by (auto split: if_splits)
next
  let ?m = "sr_meta r"
  fix now s2 assume b: "at R (V(key \<mapsto> (r\<lparr>sr_meta := touched now (set_kids k (length kids) off ?m)\<rparr>, ls(kind_tag k := kids)))) I
    ((X \<union> list_region R e ?m (kind_tag k)) - {(ie_device e, off, R (ie_device e) (32 * length kids))}) s2"
  let ?V = "V(key \<mapsto> (r\<lparr>sr_meta := touched now (set_kids k (length kids) off ?m)\<rparr>, ls(kind_tag k := kids)))"
  have new: "Q () s'" if "at R ?V I Y s'" for Y s'
    by (rule Q [OF _ at_mono [OF that empty_subsetI]]) (auto simp: with_list_def)
  show "wp (if True then if 0 < kids_count k ?m \<and> kids_offset k ?m \<noteq> 0
      then sq (attempt (free_children_block (ie_device e) (kids_offset k ?m) (kids_count k ?m))) (ret ()) else ret ()
      else sq (if off \<noteq> 0 then free_children_block (ie_device e) off (length kids) else ret ()) retry) Q E s2"
  proof (cases "0 < kids_count k ?m \<and> kids_offset k ?m \<noteq> 0")
    case True
    let ?old = "(ie_device e, kids_offset k ?m, R (ie_device e) (kids_count k ?m * 32))"
    have mem: "?old \<in> list_region R e ?m (kind_tag k)"
      using True by (simp add: list_region_def has_list_def mult.commute)
    have "?old \<notin> X" using at_claims(3) [OF at e v, of "kind_tag k" ?old] at_claims(2) [OF at e v, of "kind_tag k"] True
      by (auto simp: has_list_def mult.commute)
    then have old: "?old \<in> (X \<union> list_region R e ?m (kind_tag k)) - {(ie_device e, off, R (ie_device e) (32 * length kids))}"
      using mem X True by (auto split: if_splits)
    have "wp (free_children_block (ie_device e) (kids_offset k ?m) (kids_count k ?m)) (\<lambda>_. Q ()) (\<lambda>_. Q ()) s2"
      unfolding free_children_block_def by (rule wp_free [OF b old]) (rule new, assumption)+
    then show ?thesis using True by (simp add: wp)
  next
    case False
    then show ?thesis using new [OF b] by (auto simp: wp)
  qed
qed (rule E, erule at_mono, simp)

lemma wp_replace_children:
  assumes at: "at R V I {} s" and e: "I key = Some e" and v: "V key = Some (r, ls)" and n: "length kids < 256"
    and Q: "\<And>V' s'. with_list key r ls k kids V V' \<Longrightarrow> at R V' I {} s' \<Longrightarrow> Q () s'"
    and E: "\<And>er s'. at R V I {} s' \<Longrightarrow> E er s'"
  shows "wp (replace_children k key e (sr_meta r) kids retry) Q E s"
proof -
  have lk: "wp (bnd (lookup_checked key) (switch_children k e (sr_meta r) (length kids) retry off)) Q E s1"
    if a: "at R V I X s1" and "off < 2 ^ 64"
      and "if kids = [] then off = 0 \<and> X = {} else 0 < off \<and> X = {(ie_device e, off, R (ie_device e) (32 * length kids))} \<and>
        en_blocks s1 (ie_device e, off) = Some (ChildBlock kids)" for off X s1
  proof -
    have "wp (switch_children k e (sr_meta r) (length kids) retry off (Some e)) Q E s1"
      by (rule wp_switch_children [OF a e v n that(2,3)]) (erule Q E; assumption?)+
    then show ?thesis using a e by (simp add: lookup_checked_def wp at_def)
  qed
  show ?thesis
  proof (cases "kids = []")
    case True
    then show ?thesis unfolding replace_children_def using lk [OF at, of 0] by (simp add: wp)
  next
    case False
    have "wp (allocate_children_block (ie_device e) kids)
        (\<lambda>off. wp (bnd (lookup_checked key) (switch_children k e (sr_meta r) (length kids) retry off)) Q E) E s"
      by (rule wp_allocate_children [OF at False n], rule lk, assumption) (use False E in auto)
    then show ?thesis unfolding replace_children_def using False by (simp add: wp)
  qed
qed

section \<open>Append and remove\<close>

definition appended :: "bytes \<Rightarrow> bytes list \<Rightarrow> bytes list" where
  "appended child kids = (if child \<in> set kids then kids else kids @ [child])"

text \<open>After an append that returns, the parent is absent or its list ends with the child or held it already;
  a refused append changed nothing.\<close>

definition list_outcome :: "(u8 \<Rightarrow> nat \<Rightarrow> nat) \<Rightarrow> (txkey \<Rightarrow> logical option) \<Rightarrow> txkey \<Rightarrow> child_kind \<Rightarrow> (bytes list \<Rightarrow> bytes list) \<Rightarrow>
    engine \<Rightarrow> bool" where
  "list_outcome R V key k f s \<longleftrightarrow> (\<exists>V' I. at R V' I {} s \<and> (case V key of
      None \<Rightarrow> V' = V
    | Some (r, ls) \<Rightarrow> f (ls (kind_tag k)) = ls (kind_tag k) \<and> V' = V \<or> with_list key r ls k (f (ls (kind_tag k))) V V'))"

definition unchanged :: "(u8 \<Rightarrow> nat \<Rightarrow> nat) \<Rightarrow> (txkey \<Rightarrow> logical option) \<Rightarrow> engine \<Rightarrow> bool" where
  "unchanged R V s \<longleftrightarrow> (\<exists>I. at R V I {} s)"

lemma wp_lookup_checked:
  assumes at: "at R V I X s" and N: "I key = None \<Longrightarrow> V key = None \<Longrightarrow> Q None s"
    and S: "\<And>e r ls. I key = Some e \<Longrightarrow> V key = Some (r, ls) \<Longrightarrow> Q (Some e) s"
  shows "wp (lookup_checked key) Q E s"
proof (cases "I key")
  case None
  then show ?thesis using N at_dom [OF at, of key] at by (simp add: lookup_checked_def wp at_def)
next
  case (Some e)
  obtain r where "V key = Some (r, \<lambda>tag. list_at s (ie_device e) (list_count tag (sr_meta r)) (list_offset tag (sr_meta r)))"
    by (rule at_indexed [OF at Some])
  then show ?thesis using S [OF Some] at Some by (simp add: lookup_checked_def wp at_def)
qed

lemma append_loop_outcome:
  assumes at: "at R V I {} s"
  shows "wp (append_loop k key child (Suc n) logged) (\<lambda>_. list_outcome R V key k (appended child)) (\<lambda>_. unchanged R V) s"
  unfolding append_loop.simps wp_bnd
proof (rule wp_lookup_checked [OF at])
  assume "V key = None"
  then show "wp (case None of None \<Rightarrow> ret () | Some e \<Rightarrow> f e) (\<lambda>_. list_outcome R V key k (appended child)) (\<lambda>_. unchanged R V) s" for f
    using at by (auto simp: wp list_outcome_def)
next
  fix e r ls assume e: "I key = Some e" and v: "V key = Some (r, ls)"
  have un: "unchanged R V s'" if "at R V I {} s'" for s' using that by (auto simp: unchanged_def)
  have kids: "wp (if child \<in> set (ls (kind_tag k)) then ret ()
      else sq (fail_if (255 < length (ls (kind_tag k)) + 1) (kids_full k))
          (sq (if logged then ret () else journal_secondary_ops [append_intent k key child])
              (replace_children k key e (sr_meta r) (ls (kind_tag k) @ [child]) retry)))
      (\<lambda>_. list_outcome R V key k (appended child)) (\<lambda>_. unchanged R V) s1" if a: "at R V I {} s1" for s1 retry
  proof -
    have rep: "wp (replace_children k key e (sr_meta r) (ls (kind_tag k) @ [child]) retry)
        (\<lambda>_. list_outcome R V key k (appended child)) (\<lambda>_. unchanged R V) s2"
      if b: "at R V I {} s2" "length (ls (kind_tag k)) < 255" "child \<notin> set (ls (kind_tag k))" for s2
      by (rule wp_replace_children [OF b(1) e v]) (use b v un in \<open>auto simp: list_outcome_def appended_def\<close>)
    have "wp (if logged then ret () else journal_secondary_ops [append_intent k key child])
        (\<lambda>_. wp (replace_children k key e (sr_meta r) (ls (kind_tag k) @ [child]) retry)
          (\<lambda>_. list_outcome R V key k (appended child)) (\<lambda>_. unchanged R V)) (\<lambda>_. unchanged R V) s1"
      if b: "length (ls (kind_tag k)) < 255" "child \<notin> set (ls (kind_tag k))"
      by (rule wp_noncore [OF _ a]) (intro noncore, rule rep, assumption, rule b, rule b, rule un, assumption)
    then show ?thesis using a v un [OF a] by (auto simp: wp list_outcome_def appended_def)
  qed
  show "wp (case Some e of None \<Rightarrow> ret () | Some e \<Rightarrow>
      bnd (read_metadata_fast (ie_device e) (ie_offset e)) (\<lambda>m.
      bnd (read_children_at (ie_device e) (kids_count k m) (kids_offset k m)) (\<lambda>kids.
      if child \<in> set kids then ret ()
      else sq (fail_if (255 < length kids + 1) (kids_full k))
          (sq (if logged then ret () else journal_secondary_ops [append_intent k key child])
              (replace_children k key e m (kids @ [child]) (append_loop k key child n True))))))
    (\<lambda>_. list_outcome R V key k (appended child)) (\<lambda>_. unchanged R V) s"
    unfolding option.case wp_bnd
    by (rule wp_read_metadata [OF at e v], rule wp_read_children, assumption, rule e, rule v, rule kids, assumption, (rule un, assumption)+)
qed

lemma list_length:
  assumes at: "at R V I X s" and v: "V key = Some (r, ls)"
  shows "length (ls tag) < 256"
proof -
  obtain f where "I key = Some f" "ls = (\<lambda>t. list_at s (ie_device f) (list_count t (sr_meta r)) (list_offset t (sr_meta r)))"
    using at_viewed [OF at v] by blast
  then have "length (ls tag) \<le> list_count tag (sr_meta r)"
    by (auto simp: list_at_def split: option.split device_block.split)
  moreover have "list_count tag (sr_meta r) < 256"
    using unsigned_less [of "conflicting_children_count (sr_meta r)"] unsigned_less [of "deleted_children_count (sr_meta r)"]
    by (cases tag) simp_all
  ultimately show ?thesis by simp
qed

definition without :: "bytes \<Rightarrow> bytes list \<Rightarrow> bytes list" where
  "without child kids = filter (\<lambda>c. c \<noteq> child) kids"

lemma remove_loop_outcome:
  assumes at: "at R V I {} s"
  shows "wp (remove_loop key child (Suc n) logged) (\<lambda>_. list_outcome R V key ConflictingKind (without child)) (\<lambda>_. unchanged R V) s"
  unfolding remove_loop.simps wp_bnd
proof (rule wp_lookup_checked [OF at])
  assume "V key = None"
  then show "wp (case None of None \<Rightarrow> ret () | Some e \<Rightarrow> f e) (\<lambda>_. list_outcome R V key ConflictingKind (without child)) (\<lambda>_. unchanged R V) s" for f
    using at by (auto simp: wp list_outcome_def)
next
  fix e r ls assume e: "I key = Some e" and v: "V key = Some (r, ls)"
  let ?ls = "ls (kind_tag ConflictingKind)"
  have un: "unchanged R V s'" if "at R V I {} s'" for s' using that by (auto simp: unchanged_def)
  have len: "length (filter (\<lambda>c. c \<noteq> child) ?ls) < 256" by (rule le_less_trans [OF length_filter_le list_length [OF at v]])
  have kids: "wp (if child \<notin> set ?ls then ret ()
      else sq (if logged then ret () else journal_secondary_ops [RemoveConflictingChild key child])
              (replace_children ConflictingKind key e (sr_meta r) (filter (\<lambda>c. c \<noteq> child) ?ls) retry))
      (\<lambda>_. list_outcome R V key ConflictingKind (without child)) (\<lambda>_. unchanged R V) s1" if a: "at R V I {} s1" for s1 retry
  proof -
    have rep: "wp (replace_children ConflictingKind key e (sr_meta r) (filter (\<lambda>c. c \<noteq> child) ?ls) retry)
        (\<lambda>_. list_outcome R V key ConflictingKind (without child)) (\<lambda>_. unchanged R V) s2" if b: "at R V I {} s2" for s2
      by (rule wp_replace_children [OF b e v len]) (use v un in \<open>auto simp: list_outcome_def without_def\<close>)
    have "wp (if logged then ret () else journal_secondary_ops [RemoveConflictingChild key child])
        (\<lambda>_. wp (replace_children ConflictingKind key e (sr_meta r) (filter (\<lambda>c. c \<noteq> child) ?ls) retry)
          (\<lambda>_. list_outcome R V key ConflictingKind (without child)) (\<lambda>_. unchanged R V)) (\<lambda>_. unchanged R V) s1"
      by (rule wp_noncore [OF _ a]) (intro noncore, rule rep, assumption, rule un, assumption)
    moreover have "child \<notin> set ?ls \<Longrightarrow> without child ?ls = ?ls" by (auto simp: without_def filter_id_conv)
    ultimately show ?thesis using a v by (auto simp: wp list_outcome_def)
  qed
  show "wp (case Some e of None \<Rightarrow> ret () | Some e \<Rightarrow>
      bnd (read_metadata_fast (ie_device e) (ie_offset e)) (\<lambda>m.
      bnd (read_children_at (ie_device e) (kids_count ConflictingKind m) (kids_offset ConflictingKind m)) (\<lambda>kids.
      if child \<notin> set kids then ret ()
      else sq (if logged then ret () else journal_secondary_ops [RemoveConflictingChild key child])
              (replace_children ConflictingKind key e m (filter (\<lambda>c. c \<noteq> child) kids) (remove_loop key child n True)))))
    (\<lambda>_. list_outcome R V key ConflictingKind (without child)) (\<lambda>_. unchanged R V) s"
    unfolding option.case wp_bnd
    by (rule wp_read_metadata [OF at e v], rule wp_read_children, assumption, rule e, rule v, rule kids, assumption, (rule un, assumption)+)
qed

end
