(* ===== verification/Engine_Create.thy ===== *)
theory Engine_Create
  imports Engine_Children
begin

text \<open>
  The creation of a record (\<open>src/src/ops/engine.rs\<close>, \<open>src/src/ops/create.rs\<close>).  The store a new
  record is placed on is an argument.  A create reports its failures
  as values of its own error type.
\<close>

datatype create_error = DeviceFull | DuplicateTxId | InvalidUtxoCount | MissingExternalRef | CreateStorageError

record mined_block_info =
  bi_block_id :: u32
  bi_block_height :: u32
  bi_subtree_idx :: u32

record create_request =
  cr_tx_id :: txkey
  cr_tx_version :: u32
  cr_locktime :: u32
  cr_fee :: u64
  cr_size_in_bytes :: u64
  cr_extended_size :: u64
  cr_is_coinbase :: bool
  cr_spending_height :: u32
  cr_utxo_hashes :: "bytes list"
  cr_inputs :: "bytes option"
  cr_outputs :: "bytes option"
  cr_inpoints :: "bytes option"
  cr_is_external :: bool
  cr_created_at :: u64
  cr_block_height :: u32
  cr_mined_block_infos :: "mined_block_info list"
  cr_frozen :: bool
  cr_conflicting :: bool
  cr_locked :: bool
  cr_external_ref :: "external_ref option"
  cr_parent_txids :: "txkey list"

record create_response =
  co_record_offset :: nat
  co_utxo_count :: u32

definition external_ref_for_create :: "create_request \<Rightarrow> create_error + external_ref option" where
  "external_ref_for_create rq =
    (if \<not> cr_is_external rq then Inr None
     else case cr_external_ref rq of Some x \<Rightarrow> Inr (Some x) | None \<Rightarrow> Inl MissingExternalRef)"

definition create_cold_data :: "create_request \<Rightarrow> bytes" where
  "create_cold_data rq =
    (if cr_is_external rq \<and> cr_inputs rq = None then []
     else build_cold_data (cr_inputs rq) (cr_outputs rq) (cr_inpoints rq))"

definition create_count :: "create_request \<Rightarrow> u32" where
  "create_count rq = of_nat (length (cr_utxo_hashes rq))"

definition create_total_size :: "create_request \<Rightarrow> nat" where
  "create_total_size rq = unat (record_size_for (create_count rq)) + length (create_cold_data rq)"

definition create_flags :: "create_request \<Rightarrow> u8" where
  "create_flags rq =
    (if cr_is_coinbase rq then IS_COINBASE else 0) OR (if cr_is_external rq then EXTERNAL else 0) OR
    (if cr_conflicting rq then CONFLICTING else 0) OR (if cr_locked rq then LOCKED else 0)"

definition create_metadata :: "create_request \<Rightarrow> external_ref option \<Rightarrow> tx_metadata" where
  "create_metadata rq ext =
    (new_metadata (create_count rq))\<lparr>
      tx_id := cr_tx_id rq, tx_version := cr_tx_version rq, locktime := cr_locktime rq, fee := cr_fee rq,
      size_in_bytes := cr_size_in_bytes rq, extended_size := cr_extended_size rq,
      spending_height := cr_spending_height rq, created_at := cr_created_at rq,
      record_size := of_nat (create_total_size rq), flags := create_flags rq,
      external_ref := (case ext of Some x \<Rightarrow> x | None \<Rightarrow> external_ref_zeroed),
      unmined_since := (if cr_mined_block_infos rq = [] then cr_block_height rq else 0)\<rparr>"

definition create_slots :: "create_request \<Rightarrow> utxo_slot list" where
  "create_slots rq = map (\<lambda>h. if cr_frozen rq then new_frozen h else new_unspent h) (cr_utxo_hashes rq)"

definition write_full_record_with_cold :: "u8 \<Rightarrow> nat \<Rightarrow> tx_metadata \<Rightarrow> utxo_slot list \<Rightarrow> bytes \<Rightarrow> unit eng" where
  "write_full_record_with_cold d off m slots cold =
    sq device_io (put_block d off (RecordBlock \<lparr>sr_meta = m, sr_slots = slots, sr_cold = cold\<rparr>))"

definition seed_mined_index_from_infos :: "txkey \<Rightarrow> u32 \<Rightarrow> u32 \<Rightarrow> mined_block_info list \<Rightarrow> mined_index \<Rightarrow> mined_index" where
  "seed_mined_index_from_infos key slot um infos mi =
    fold (\<lambda>i mi. snd (apply_set_mined mi key slot (bi_block_id i) (bi_block_height i) (bi_subtree_idx i) (um = 0))) infos mi"

definition alloc_mined_slot :: "create_request \<Rightarrow> tx_metadata \<Rightarrow> u32 eng" where
  "alloc_mined_slot rq m s =
    (let (slot, mi) = alloc_created (en_mined s) (cr_tx_id rq) (unmined_since m);
         mi' = (if cr_mined_block_infos rq = [] then mi
                else seed_mined_index_from_infos (cr_tx_id rq) slot (unmined_since m) (cr_mined_block_infos rq) mi)
     in (Inr slot, s\<lparr>en_mined := mi'\<rparr>))"

definition clear_tombstone_for_recreated_key :: "txkey \<Rightarrow> unit eng" where
  "clear_tombstone_for_recreated_key key =
    modify (\<lambda>s. s\<lparr>en_tombstones := map_option (tomb_clear key) (en_tombstones s)\<rparr>)"

text \<open>Steps after the write: the mined slot, the index entry, the conflicting set and the parents.  The
  duplicate check under the lock makes the insert-if-absent of the index succeed.\<close>

definition register_created :: "create_request \<Rightarrow> u8 \<Rightarrow> nat \<Rightarrow> tx_metadata \<Rightarrow> unit eng" where
  "register_created rq d off m =
    bnd (alloc_mined_slot rq m) (\<lambda>mslot.
    sq (mirror_de_flags (cr_tx_id rq) mslot m)
   (sq (modify (\<lambda>s. s\<lparr>en_index := (en_index s)(cr_tx_id rq \<mapsto> \<lparr>ie_device = d, ie_offset = off, ie_mined_slot = mslot\<rparr>)\<rparr>))
   (sq (clear_tombstone_for_recreated_key (cr_tx_id rq))
   (sq (if cr_conflicting rq
        then modify (\<lambda>s. s\<lparr>en_conflicting := conflicting_insert (en_conflicting s) (cr_tx_id rq)\<rparr>) else ret ())
       (if cr_conflicting rq
        then each (\<lambda>p. best_effort (append_conflicting_child p (cr_tx_id rq))) (cr_parent_txids rq) else ret ())))))"

definition create :: "u8 \<Rightarrow> create_request \<Rightarrow> (create_error + create_response) eng" where
  "create d rq =
    (if create_count rq = 0 then ret (Inl InvalidUtxoCount)
     else bnd (lookup_checked (cr_tx_id rq)) (\<lambda>present.
       if present \<noteq> None then ret (Inl DuplicateTxId)
       else case external_ref_for_create rq of
         Inl e \<Rightarrow> ret (Inl e)
       | Inr ext \<Rightarrow>
           bnd (attempt (allocate_region d (create_total_size rq))) (\<lambda>a. case a of
             Inl _ \<Rightarrow> ret (Inl DeviceFull)
           | Inr off \<Rightarrow>
               let m = create_metadata rq ext in
               bnd (attempt (write_full_record_with_cold d off m (create_slots rq) (create_cold_data rq))) (\<lambda>w. case w of
                 Inl _ \<Rightarrow> sq (attempt (free_region_at d off (create_total_size rq))) (ret (Inl CreateStorageError))
               | Inr _ \<Rightarrow>
                   sq (register_created rq d off m)
                      (ret (Inr \<lparr>co_record_offset = off, co_utxo_count = create_count rq\<rparr>))))))"

end
