(* ===== verification/Engine_Ledger.thy ===== *)
theory Engine_Ledger
  imports Engine_Lists Engine_Create
begin

text \<open>
  The ledger of outputs: what each engine operation may do to the slots and counters of the records,
  under every fault schedule.  \<open>slot_move\<close> lists the moves a slot can make in one operation; every other
  slot of the store stays as it is.
\<close>

section \<open>Counting\<close>

definition is_settled :: "utxo_slot \<Rightarrow> bool" where
  "is_settled sl \<longleftrightarrow> status sl = UTXO_SPENT \<or> status sl = UTXO_PRUNED"

definition settled :: "utxo_slot list \<Rightarrow> nat" where
  "settled sls = length (filter is_settled sls)"

text \<open>The header never counts more spent outputs than there are spent or pruned slots.\<close>

definition counted :: "stored_record \<Rightarrow> bool" where
  "counted r \<longleftrightarrow> unat (spent_utxos (sr_meta r)) \<le> settled (sr_slots r)"

lemma settled_update:
  assumes "i < length sls"
  shows "settled (sls[i := sl]) + of_bool (is_settled (sls ! i)) = settled sls + of_bool (is_settled sl)"
  using assms
proof (induction sls arbitrary: i)
  case (Cons x xs)
  then show ?case by (cases i) (auto simp: settled_def)
qed simp

lemma settled_le: "settled sls \<le> length sls"
  by (simp add: settled_def)

lemma settled_all: "settled sls = length sls \<longleftrightarrow> list_all is_settled sls"
  by (metis Ball_set filter_id_conv length_filter_less nat_neq_iff settled_def)

lemma unat_inc: "unat (x + 1 :: u32) \<le> Suc (unat x)"
proof -
  have "unat (x + 1) = Suc (unat x) mod 2 ^ 32" by (simp add: unat_word_ariths)
  then show ?thesis by (metis mod_less_eq_dividend)
qed

lemma unat_dec: "x \<noteq> 0 \<Longrightarrow> Suc (unat (x - 1 :: u32)) = unat x"
  by (simp add: unat_minus_one unat_gt_0)

section \<open>Operations\<close>

datatype engine_op =
    OpSpend spend_request
  | OpSpendMulti spend_multi_request
  | OpUnspend unspend_request
  | OpFreeze slot_request
  | OpUnfreeze slot_request
  | OpReassign reassign_request
  | OpPruneSlot txkey u32
  | OpPruneChild txkey u32 bytes
  | OpSetGeneration txkey u32
  | OpSetMined txkey set_mined_params
  | OpMark mark_request
  | OpSetConflicting set_conflicting_request
  | OpSetLocked txkey bool
  | OpRestoreLocked txkey bool u32
  | OpPreserve txkey u32
  | OpExpire txkey u32 u32
  | OpReplicatedExpiry txkey u32
  | OpAppendConflicting txkey bytes
  | OpRemoveConflicting txkey bytes
  | OpAppendDeleted txkey bytes
  | OpDelete delete_request removal_authority
  | OpCreate u8 create_request

primrec exec :: "blob_lookup \<Rightarrow> (bytes \<Rightarrow> bytes) \<Rightarrow> engine_op \<Rightarrow> engine \<Rightarrow> engine" where
  "exec blobs sha (OpSpend rq) s = snd (spend rq s)"
| "exec blobs sha (OpSpendMulti rq) s = snd (spend_multi rq s)"
| "exec blobs sha (OpUnspend rq) s = snd (unspend rq s)"
| "exec blobs sha (OpFreeze rq) s = snd (freeze rq s)"
| "exec blobs sha (OpUnfreeze rq) s = snd (unfreeze rq s)"
| "exec blobs sha (OpReassign rq) s = snd (reassign rq s)"
| "exec blobs sha (OpPruneSlot key off) s = snd (prune_slot key off s)"
| "exec blobs sha (OpPruneChild key off child) s = snd (prune_slot_if_spent_by_child key off child s)"
| "exec blobs sha (OpSetGeneration key g) s = snd (set_record_generation key g s)"
| "exec blobs sha (OpSetMined key p) s = snd (set_mined_inner key p s)"
| "exec blobs sha (OpMark rq) s = snd (mark_on_longest_chain rq s)"
| "exec blobs sha (OpSetConflicting rq) s = snd (set_conflicting blobs sha rq s)"
| "exec blobs sha (OpSetLocked key b) s = snd (set_locked_with_before_image key b s)"
| "exec blobs sha (OpRestoreLocked key b h) s = snd (restore_set_locked_for_compensation key b h s)"
| "exec blobs sha (OpPreserve key h) s = snd (preserve_record_until key h s)"
| "exec blobs sha (OpExpire key h rt) s = snd (expire_preservation_set_dah key h rt s)"
| "exec blobs sha (OpReplicatedExpiry key h) s = snd (apply_replicated_preservation_expiry key h s)"
| "exec blobs sha (OpAppendConflicting key c) s = snd (append_conflicting_child key c s)"
| "exec blobs sha (OpRemoveConflicting key c) s = snd (remove_conflicting_child key c s)"
| "exec blobs sha (OpAppendDeleted key c) s = snd (append_deleted_child key c s)"
| "exec blobs sha (OpDelete rq a) s = snd (delete_inner rq a s)"
| "exec blobs sha (OpCreate d rq) s = snd (create d rq s)"

text \<open>The moves of a slot.\<close>

inductive slot_move :: "engine_op \<Rightarrow> txkey \<Rightarrow> nat \<Rightarrow> utxo_slot \<Rightarrow> utxo_slot \<Rightarrow> bool" where
  stays: "slot_move op key i sl sl"
| spends: "judge_slot sl (rq_offset rq) (rq_hash rq) (rq_data rq) (rq_height rq) = SpendSlot \<Longrightarrow> rq_data rq \<noteq> FROZEN_DATA \<Longrightarrow>
    slot_move (OpSpend rq) (rq_key rq) (unat (rq_offset rq)) sl (new_spent (rq_hash rq) (rq_data rq))"
| spends_item: "it \<in> set (mr_spends rq) \<Longrightarrow>
    judge_slot sl (si_offset it) (si_hash it) (si_data it) (mr_height rq) = SpendSlot \<Longrightarrow> si_data it \<noteq> FROZEN_DATA \<Longrightarrow>
    slot_move (OpSpendMulti rq) (mr_key rq) (unat (si_offset it)) sl (new_spent (si_hash it) (si_data it))"
| unspends: "caller_owns_spend sl (uq_data rq) \<Longrightarrow> slot_hash sl = uq_hash rq \<Longrightarrow>
    slot_move (OpUnspend rq) (uq_key rq) (unat (uq_offset rq)) sl (new_unspent (uq_hash rq))"
| freezes: "status sl = UTXO_UNSPENT \<Longrightarrow> slot_hash sl = lq_hash rq \<Longrightarrow>
    slot_move (OpFreeze rq) (lq_key rq) (unat (lq_offset rq)) sl (frozen_image sl (lq_hash rq))"
| unfreezes: "status sl = UTXO_FROZEN \<Longrightarrow> slot_hash sl = lq_hash rq \<Longrightarrow>
    slot_move (OpUnfreeze rq) (lq_key rq) (unat (lq_offset rq)) sl (unfrozen_image sl (lq_hash rq))"
| reassigns: "status sl = UTXO_FROZEN \<Longrightarrow> slot_hash sl = aq_hash rq \<Longrightarrow> checked_add (aq_height rq) (aq_after rq) = Some h \<Longrightarrow>
    slot_move (OpReassign rq) (aq_key rq) (unat (aq_offset rq)) sl (new_unspent_with_cooldown (aq_new_hash rq) h)"
| prunes: "slot_move (OpPruneSlot key off) key (unat off) sl (sl\<lparr>status := UTXO_PRUNED\<rparr>)"
| prunes_child: "spent_by_child sl child \<Longrightarrow>
    slot_move (OpPruneChild key off child) key (unat off) sl (sl\<lparr>status := UTXO_PRUNED\<rparr>)"

inductive_cases slot_move_spend: "slot_move (OpSpend rq) key i sl sl'"
inductive_cases slot_move_unspend: "slot_move (OpUnspend rq) key i sl sl'"

section \<open>Records\<close>

definition same_identity :: "stored_record \<Rightarrow> stored_record \<Rightarrow> bool" where
  "same_identity r r' \<longleftrightarrow> tx_id (sr_meta r') = tx_id (sr_meta r) \<and> utxo_count (sr_meta r') = utxo_count (sr_meta r) \<and>
    record_size (sr_meta r') = record_size (sr_meta r) \<and> sr_cold r' = sr_cold r \<and> length (sr_slots r') = length (sr_slots r)"

definition evolves :: "engine_op \<Rightarrow> txkey \<Rightarrow> stored_record \<Rightarrow> stored_record \<Rightarrow> bool" where
  "evolves op key r r' \<longleftrightarrow> same_identity r r' \<and>
    (\<forall>i < length (sr_slots r). slot_move op key i (sr_slots r ! i) (sr_slots r' ! i))"

definition keeps_count :: "stored_record \<Rightarrow> stored_record \<Rightarrow> bool" where
  "keeps_count r r' \<longleftrightarrow> (counted r \<longrightarrow> counted r')"

text \<open>An operation that only rewrites the header.\<close>

definition quiet :: "stored_record \<Rightarrow> stored_record \<Rightarrow> bool" where
  "quiet r r' \<longleftrightarrow> same_identity r r' \<and> sr_slots r' = sr_slots r \<and> spent_utxos (sr_meta r') = spent_utxos (sr_meta r)"

lemma quiet_evolves: "quiet r r' \<Longrightarrow> evolves op key r r' \<and> keeps_count r r'"
  by (simp add: quiet_def evolves_def keeps_count_def counted_def slot_move.stays)

lemma evolves_refl: "evolves op key r r" "keeps_count r r" "quiet r r"
  by (simp_all add: evolves_def keeps_count_def quiet_def same_identity_def slot_move.stays)

lemma evolves_quiet: "evolves op key r r' \<Longrightarrow> quiet r' r'' \<Longrightarrow> evolves op key r r''"
  by (auto simp: evolves_def quiet_def same_identity_def)

lemma keeps_count_quiet: "keeps_count r r' \<Longrightarrow> quiet r' r'' \<Longrightarrow> keeps_count r r''"
  by (auto simp: keeps_count_def quiet_def counted_def)

lemma quiet_trans: "quiet r r' \<Longrightarrow> quiet r' r'' \<Longrightarrow> quiet r r''"
  by (auto simp: quiet_def same_identity_def)

lemma quiet_header: "same_header (sr_meta r) m \<Longrightarrow> spent_utxos m = spent_utxos (sr_meta r) \<Longrightarrow> quiet r (r\<lparr>sr_meta := m\<rparr>)"
  by (simp add: quiet_def same_identity_def same_header_def)

lemma evolves_slot:
  assumes "i < length (sr_slots r)" "slot_move op key i (sr_slots r ! i) sl" "same_header (sr_meta r) m"
  shows "evolves op key r (r\<lparr>sr_slots := (sr_slots r)[i := sl], sr_meta := m\<rparr>)"
  using assms by (auto simp: evolves_def same_identity_def same_header_def nth_list_update slot_move.stays)

lemma keeps_count_slot:
  assumes "i < length (sr_slots r)"
    and "unat (spent_utxos m) + of_bool (is_settled (sr_slots r ! i)) \<le> unat (spent_utxos (sr_meta r)) + of_bool (is_settled sl)"
  shows "keeps_count r (r\<lparr>sr_slots := (sr_slots r)[i := sl], sr_meta := m\<rparr>)"
  using assms settled_update [OF assms(1), of sl] by (auto simp: keeps_count_def counted_def)

end
