(* ===== verification/Engine_Moves.thy ===== *)
theory Engine_Moves
  imports Engine_Ledger
begin

text \<open>
  Every operation moves the slots of its record as \<open>slot_move\<close> allows and keeps the spent counter covered
  by settled slots, whatever the faults.
\<close>

section \<open>Single slots\<close>

definition moves :: "engine_op \<Rightarrow> txkey \<Rightarrow> stored_record \<Rightarrow> stored_record \<Rightarrow> bool" where
  "moves op key r r' \<longleftrightarrow> evolves op key r r' \<and> keeps_count r r'"

lemma moves_slot:
  assumes "i < length (sr_slots r)" "slot_move op key i (sr_slots r ! i) sl" "same_header (sr_meta r) m"
    "unat (spent_utxos m) + of_bool (is_settled (sr_slots r ! i)) \<le> unat (spent_utxos (sr_meta r)) + of_bool (is_settled sl)"
  shows "moves op key r (r\<lparr>sr_slots := (sr_slots r)[i := sl], sr_meta := m\<rparr>)"
  using evolves_slot [OF assms(1-3)] keeps_count_slot [OF assms(1,4)] by (simp add: moves_def)

lemma moves_slot_only:
  assumes "i < length (sr_slots r)" "slot_move op key i (sr_slots r ! i) sl" "is_settled (sr_slots r ! i) \<Longrightarrow> is_settled sl"
  shows "moves op key r (r\<lparr>sr_slots := (sr_slots r)[i := sl]\<rparr>)"
  using moves_slot [OF assms(1,2), of "sr_meta r"] assms(3) by (auto simp: of_bool_def)

lemma moves_quiet: "quiet r r' \<Longrightarrow> moves op key r r'"
  using quiet_evolves by (simp add: moves_def)

lemma settled_images:
  "\<not> is_settled (frozen_image sl h)" "\<not> is_settled (unfrozen_image sl h)" "\<not> is_settled (new_unspent h)"
  "\<not> is_settled (new_unspent_with_cooldown h c)" "is_settled (new_spent h d)" "is_settled (sl\<lparr>status := UTXO_PRUNED\<rparr>)"
  by (simp_all add: is_settled_def frozen_image_def unfrozen_image_def Let_def slot_defs record_consts)

lemma unsettled: "status sl = UTXO_UNSPENT \<Longrightarrow> \<not> is_settled sl" "status sl = UTXO_FROZEN \<Longrightarrow> \<not> is_settled sl"
  by (simp_all add: is_settled_def record_consts)

lemma ends_put2:
  "at R (V(key \<mapsto> x, key \<mapsto> (r', ls))) I' {} s \<Longrightarrow> V key = Some (r, ls) \<Longrightarrow> P r r' \<Longrightarrow> ends R V key P s"
  unfolding fun_upd_upd by (rule ends_put)

lemma same_header_touch: "same_header m (touched now m)"
  by simp

lemma safe_bump:
  assumes at: "at R (V(key \<mapsto> (r1, ls))) I {} s" and e: "I key = Some e" and m: "sr_meta r1 = m"
    and P1: "\<And>s'. at R (V(key \<mapsto> (r1, ls))) I {} s' \<Longrightarrow> P s'"
    and P2: "\<And>now s'. at R (V(key \<mapsto> (r1\<lparr>sr_meta := touched now m\<rparr>, ls))) I {} s' \<Longrightarrow> P s'"
  shows "safe P (bump_generation e m) s"
  unfolding bump_generation_def
  apply (rule safe_gets)
  apply (rule safe_write_metadata [OF at e, of r1 ls])
     apply simp
    apply (rule same_claims_meta)
    apply (simp add: m)
   apply (erule P1)
  apply (rule safe_ret)
  apply (rule P2)
  apply (simp only: fun_upd_upd)
  done

lemma freeze_moves:
  assumes at: "at R V I {} s"
  shows "safe (ends R V (lq_key rq) (moves (OpFreeze rq) (lq_key rq))) (freeze rq) s"
  unfolding freeze_def Let_def
  apply (rule safe_lookup [OF at], erule ends_same)
  apply (rule safe_read_metadata [OF at], assumption+, erule ends_same)
  apply (rule safe_fail_if, erule ends_same)
  apply (rule safe_read_slot, assumption+, erule ends_same)
  apply (rule safe_fail_if, erule ends_same)
  apply (rule safe_fail_if, erule ends_same)
  apply (rule safe_fail_if, erule ends_same)
  apply (rule safe_fail_if, erule ends_same)
  apply (rule safe_write_slot, assumption+, erule ends_same)
  apply (rule safe_bump, assumption, assumption, simp)
   apply (erule ends_put, assumption)
   apply (rule moves_slot_only, assumption)
    apply (rule slot_move.freezes; simp)
   apply (simp add: unsettled)
  apply (erule ends_put, assumption)
  apply (rule moves_slot, assumption)
    apply (rule slot_move.freezes; simp)
   apply simp
  apply (simp add: unsettled touched_def)
  done

lemma unfreeze_moves:
  assumes at: "at R V I {} s"
  shows "safe (ends R V (lq_key rq) (moves (OpUnfreeze rq) (lq_key rq))) (unfreeze rq) s"
  unfolding unfreeze_def Let_def
  apply (rule safe_lookup [OF at], erule ends_same)
  apply (rule safe_read_metadata [OF at], assumption+, erule ends_same)
  apply (rule safe_fail_if, erule ends_same)
  apply (rule safe_read_slot, assumption+, erule ends_same)
  apply (rule safe_fail_if, erule ends_same)
  apply (rule safe_fail_if, erule ends_same)
  apply (rule safe_write_slot, assumption+, erule ends_same)
  apply (rule safe_bump, assumption, assumption, simp)
   apply (erule ends_put, assumption)
   apply (rule moves_slot_only, assumption)
    apply (rule slot_move.unfreezes; simp)
   apply (simp add: unsettled)
  apply (erule ends_put, assumption)
  apply (rule moves_slot, assumption)
    apply (rule slot_move.unfreezes; simp)
   apply simp
  apply (simp add: unsettled touched_def)
  done

lemma reassign_moves:
  assumes at: "at R V I {} s"
  shows "safe (ends R V (aq_key rq) (moves (OpReassign rq) (aq_key rq))) (reassign rq) s"
  unfolding reassign_def Let_def
  apply (rule safe_lookup [OF at], erule ends_same)
  apply (rule safe_read_metadata [OF at], assumption+, erule ends_same)
  apply (rule safe_fail_if, erule ends_same)
  apply (rule safe_sq_noncore, assumption, rule noncore_guards, erule ends_same)
  apply (rule safe_read_slot, assumption+, erule ends_same)
  apply (rule safe_fail_if, erule ends_same)
  apply (rule safe_fail_if, erule ends_same)
  apply (split option.split, intro conjI impI allI)
   apply (rule safe_throw, erule ends_same)
  apply (rule safe_write_slot, assumption+, erule ends_same)
  apply (rule safe_gets)
  apply (rule safe_write_metadata, assumption, assumption, simp, simp add: same_claims_def touched_def)
   apply (erule ends_put, assumption)
   apply (rule moves_slot_only, assumption)
    apply (rule slot_move.reassigns; simp)
   apply (simp add: unsettled)
  apply (rule safe_noncore, assumption, intro noncore)
  apply (erule ends_put2, assumption)
  apply (rule moves_slot, assumption)
    apply (rule slot_move.reassigns; simp)
   apply (simp add: same_header_def touched_def)
  apply (simp_all add: unsettled touched_def)
  done

section \<open>Header-only operations\<close>

lemma safe_quiet_write:
  assumes at: "at R V I {} s" and e: "I key = Some e" and v: "V key = Some (r, ls)"
    and hd: "same_header (sr_meta r) m" and sp: "spent_utxos m = spent_utxos (sr_meta r)" and nc: "noncore k"
  shows "safe (ends R V key quiet) (sq (write_metadata_fast (ie_device e) (ie_offset e) m) k) s"
  apply (rule safe_write_metadata [OF at e v same_claims_meta [OF hd]], erule ends_same)
  apply (rule safe_noncore, assumption, rule nc)
  apply (erule ends_put, rule v, rule quiet_header [OF hd sp])
  done

lemma safe_ends_noncore:
  assumes "ends R V key P s" "noncore k"
  shows "safe (ends R V key P) k s"
proof -
  obtain V' I' where a: "at R V' I' {} s" and u: "upd key P V V'" using assms(1) by (auto simp: ends_def)
  show ?thesis by (rule safe_noncore [OF a assms(2)]) (use u in \<open>unfold ends_def, blast\<close>)
qed

lemma safe_noncore_after:
  assumes m: "safe (ends R V key P) m s" and k: "\<And>x. noncore (k x)"
  shows "safe (ends R V key P) (bnd m k) s"
  unfolding safe_bnd
  by (rule wp_mono [OF m [unfolded safe_wp]]) (rule safe_ends_noncore [OF _ k], assumption)

lemma wp_read_for_key:
  assumes at: "at R V I X s" and e: "I key = Some e" and v: "V key = Some (r, ls)"
    and Q: "\<And>s'. at R V I X s' \<Longrightarrow> Q (sr_meta r) s'" and E: "\<And>er s'. at R V I X s' \<Longrightarrow> E er s'"
  shows "wp (read_metadata_for_key (ie_device e) key (ie_offset e)) Q E s"
  unfolding read_metadata_for_key_def wp_bnd wp_attempt
  by (rule wp_read_metadata [OF at e v]) (auto simp: wp Q E lookup_checked_def split: option.split)

lemma safe_read_for_key:
  assumes at: "at R V I X s" "I key = Some e" "V key = Some (r, ls)"
    and P: "\<And>s'. at R V I X s' \<Longrightarrow> P s'" and k: "\<And>s'. at R V I X s' \<Longrightarrow> safe P (k (sr_meta r)) s'"
  shows "safe P (bnd (read_metadata_for_key (ie_device e) key (ie_offset e)) k) s"
  unfolding safe_bnd by (rule wp_read_for_key [OF at]) (rule k P, assumption)+

lemma set_generation_quiet:
  assumes at: "at R V I {} s"
  shows "safe (ends R V key quiet) (set_record_generation key g) s"
  unfolding set_record_generation_def safe_bnd
  apply (rule wp_lookup_checked [OF at])
   apply (simp add: safe_wp wp ends_same [OF at])
  apply simp
  apply (rule safe_read_metadata [OF at], assumption+, erule ends_same)
  apply (rule safe_quiet_write, assumption+)
    apply (simp add: same_header_def touched_def)
   apply simp
  apply (intro noncore)
  done

lemma mark_quiet:
  assumes at: "at R V I {} s"
  shows "safe (ends R V (mk_key rq) quiet) (mark_on_longest_chain rq) s"
  unfolding mark_on_longest_chain_def Let_def
  apply (rule safe_sq_noncore [OF at noncore_observe], erule ends_same)
  apply (rule safe_lookup, assumption, erule ends_same)
  apply (rule safe_read_metadata, assumption+, erule ends_same)
  apply (rule safe_gets)
  apply (rule safe_bnd_noncore, assumption, rule noncore_entries_at, erule ends_same)
  apply (split prod.split, intro allI impI)
  apply (rule safe_evaluate, assumption, erule ends_same)
  apply (simp only: prod.case)
  apply (rule safe_quiet_write, assumption+)
    apply (erule same_header_patched, simp add: same_header_def touched_def)
   apply (drule patched_fields(1), simp add: touched_def)
  apply (intro noncore)
  done

lemma conflicting_direct_quiet:
  assumes at: "at R V I {} s" and e: "I (cq_key rq) = Some e" and v: "V (cq_key rq) = Some (r, ls)"
  shows "safe (ends R V (cq_key rq) quiet) (conflicting_direct rq e hb um) s"
  unfolding conflicting_direct_def Let_def
  apply (rule safe_read_metadata [OF at e v], erule ends_same)
  apply (rule safe_gets)
  apply (rule safe_bnd_noncore, assumption, rule noncore_lift_sum, erule ends_same)
  apply (split prod.split, intro allI impI)
  apply (rule safe_sq_noncore, assumption, rule noncore_note_patch, erule ends_same)
  apply (rule safe_gets)
  apply (rule safe_quiet_write, assumption, rule e, rule v)
    apply (simp add: same_header_def touched_def)
   apply (simp add: touched_def)
  apply (intro noncore)
  done

lemma conflicting_buffered_quiet:
  assumes at: "at R V I {} s" and e: "I (cq_key rq) = Some e" and v: "V (cq_key rq) = Some (r, ls)"
  shows "safe (ends R V (cq_key rq) quiet) (conflicting_buffered rq e hb um) s"
  unfolding conflicting_buffered_def Let_def
  apply (rule safe_read_metadata [OF at e v], erule ends_same)
  apply (rule safe_gets)
  apply (rule safe_evaluate, assumption, erule ends_same)
  apply (simp only: prod.case)
  apply (rule safe_quiet_write, assumption, rule e, rule v)
    apply (erule same_header_patched, simp add: same_header_def touched_def)
   apply (drule patched_fields(1), simp add: touched_def)
  apply (intro noncore)
  done

lemma core_secondary [simp]:
  "core (s\<lparr>en_conflicting := c\<rparr>) = core s" "core (s\<lparr>en_tombstones := t\<rparr>) = core s" "core (s\<lparr>en_mined := mi\<rparr>) = core s"
  by (simp_all add: core_def)

lemma set_conflicting_locked_quiet:
  assumes at: "at R V I {} s"
  shows "safe (ends R V (cq_key rq) quiet) (set_conflicting_locked rq) s"
  unfolding set_conflicting_locked_def Let_def
  apply (rule safe_lookup [OF at], erule ends_same)
  apply (rule safe_bnd_noncore [OF at noncore_entries_at], erule ends_same)
  apply (split prod.split, intro allI impI)
  apply (rule safe_gets)
  apply (rule safe_noncore_after)
   apply (simp add: conflicting_direct_quiet conflicting_buffered_quiet)
  apply (intro noncore, simp)
  done

lemma set_locked_quiet:
  assumes at: "at R V I {} s"
  shows "safe (ends R V key quiet) (set_locked_with_before_image key b) s"
  unfolding set_locked_with_before_image_def Let_def
  apply (rule safe_lookup [OF at], erule ends_same)
  apply (rule safe_read_metadata [OF at], assumption+, erule ends_same)
  apply (rule safe_gets)
  apply (rule safe_gets)
  apply (rule safe_quiet_write, assumption+)
    apply (simp add: same_header_def touched_def)
   apply (simp add: touched_def)
  apply (intro noncore)
  done

lemma restore_locked_quiet:
  assumes at: "at R V I {} s"
  shows "safe (ends R V key quiet) (restore_set_locked_for_compensation key b h) s"
  unfolding restore_set_locked_for_compensation_def Let_def
  apply (rule safe_lookup [OF at], erule ends_same)
  apply (rule safe_read_metadata [OF at], assumption+, erule ends_same)
  apply (rule safe_gets)
  apply (rule safe_quiet_write, assumption+)
    apply (simp add: same_header_def touched_def)
   apply (simp add: touched_def)
  apply (intro noncore)
  done

lemma preserve_quiet:
  assumes at: "at R V I {} s"
  shows "safe (ends R V key quiet) (preserve_record_until key h) s"
  unfolding preserve_record_until_def Let_def
  apply (rule safe_lookup [OF at], erule ends_same)
  apply (rule safe_read_metadata [OF at], assumption+, erule ends_same)
  apply (rule safe_gets)
  apply (rule safe_quiet_write, assumption+)
    apply (simp add: same_header_def touched_def)
   apply (simp add: touched_def)
  apply (intro noncore)
  done

lemma commit_expiry_quiet:
  assumes at: "at R V I {} s" and e: "I key = Some e" and v: "V key = Some (r, ls)"
  shows "safe (ends R V key quiet) (commit_preservation_expiry key e (sr_meta r) h) s"
  unfolding commit_preservation_expiry_def Let_def
  apply (rule safe_gets)
  apply (rule safe_sq_noncore [OF at noncore_journal], erule ends_same)
  apply (rule safe_quiet_write, assumption, rule e, rule v)
    apply (simp add: same_header_def touched_def)
   apply (simp add: touched_def)
  apply (intro noncore)
  done

lemma expire_quiet:
  assumes at: "at R V I {} s"
  shows "safe (ends R V key quiet) (expire_preservation_set_dah key h rt) s"
proof (cases "rt = 0")
  case True
  then show ?thesis using ends_same [OF at] by (simp add: expire_preservation_set_dah_def safe_ret)
next
  case False
  show ?thesis
    unfolding expire_preservation_set_dah_def Let_def if_not_P [OF False] safe_bnd [of _ "lookup_checked key"]
    apply (rule wp_lookup_checked [OF at])
     apply (simp add: safe_ret ends_same [OF at])
    apply simp
    apply (rule safe_read_for_key [OF at], assumption+, erule ends_same)
    apply (split if_split, intro conjI impI)
     apply (rule safe_ret, erule ends_same)
    apply (rule safe_bnd_noncore, assumption, rule noncore_entries_at, erule ends_same)
    apply (split prod.split, intro allI impI)
    apply (rule safe_bnd_noncore, assumption, intro noncore, simp add: noncore split: option.split, erule ends_same)
    apply (rule safe_noncore_after)
     apply (rule commit_expiry_quiet, assumption+)
    apply (intro noncore)
    done
qed

lemma replicated_expiry_quiet:
  assumes at: "at R V I {} s"
  shows "safe (ends R V key quiet) (apply_replicated_preservation_expiry key h) s"
  unfolding apply_replicated_preservation_expiry_def
  apply (rule safe_lookup [OF at], erule ends_same)
  apply (rule safe_read_for_key [OF at], assumption+, erule ends_same)
  unfolding sq_def
  apply (rule safe_noncore_after)
   apply (rule commit_expiry_quiet, assumption+)
  apply (intro noncore)
  done

section \<open>Spending\<close>

lemma with_parts: "sr_slots r' = ss \<Longrightarrow> sr_cold r' = sr_cold r \<Longrightarrow> r' = r\<lparr>sr_slots := ss, sr_meta := sr_meta r'\<rparr>" for r' :: stored_record
  by simp

lemma judged_unspent: "judge_slot sl off h dat ht = SpendSlot \<Longrightarrow> status sl = UTXO_UNSPENT"
  by (auto simp: judge_slot_def Let_def split: if_splits)

lemma spend_change_moves:
  assumes "spend_change rq r r'"
  shows "moves (OpSpend rq) (rq_key rq) r r'"
proof -
  let ?i = "unat (rq_offset rq)" and ?sl = "new_spent (rq_hash rq) (rq_data rq)"
  have c: "?i < length (sr_slots r)" "rq_data rq \<noteq> FROZEN_DATA"
    "judge_slot (sr_slots r ! ?i) (rq_offset rq) (rq_hash rq) (rq_data rq) (rq_height rq) = SpendSlot"
    "sr_slots r' = (sr_slots r)[?i := ?sl]" "sr_cold r' = sr_cold r"
    and m: "same_header (sr_meta r) (sr_meta r')" "unat (spent_utxos (sr_meta r')) \<le> Suc (unat (spent_utxos (sr_meta r)))"
    using assms unat_inc [of "spent_utxos (sr_meta r)"] by (auto simp: spend_change_def)
  have "moves (OpSpend rq) (rq_key rq) r (r\<lparr>sr_slots := (sr_slots r)[?i := ?sl], sr_meta := sr_meta r'\<rparr>)"
    by (rule moves_slot) (use c m in \<open>auto intro: slot_move.spends simp: settled_images unsettled(1) [OF judged_unspent]\<close>)
  then show ?thesis using with_parts [OF c(4,5)] by simp
qed

lemma spend_moves: "at R V I {} s \<Longrightarrow> safe (ends R V (rq_key rq) (moves (OpSpend rq) (rq_key rq))) (spend rq) s"
  unfolding safe_def by (rule ends_mono [OF spend_safe [unfolded safe_def]]) (assumption, rule spend_change_moves)

lemma owned_settled: "caller_owns_spend sl dat \<Longrightarrow> is_settled sl"
  by (simp add: caller_owns_spend_def is_settled_def)

lemma unspend_change_moves:
  assumes "unspend_change rq r r'"
  shows "moves (OpUnspend rq) (uq_key rq) r r'"
proof (cases "caller_owns_spend (sr_slots r ! unat (uq_offset rq)) (uq_data rq)")
  case True
  let ?i = "unat (uq_offset rq)" and ?sl = "new_unspent (uq_hash rq)"
  have c: "?i < length (sr_slots r)" "sr_cold r' = sr_cold r" "same_header (sr_meta r) (sr_meta r')"
    "slot_hash (sr_slots r ! ?i) = uq_hash rq" "spent_utxos (sr_meta r) \<noteq> 0" "sr_slots r' = (sr_slots r)[?i := ?sl]"
    "spent_utxos (sr_meta r') = spent_utxos (sr_meta r) - 1"
    using assms True by (simp_all add: unspend_change_def Let_def)
  have "moves (OpUnspend rq) (uq_key rq) r (r\<lparr>sr_slots := (sr_slots r)[?i := ?sl], sr_meta := sr_meta r'\<rparr>)"
    by (rule moves_slot)
      (use c True unat_dec [OF c(5)] in \<open>auto intro: slot_move.unspends simp: settled_images owned_settled\<close>)
  then show ?thesis using with_parts [OF c(6,2)] by simp
next
  case False
  then have "quiet r r'" using assms by (simp add: unspend_change_def Let_def quiet_def same_identity_def same_header_def)
  then show ?thesis by (rule moves_quiet)
qed

lemma unspend_torn_evolves:
  assumes "unspend_torn rq r r'"
  shows "evolves (OpUnspend rq) (uq_key rq) r r'"
proof -
  let ?ss = "(sr_slots r)[unat (uq_offset rq) := new_unspent (uq_hash rq)]"
  have t: "unat (uq_offset rq) < length (sr_slots r)" "caller_owns_spend (sr_slots r ! unat (uq_offset rq)) (uq_data rq)"
    "slot_hash (sr_slots r ! unat (uq_offset rq)) = uq_hash rq" "r' = r\<lparr>sr_slots := ?ss\<rparr>"
    using assms by (simp_all add: unspend_torn_def Let_def)
  have "evolves (OpUnspend rq) (uq_key rq) r (r\<lparr>sr_slots := ?ss, sr_meta := sr_meta r\<rparr>)"
    by (rule evolves_slot [OF t(1) slot_move.unspends [OF t(2,3)]]) simp
  then show ?thesis using t(4) by simp
qed

lemma safe_persist_unspend_any:
  assumes at: "at R V1 I {} s" and e: "I (uq_key rq) = Some e" and v: "V1 (uq_key rq) = Some (r, ls)"
    and hd: "same_header (sr_meta r) m"
    and P1: "\<And>s'. at R V1 I {} s' \<Longrightarrow> P s'"
    and P2: "\<And>s'. at R (V1(uq_key rq \<mapsto> (r\<lparr>sr_slots := (sr_slots r)[unat (uq_offset rq) := sl]\<rparr>, ls))) I {} s' \<Longrightarrow> P s'"
    and k: "\<And>s'. at R (V1(uq_key rq \<mapsto> (r\<lparr>sr_meta := m\<rparr>, ls))) I {} s' \<Longrightarrow> safe P k s'"
  shows "safe P (sq (persist_unspend e rq sl owns m) k) s"
proof -
  have revert: "wp (write_slot_fast (ie_device e) (ie_offset e) (uq_offset rq) sl)
      (\<lambda>_. wp (note_all_spent (uq_key rq) (ie_mined_slot e) b) (\<lambda>_. P) (\<lambda>_. P))
      (\<lambda>_. wp (sq poison_all_redo_logs (throw StorageError)) (\<lambda>_. P) (\<lambda>_. P)) s1" if "at R V1 I {} s1" for s1 b
    apply (rule wp_write_slot [OF that e v])
     apply (rule wp_noncore [OF noncore_note_all_spent], assumption, erule P2, erule P2)
    apply (rule wp_noncore, intro noncore, assumption, erule P1, erule P1)
    done
  show ?thesis
    unfolding safe_wp wp persist_unspend_def
    apply (rule wp_write_metadata [OF at e v same_claims_meta [OF hd]])
     apply (use k in \<open>simp add: safe_wp wp\<close>)
    apply (use revert P1 in \<open>simp add: wp\<close>)
    done
qed

lemma evolves_header: "same_header (sr_meta r) m \<Longrightarrow> evolves op key r (r\<lparr>sr_meta := m\<rparr>)"
  by (simp add: evolves_def same_identity_def same_header_def slot_move.stays)

lemma unspend_recount_evolves:
  assumes at: "at R (V(uq_key rq \<mapsto> (r1, ls))) I {} s" and e: "I (uq_key rq) = Some e" and v: "V (uq_key rq) = Some (r, ls)"
    and i: "unat (uq_offset rq) < length (sr_slots r)" and sl: "sl = sr_slots r ! unat (uq_offset rq)"
    and h: "slot_hash sl = uq_hash rq"
    and r1: "r1 = (if caller_owns_spend sl (uq_data rq)
      then r\<lparr>sr_slots := (sr_slots r)[unat (uq_offset rq) := new_unspent (uq_hash rq)]\<rparr> else r)"
  shows "safe (ends R V (uq_key rq) (evolves (OpUnspend rq) (uq_key rq))) (unspend_recount rq e (sr_meta r) sl) s"
proof -
  let ?P = "ends R V (uq_key rq) (evolves (OpUnspend rq) (uq_key rq))"
  have m1: "sr_meta r1 = sr_meta r" using r1 by simp
  then have r1_id: "r1\<lparr>sr_meta := sr_meta r\<rparr> = r1" by (metis stored_record.surjective stored_record.update_convs(1))
  have evo: "evolves (OpUnspend rq) (uq_key rq) r (r1\<lparr>sr_meta := m\<rparr>)" if "same_header (sr_meta r) m" for m
  proof (cases "caller_owns_spend sl (uq_data rq)")
    case True
    have "slot_move (OpUnspend rq) (uq_key rq) (unat (uq_offset rq)) (sr_slots r ! unat (uq_offset rq)) (new_unspent (uq_hash rq))"
      by (rule slot_move.unspends) (use True h sl in auto)
    from evolves_slot [OF i this that] show ?thesis using r1 True by simp
  qed (use r1 evolves_header [OF that] in simp)
  have rev: "r1\<lparr>sr_slots := (sr_slots r1)[unat (uq_offset rq) := sl]\<rparr> = r" using r1 sl by simp
  have P1: "?P s'" if "at R (V(uq_key rq \<mapsto> (r1, ls))) I {} s'" for s'
    by (rule ends_put [OF that v]) (use evo [OF same_header_refl] in \<open>simp only: r1_id\<close>)
  have P2: "?P s'" if "at R (V(uq_key rq \<mapsto> (r1, ls), uq_key rq \<mapsto> (r1\<lparr>sr_meta := m\<rparr>, ls))) I {} s'"
    and "same_header (sr_meta r) m" for s' m
    by (rule ends_put2 [OF that(1) v]) (rule evo [OF that(2)])
  have P3: "?P s'" if "at R (V(uq_key rq \<mapsto> (r1, ls),
      uq_key rq \<mapsto> (r1\<lparr>sr_slots := (sr_slots r1)[unat (uq_offset rq) := sl]\<rparr>, ls))) I {} s'" for s'
    by (rule ends_put2 [OF that v]) (simp only: rev evolves_refl)
  show ?thesis
    unfolding unspend_recount_def Let_def
    apply (rule safe_gets)
    apply (rule safe_sq_noncore [OF at], intro noncore, erule P1)
    apply (rule safe_bnd_noncore, assumption, rule noncore_entries_at, erule P1)
    apply (split prod.split, intro allI impI)
    apply (rule safe_evaluate, assumption, erule P1)
    unfolding unspend_finish_def Let_def prod.case
    apply (subst sq_def, rule safe_noncore_after)
     apply (split if_split, intro conjI impI)
      apply (rule safe_persist_unspend_any, assumption, rule e, simp)
         apply (subst m1, erule same_header_patched, simp add: same_header_def touched_def)
        apply (erule P1)
       apply (erule P3)
      apply (rule safe_noncore, assumption, intro noncore)
      apply (erule P2, erule same_header_patched, simp add: same_header_def touched_def)
     apply (rule safe_ret, erule P1)
    apply (intro noncore)
    done
qed

lemma unspend_recount_stays:
  assumes "at R V I {} s" "I (uq_key rq) = Some e" "V (uq_key rq) = Some (r, ls)"
    "unat (uq_offset rq) < length (sr_slots r)" "sl = sr_slots r ! unat (uq_offset rq)" "slot_hash sl = uq_hash rq"
    "\<not> caller_owns_spend sl (uq_data rq)"
  shows "safe (ends R V (uq_key rq) (evolves (OpUnspend rq) (uq_key rq))) (unspend_recount rq e (sr_meta r) sl) s"
  using unspend_recount_evolves [of R V rq r ls I s e r sl] assms by (simp add: fun_upd_idem)

lemma unspend_evolves:
  assumes at: "at R V I {} s"
  shows "safe (ends R V (uq_key rq) (evolves (OpUnspend rq) (uq_key rq))) (unspend rq) s"
  unfolding unspend_def Let_def
  apply (rule safe_sq_noncore [OF at noncore_observe], erule ends_same)
  apply (rule safe_lookup, assumption, erule ends_same)
  apply (rule safe_read_metadata, assumption+, erule ends_same)
  apply (rule safe_fail_if, erule ends_same)
  apply (rule safe_read_slot, assumption+, erule ends_same)
  apply (rule safe_fail_if, erule ends_same)
  apply (rule safe_fail_if, erule ends_same)
  apply (rule safe_fail_if, erule ends_same)
  unfolding unspend_apply_def Let_def
  apply (rule safe_fail_if, erule ends_same)
  apply (split if_split, intro conjI impI)
   apply (rule safe_write_slot, assumption+, erule ends_same)
   apply (rule unspend_recount_evolves, assumption, assumption, assumption, assumption, rule refl, simp, simp)
  apply (rule safe_sq_noncore, assumption, rule noncore_ret, erule ends_same)
  apply (rule unspend_recount_stays, assumption+, rule refl, simp, assumption)
  done

section \<open>Pruning\<close>

lemma prune_recount_moves:
  assumes at: "at R (V(key \<mapsto> (r1, ls))) I {} s" and e: "I key = Some e" and v: "V key = Some (r, ls)"
    and m: "sr_meta r1 = sr_meta r"
    and mv: "\<And>m. same_header (sr_meta r) m \<Longrightarrow> unat (spent_utxos m) \<le> unat (spent_utxos (sr_meta r)) \<Longrightarrow> P r (r1\<lparr>sr_meta := m\<rparr>)"
  shows "safe (ends R V key P) (prune_recount key e (sr_meta r)) s"
proof -
  have P1: "ends R V key P s'" if "at R (V(key \<mapsto> (r1, ls))) I {} s'" for s'
    by (rule ends_put [OF that v]) (use mv [of "sr_meta r"] m [symmetric] in simp)
  show ?thesis
    unfolding prune_recount_def Let_def
    apply (rule safe_fail_if, rule P1 [OF at])
    apply (rule safe_fail_if, rule P1 [OF at])
    apply (rule safe_gets)
    apply (rule safe_sq_noncore [OF at], intro noncore, erule P1)
    apply (rule safe_bnd_noncore, assumption, rule noncore_entries_at, erule P1)
    apply (split prod.split, intro allI impI)
    apply (rule safe_gets)
    apply (rule safe_bnd_noncore, assumption, rule noncore_lift_sum, erule P1)
    apply (split prod.split, intro allI impI)
    apply (rule safe_sq_noncore, assumption, rule noncore_note_patch, erule P1)
    apply (rule safe_write_metadata, assumption, rule e, simp)
      apply (rule same_claims_meta)
      apply (simp add: m same_header_def touched_def apply_dah_patch_def split: option.split)
     apply (erule P1)
    apply (rule safe_noncore, assumption, intro noncore)
    apply (erule ends_put2, rule v)
    apply (rule mv)
     apply (simp add: same_header_def touched_def apply_dah_patch_def split: option.split)
    apply (use unat_dec [of "spent_utxos (sr_meta r)"] in \<open>simp add: touched_def apply_dah_patch_def split: option.split\<close>)
    done
qed

lemma prune_locked_moves:
  assumes at: "at R V I {} s"
  shows "safe (ends R V key (moves (OpPruneChild key off child) key)) (prune_locked key off child) s"
  unfolding prune_locked_def safe_bnd [of _ "lookup_checked key"]
  apply (rule wp_lookup_checked [OF at])
   apply (simp add: safe_ret ends_same [OF at])
  apply simp
  apply (rule safe_read_metadata [OF at], assumption+, erule ends_same)
  apply (split if_split, intro conjI impI)
   apply (rule safe_ret, erule ends_same)
  apply (rule safe_read_slot, assumption+, erule ends_same)
  apply (split if_split, intro conjI impI)
   apply (rule safe_ret, erule ends_same)
  apply (rule safe_write_slot, assumption+, erule ends_same)
  apply (subst sq_def, rule safe_noncore_after)
   apply (rule prune_recount_moves, assumption+, simp)
   apply (rule moves_slot, assumption)
     apply (rule slot_move.prunes_child, simp)
    apply assumption
   apply (simp add: spent_by_child_def is_settled_def)
  apply (intro noncore)
  done

lemma prune_slot_moves:
  assumes at: "at R V I {} s"
  shows "safe (ends R V key (moves (OpPruneSlot key off) key)) (prune_slot key off) s"
  unfolding prune_slot_def safe_bnd [of _ "lookup_checked key"]
  apply (rule wp_lookup_checked [OF at])
   apply (simp add: safe_ret ends_same [OF at])
  apply simp
  apply (rule safe_read_metadata [OF at], assumption+, erule ends_same)
  apply (split if_split, intro conjI impI)
   apply (rule safe_ret, erule ends_same)
  apply (rule safe_read_slot, assumption+, erule ends_same)
  apply (split if_split, intro conjI impI)
   apply (rule safe_ret, erule ends_same)
  apply (rule safe_write_slot, assumption+, erule ends_same)
  apply (rule safe_ret)
  apply (erule ends_put, assumption)
  apply (rule moves_slot_only, assumption)
   apply (rule slot_move.prunes)
  apply (simp add: settled_images)
  done

end
