(* ===== verification/Engine_Batch.thy ===== *)
theory Engine_Batch
  imports Engine_Moves
begin

text \<open>
  The batch spend: the accepted items of a batch address distinct unspent outputs, and what is written
  is a prefix of them, counted only when all of them are.
\<close>

section \<open>Writing several slots\<close>

abbreviation put_items :: "(u32 \<times> utxo_slot) list \<Rightarrow> utxo_slot list \<Rightarrow> utxo_slot list" where
  "put_items muts ss \<equiv> fold (\<lambda>(vout, sl) ss. ss[unat vout := sl]) muts ss"

lemma length_put_items [simp]: "length (put_items xs ss) = length ss"
  by (induction xs arbitrary: ss) auto

lemma overlay_items: "overlay m xs r = r\<lparr>sr_slots := put_items xs (sr_slots r), sr_meta := m\<rparr>"
  by (rule stored_record.equality) (simp_all add: overlay_def)

lemma find_rev: "find P (rev xs) = Some x \<Longrightarrow> x \<in> set xs \<and> P x"
  by (metis find_Some_iff nth_mem set_rev)

lemma nth_put_items:
  "i < length ss \<Longrightarrow> put_items xs ss ! i = (case find (\<lambda>(off, _). unat off = i) (rev xs) of Some (_, sl) \<Rightarrow> sl | None \<Rightarrow> ss ! i)"
  by (induction xs rule: rev_induct) (auto simp: nth_list_update split: option.split)

lemma put_items_idem: "put_items xs (put_items xs ss) = put_items xs ss"
  by (rule nth_equalityI) (auto simp: nth_put_items split: option.split)

section \<open>Accepted items\<close>

definition accepts :: "spend_multi_request \<Rightarrow> utxo_slot list \<Rightarrow> u32 \<times> utxo_slot \<Rightarrow> bool" where
  "accepts rq ss x \<longleftrightarrow> (\<exists>it \<in> set (mr_spends rq). x = (si_offset it, new_spent (si_hash it) (si_data it)) \<and>
    unat (si_offset it) < length ss \<and> si_data it \<noteq> FROZEN_DATA \<and>
    judge_slot (ss ! unat (si_offset it)) (si_offset it) (si_hash it) (si_data it) (mr_height rq) = SpendSlot)"

definition accepted :: "spend_multi_request \<Rightarrow> utxo_slot list \<Rightarrow> (u32 \<times> utxo_slot) list \<Rightarrow> bool" where
  "accepted rq ss xs \<longleftrightarrow> distinct (map fst xs) \<and> (\<forall>x \<in> set xs. accepts rq ss x)"

lemma accepts_slot:
  assumes "accepts rq ss (off, sl)"
  shows "unat off < length ss" "is_settled sl" "\<not> is_settled (ss ! unat off)" "status sl = UTXO_SPENT"
    "slot_move (OpSpendMulti rq) (mr_key rq) (unat off) (ss ! unat off) sl"
  using assms unsettled(1) [OF judged_unspent]
  by (auto simp: accepts_def settled_images intro: slot_move.spends_item)

lemma put_items_moves:
  assumes "\<forall>x \<in> set xs. accepts rq ss x" "i < length ss"
  shows "slot_move (OpSpendMulti rq) (mr_key rq) i (ss ! i) (put_items xs ss ! i)"
proof (cases "find (\<lambda>(off, _). unat off = i) (rev xs)")
  case None
  then show ?thesis using assms(2) by (simp add: nth_put_items slot_move.stays)
next
  case (Some x)
  obtain off sl where x: "x = (off, sl)" by force
  then have "(off, sl) \<in> set xs" "unat off = i" using find_rev [OF Some] by auto
  then show ?thesis using accepts_slot(5) [of rq ss off sl] assms Some x by (auto simp: nth_put_items)
qed

lemma settled_put_items:
  assumes "accepted rq ss xs"
  shows "settled (put_items xs ss) = settled ss + length xs"
  using assms
proof (induction xs rule: rev_induct)
  case (snoc x xs)
  obtain off sl where x: "x = (off, sl)" by force
  have acc: "accepted rq ss xs" "accepts rq ss (off, sl)" "off \<notin> fst ` set xs" using snoc.prems x by (auto simp: accepted_def)
  have "find (\<lambda>(o', _). unat o' = unat off) (rev xs) = None"
    using acc(3) by (auto simp: find_None_iff image_iff)
  then have "\<not> is_settled (put_items xs ss ! unat off)" using accepts_slot [OF acc(2)] by (simp add: nth_put_items)
  then show ?case
    using settled_update [of "unat off" "put_items xs ss" sl] accepts_slot [OF acc(2)] snoc.IH [OF acc(1)] x by simp
qed simp

lemma batch_moves:
  assumes acc: "accepted rq (sr_slots r) xs" and hd: "same_header (sr_meta r) m"
    and n: "unat (spent_utxos m) \<le> unat (spent_utxos (sr_meta r)) + length xs"
  shows "moves (OpSpendMulti rq) (mr_key rq) r (r\<lparr>sr_slots := put_items xs (sr_slots r), sr_meta := m\<rparr>)"
  using put_items_moves [of xs rq "sr_slots r"] settled_put_items [OF acc] acc hd n
  by (auto simp: moves_def evolves_def keeps_count_def counted_def same_identity_def same_header_def accepted_def)

section \<open>Preparing\<close>

lemma judge_item_ok:
  assumes at: "at R V I {} s" and e: "I key = Some e" and v: "V key = Some (r, ls)"
    and acc: "accepted rq (sr_slots r) valid" and it: "it \<in> set (mr_spends rq)"
  shows "wp (judge_item (ie_device e) (ie_offset e) m (mr_height rq) valid it)
    (\<lambda>x s'. at R V I {} s' \<and>
      (x = SpendSlot \<longrightarrow> accepted rq (sr_slots r) (valid @ [(si_offset it, new_spent (si_hash it) (si_data it))])))
    (\<lambda>_. at R V I {}) s"
proof -
  consider (refused) "si_data it = FROZEN_DATA \<or> utxo_count m \<le> si_offset it"
    | (held) off prev where "si_data it \<noteq> FROZEN_DATA" "\<not> utxo_count m \<le> si_offset it"
        "find (\<lambda>(off, _). off = si_offset it) (rev valid) = Some (off, prev)"
    | (fresh) "si_data it \<noteq> FROZEN_DATA" "\<not> utxo_count m \<le> si_offset it"
        "find (\<lambda>(off, _). off = si_offset it) (rev valid) = None"
    by (cases "find (\<lambda>(off, _). off = si_offset it) (rev valid)") auto
  then show ?thesis
  proof cases
    case refused
    then show ?thesis using at by (auto simp: judge_item_def wp)
  next
    case held
    then have "(off, prev) \<in> set valid" using find_rev [OF held(3)] by blast
    then have "status prev = UTXO_SPENT" using acc accepts_slot(4) by (auto simp: accepted_def)
    then have "judge_slot prev (si_offset it) (si_hash it) (si_data it) (mr_height rq) \<noteq> SpendSlot"
      using judged_unspent [of prev "si_offset it" "si_hash it" "si_data it" "mr_height rq"] by (auto simp: record_consts)
    then show ?thesis using at held by (simp add: judge_item_def wp)
  next
    case fresh
    then have new: "si_offset it \<notin> fst ` set valid" by (auto simp: find_None_iff)
    have "wp (read_slot_fast (ie_device e) (ie_offset e) (si_offset it))
        (\<lambda>sl s'. at R V I {} s' \<and> (judge_slot sl (si_offset it) (si_hash it) (si_data it) (mr_height rq) = SpendSlot \<longrightarrow>
          accepted rq (sr_slots r) (valid @ [(si_offset it, new_spent (si_hash it) (si_data it))]))) (\<lambda>_. at R V I {}) s"
      by (rule wp_read_slot [OF at e v]) (use fresh(1) new acc it in \<open>auto simp: accepted_def accepts_def\<close>)
    then show ?thesis using fresh by (simp add: judge_item_def wp)
  qed
qed

lemma prepare_items_ok:
  assumes "at R V I {} s" and e: "I key = Some e" and v: "V key = Some (r, ls)"
    and "accepted rq (sr_slots r) valid" "spent = of_nat (length valid)" "set items \<subseteq> set (mr_spends rq)"
  shows "wp (prepare_items (ie_device e) (ie_offset e) m (mr_height rq) items (valid, errs, spent, idem))
    (\<lambda>(xs, errs, n, idem) s'. at R V I {} s' \<and> accepted rq (sr_slots r) xs \<and> n = of_nat (length xs)) (\<lambda>_. at R V I {}) s"
  using assms(1,4-)
proof (induction items arbitrary: valid errs spent idem s)
  case Nil
  then show ?case by (simp add: wp)
next
  case (Cons it items)
  show ?case
    unfolding prepare_items.simps wp_bnd
  proof (rule wp_mono [OF judge_item_ok [OF Cons.prems(1) e v Cons.prems(2)]], goal_cases)
    case 1
    then show ?case using Cons.prems(4) by simp
  next
    case (2 x s1)
    then have a: "at R V I {} s1" by blast
    note IH = Cons.IH [OF a]
    show ?case
    proof (cases x)
      case SpendSlot
      then show ?thesis using 2 IH [of "valid @ [(si_offset it, new_spent (si_hash it) (si_data it))]"] Cons.prems
        by (simp add: add.commute)
    next
      case Respend
      have "wp (child_deleted (ie_device e) m (si_data it)) (\<lambda>_. at R V I {}) (\<lambda>_. at R V I {}) s1"
        by (rule wp_noncore [OF noncore_child_deleted a])
      then show ?thesis using Respend Cons.IH Cons.prems
        by (simp add: wp_bnd) (erule wp_mono, auto)
    next
      case (Refuse er)
      then show ?thesis using IH Cons.prems by simp
    qed
  qed
qed

section \<open>Applying\<close>

lemma unat_add_le: "unat (a + b :: u32) \<le> unat a + unat b"
  by (simp add: unat_word_ariths)

lemma unat_of_nat_le: "unat (of_nat n :: u32) \<le> n"
  by (simp add: unsigned_of_nat)

text \<open>Between the choice of the write path and the write itself nothing touches the store.\<close>

lemma safe_bnd_core:
  assumes "noncore m" "core s = c" "\<And>s'. core s' = c \<Longrightarrow> P s'" "\<And>x s'. core s' = c \<Longrightarrow> safe P (k x) s'"
  shows "safe P (bnd m k) s"
  unfolding safe_bnd by (rule wp_core [OF assms(1)]) (use assms(2-4) in auto)

lemma safe_sq_core:
  assumes "noncore m" "core s = c" "\<And>s'. core s' = c \<Longrightarrow> P s'" "\<And>s'. core s' = c \<Longrightarrow> safe P k s'"
  shows "safe P (sq m k) s"
  unfolding sq_def by (rule safe_bnd_core [OF assms(1,2)]) (rule assms(3,4), assumption)+

lemma safe_evaluate_core:
  assumes "core s = c" "\<And>s'. core s' = c \<Longrightarrow> P s'"
    "\<And>sig patch m2 s'. core s' = c \<Longrightarrow> patched_from m m2 \<Longrightarrow> safe P (k (sig, patch, m2)) s'"
  shows "safe P (bnd (evaluate_patched key slot m hb um h rt) k) s"
  unfolding evaluate_patched_def Let_def
  using assms
  by (auto simp: safe_wp wp patched_from_flags apply_dah_patch_from split: option.split sum.split)

lemma safe_persist_batch:
  assumes at: "at R V1 I {} s" and e: "I key = Some e" and v: "V1 key = Some (r1, ls)" and hd: "same_header (sr_meta r1) m"
    and done_: "\<not> is_log_structured (en_alloc s (ie_device e)) \<Longrightarrow> put_items xs (sr_slots r1) = sr_slots r1"
    and P1: "\<And>s'. at R V1 I {} s' \<Longrightarrow> P s'"
    and P2: "\<And>s' I'. at R (V1(key \<mapsto> (overlay m xs r1, ls))) I' {} s' \<Longrightarrow> P s'"
    and nc: "noncore k"
  shows "safe P (sq (persist_spend (ie_device e) (ie_offset e) key m xs False) k) s"
proof (cases "is_log_structured (en_alloc s (ie_device e))")
  case True
  have "safe P (sq (relocate_record (ie_device e) key m xs) k) s"
    by (rule safe_relocate [OF at e v same_claims_overlay [OF hd] P1 P2 safe_noncore [OF _ nc P2]])
  then show ?thesis using True by (simp add: persist_spend_def safe_wp wp)
next
  case False
  have ov: "overlay m xs r1 = r1\<lparr>sr_meta := m\<rparr>" using done_ [OF False] by (simp add: overlay_items)
  have "safe P (sq (write_metadata_fast (ie_device e) (ie_offset e) m) k) s"
    by (rule safe_write_metadata [OF at e v same_claims_meta [OF hd] P1 safe_noncore [OF _ nc P2 [unfolded ov]]])
  then show ?thesis using False by (simp add: persist_spend_def safe_wp wp)
qed

lemma safe_count_batch:
  assumes at: "at R V1 I {} s" and e: "I (mr_key rq) = Some e" and v1: "V1 (mr_key rq) = Some (r1, ls)"
    and V1: "V1 = V(mr_key rq \<mapsto> (r1, ls))" and v: "V (mr_key rq) = Some (r, ls)"
    and p: "ps_key p = mr_key rq" "ps_meta p = sr_meta r" "ps_device p = ie_device e" "ps_offset p = ie_offset e"
      "accepted rq (sr_slots r) (ps_valid p)" "ps_spent_count p = of_nat (length (ps_valid p))"
    and m1: "sr_meta r1 = sr_meta r" and c1: "sr_cold r1 = sr_cold r"
    and s1: "put_items (ps_valid p) (sr_slots r1) = put_items (ps_valid p) (sr_slots r)"
    and done_: "\<not> is_log_structured (en_alloc s (ie_device e)) \<Longrightarrow> put_items (ps_valid p) (sr_slots r1) = sr_slots r1"
    and P1: "\<And>s'. at R V1 I {} s' \<Longrightarrow> ends R V (mr_key rq) (moves (OpSpendMulti rq) (mr_key rq)) s'"
  shows "safe (ends R V (mr_key rq) (moves (OpSpendMulti rq) (mr_key rq))) (count_batch p False) s"
proof -
  let ?P = "ends R V (mr_key rq) (moves (OpSpendMulti rq) (mr_key rq))"
  have PC: "?P s'" if "core s' = core s" for s' by (rule P1 [OF at_core [OF at that]])
  have fin: "?P s'" if a: "at R (V1(mr_key rq \<mapsto> (overlay m2 (ps_valid p) r1, ls))) I' {} s'"
    and pf: "patched_from (touched now ((sr_meta r)\<lparr>spent_utxos := n\<rparr>)) m2"
    and n: "checked_add (spent_utxos (sr_meta r)) (ps_spent_count p) = Some n" for s' I' m2 now n
  proof -
    have "unat n \<le> unat (spent_utxos (sr_meta r)) + length (ps_valid p)"
      using n p(6) unat_add_le [of "spent_utxos (sr_meta r)" "ps_spent_count p"] unat_of_nat_le [of "length (ps_valid p)"]
      by (simp add: checked_add_def split: if_splits)
    then have "moves (OpSpendMulti rq) (mr_key rq) r (r\<lparr>sr_slots := put_items (ps_valid p) (sr_slots r), sr_meta := m2\<rparr>)"
      by (intro batch_moves p(5)) (use counted_header [OF pf] in simp_all)
    moreover have "overlay m2 (ps_valid p) r1 = r\<lparr>sr_slots := put_items (ps_valid p) (sr_slots r), sr_meta := m2\<rparr>"
      using s1 c1 by (simp add: overlay_items)
    ultimately have "moves (OpSpendMulti rq) (mr_key rq) r (overlay m2 (ps_valid p) r1)" by simp
    then show ?thesis by (rule ends_put2 [OF a [unfolded V1] v])
  qed
  show ?thesis
    unfolding count_batch_def Let_def p(1-4)
    apply (split option.split, intro conjI impI allI)
     apply (rule safe_throw, rule P1 [OF at])
    apply (rule safe_fail_if, rule P1 [OF at])
    apply (rule safe_gets)
    apply (rule safe_sq_core [OF _ refl], intro noncore, erule PC)
    apply (rule safe_bnd_core [OF noncore_entries_at], assumption, erule PC)
    apply (split prod.split, intro allI impI)
    apply (rule safe_evaluate_core, assumption, erule PC)
    apply (simp only: prod.case)
    apply (rule safe_persist_batch, rule at_core [OF at], assumption, rule e, rule v1)
        apply (simp only: m1, erule counted_header)
       apply (rule done_, simp add: core_def)
      apply (erule P1)
     apply (erule fin, assumption, assumption)
    apply (intro noncore)
    done
qed

lemma safe_each_write:
  assumes "at R (V(key \<mapsto> (r\<lparr>sr_slots := ss\<rparr>, ls))) I {} s" and e: "I key = Some e"
    and "\<And>xs ys s'. zs = xs @ ys \<Longrightarrow> at R (V(key \<mapsto> (r\<lparr>sr_slots := put_items xs ss\<rparr>, ls))) I {} s' \<Longrightarrow> P s'"
    and "\<And>s'. at R (V(key \<mapsto> (r\<lparr>sr_slots := put_items zs ss\<rparr>, ls))) I {} s' \<Longrightarrow> safe P k s'"
  shows "safe P (sq (each (\<lambda>(off, sl). write_slot_fast (ie_device e) (ie_offset e) off sl) zs) k) s"
  using assms(1,3,4)
proof (induction zs arbitrary: ss s)
  case Nil
  then show ?case by (simp add: safe_wp wp)
next
  case (Cons z zs)
  obtain off sl where z: "z = (off, sl)" by force
  have "safe P (sq (write_slot_fast (ie_device e) (ie_offset e) off sl)
      (sq (each (\<lambda>(off, sl). write_slot_fast (ie_device e) (ie_offset e) off sl) zs) k)) s"
  proof (rule safe_write_slot [OF Cons.prems(1) e])
    show "(V(key \<mapsto> (r\<lparr>sr_slots := ss\<rparr>, ls))) key = Some (r\<lparr>sr_slots := ss\<rparr>, ls)" by simp
    show "P s'" if "at R (V(key \<mapsto> (r\<lparr>sr_slots := ss\<rparr>, ls))) I {} s'" for s'
      by (rule Cons.prems(2) [of "[]" "z # zs"]) (use that in \<open>simp_all only: append_Nil fold_Nil id_apply\<close>)
    fix s' assume "at R (V(key \<mapsto> (r\<lparr>sr_slots := ss\<rparr>, ls), key \<mapsto>
        (r\<lparr>sr_slots := ss, sr_slots := (sr_slots (r\<lparr>sr_slots := ss\<rparr>))[unat off := sl]\<rparr>, ls))) I {} s'"
    then have a: "at R (V(key \<mapsto> (r\<lparr>sr_slots := ss[unat off := sl]\<rparr>, ls))) I {} s'" unfolding fun_upd_upd by simp
    have step: "put_items (z # xs) ss = put_items xs (ss[unat off := sl])" for xs using z by simp
    show "safe P (sq (each (\<lambda>(off, sl). write_slot_fast (ie_device e) (ie_offset e) off sl) zs) k) s'"
    proof (rule Cons.IH [OF a])
      show "P s2" if "zs = xs @ ys" "at R (V(key \<mapsto> (r\<lparr>sr_slots := put_items xs (ss[unat off := sl])\<rparr>, ls))) I {} s2" for xs ys s2
        by (rule Cons.prems(2) [of "z # xs" ys]) (use that in \<open>simp_all only: step append_Cons\<close>)
    qed (rule Cons.prems(3), simp only: step)
  qed
  then show ?case using z by (simp add: safe_wp wp)
qed

lemma apply_locked_moves:
  assumes at: "at R V I {} s" and e: "I (mr_key rq) = Some e" and v: "V (mr_key rq) = Some (r, ls)"
    and p: "ps_key p = mr_key rq" "ps_meta p = sr_meta r" "ps_device p = ie_device e" "ps_offset p = ie_offset e"
      "accepted rq (sr_slots r) (ps_valid p)" "ps_spent_count p = of_nat (length (ps_valid p))"
  shows "safe (ends R V (mr_key rq) (moves (OpSpendMulti rq) (mr_key rq))) (apply_locked p False) s"
proof -
  let ?P = "ends R V (mr_key rq) (moves (OpSpendMulti rq) (mr_key rq))"
  let ?r1 = "r\<lparr>sr_slots := put_items (ps_valid p) (sr_slots r)\<rparr>"
  have pre: "?P s'" if "ps_valid p = xs @ ys" "at R (V(mr_key rq \<mapsto> (r\<lparr>sr_slots := put_items xs (sr_slots r)\<rparr>, ls))) I {} s'" for xs ys s'
  proof (rule ends_put [OF that(2) v])
    have "accepted rq (sr_slots r) xs" using p(5) that(1) by (auto simp: accepted_def)
    from batch_moves [OF this same_header_refl]
    show "moves (OpSpendMulti rq) (mr_key rq) r (r\<lparr>sr_slots := put_items xs (sr_slots r)\<rparr>)" by simp
  qed
  have direct: "safe ?P (count_batch p False) s" if "is_log_structured (en_alloc s (ie_device e))"
  proof (rule safe_count_batch [where V = V, OF at e v])
    show "V = V(mr_key rq \<mapsto> (r, ls))" using v by (simp add: fun_upd_idem)
  qed (use that v p in \<open>auto intro: ends_same\<close>)
  have written: "safe ?P (count_batch p False) s'" if a: "at R (V(mr_key rq \<mapsto> (?r1, ls))) I {} s'" for s'
  proof (rule safe_count_batch [where V = V, OF a e])
    show "V(mr_key rq \<mapsto> (?r1, ls)) = V(mr_key rq \<mapsto> (?r1, ls))" by (rule refl)
    show "?P s2" if "at R (V(mr_key rq \<mapsto> (?r1, ls))) I {} s2" for s2
      by (rule pre [of "ps_valid p" "[]"]) (use that in simp_all)
  qed (use v p in \<open>simp_all add: put_items_idem\<close>)
  have "safe ?P (sq (each (\<lambda>(off, sl). write_slot_fast (ie_device e) (ie_offset e) off sl) (ps_valid p)) (count_batch p False)) s"
  proof (rule safe_each_write [where ss = "sr_slots r" and r = r and V = V and key = "mr_key rq" and ls = ls and I = I and R = R])
    show "at R (V(mr_key rq \<mapsto> (r\<lparr>sr_slots := sr_slots r\<rparr>, ls))) I {} s" using at v by (simp add: fun_upd_idem)
  qed (rule e, rule pre, assumption+, erule written)
  then show ?thesis
    unfolding apply_locked_def Let_def p(3,4)
    using direct ends_same [OF at] by (auto simp: safe_wp wp)
qed

lemma prepare_ok:
  assumes at: "at R V I {} s"
  shows "wp (prepare_spend_multi rq) (\<lambda>p s'. at R V I {} s' \<and> (\<exists>e r ls. I (mr_key rq) = Some e \<and> V (mr_key rq) = Some (r, ls) \<and>
      ps_key p = mr_key rq \<and> ps_meta p = sr_meta r \<and> ps_device p = ie_device e \<and> ps_offset p = ie_offset e \<and>
      accepted rq (sr_slots r) (ps_valid p) \<and> ps_spent_count p = of_nat (length (ps_valid p)))) (\<lambda>_. at R V I {}) s"
    (is "wp _ ?Q _ _")
  unfolding prepare_spend_multi_def Let_def wp_bnd
proof (rule wp_lookup_or [OF at], goal_cases)
  case (1 e)
  obtain r ls where v: "V (mr_key rq) = Some (r, ls)" using at_indexed [OF at 1] by blast
  show ?case
    apply (rule wp_read_metadata [OF at 1 v])
     apply (simp only: wp_sq)
     apply (rule wp_noncore [OF noncore_guards], assumption)
      apply (simp only: wp_bnd)
      apply (rule wp_mono, rule prepare_items_ok, assumption, rule 1, rule v)
          apply (simp add: accepted_def)
         apply simp
        apply simp
       apply (clarsimp simp only: prod.case wp_bnd)
       apply (rule wp_noncore [OF noncore_entries_at], assumption)
        apply (use 1 v in \<open>auto simp: wp_ret\<close>)
    done
qed (rule at)

lemma spend_multi_moves:
  assumes at: "at R V I {} s"
  shows "safe (ends R V (mr_key rq) (moves (OpSpendMulti rq) (mr_key rq))) (spend_multi rq) s"
  unfolding spend_multi_def
  apply (rule safe_sq_noncore [OF at noncore_observe], erule ends_same)
  apply (subst safe_bnd, rule wp_mono, erule prepare_ok)
   apply (elim conjE exE)
   apply (rule safe_noncore_after)
    apply (rule apply_locked_moves; assumption)
   apply (simp add: noncore split: prod.split)
  apply (erule ends_same)
  done

end
