(* ===== verification/Engine_History.thy ===== *)
theory Engine_History
  imports Engine_Batch
begin

text \<open>
  Every operation of the engine as one step of the ledger.  An operation ends, whatever the faults, in a
  well-formed state in which each record is as before, has made the moves of that operation, was removed
  by a delete of its key or was added by a create of its key.
\<close>

section \<open>Quiet steps\<close>

definition hushed :: "(txkey \<Rightarrow> logical option) \<Rightarrow> (txkey \<Rightarrow> logical option) \<Rightarrow> bool" where
  "hushed V V' \<longleftrightarrow> (\<forall>k. rel_option (\<lambda>x y. quiet (fst x) (fst y)) (V k) (V' k))"

definition settles :: "(u8 \<Rightarrow> nat \<Rightarrow> nat) \<Rightarrow> (txkey \<Rightarrow> logical option) \<Rightarrow> engine \<Rightarrow> bool" where
  "settles R V s \<longleftrightarrow> (\<exists>V' I. at R V' I {} s \<and> hushed V V')"

lemma hushed_refl: "hushed V V"
  by (simp add: hushed_def evolves_refl option.rel_refl)

lemma hushed_trans:
  assumes "hushed V V'" "hushed V' V''"
  shows "hushed V V''"
  unfolding hushed_def
proof
  fix k show "rel_option (\<lambda>x y. quiet (fst x) (fst y)) (V k) (V'' k)"
    using assms [unfolded hushed_def, rule_format, of k] by (auto simp: option_rel_Some1 option_rel_Some2 elim!: option.rel_cases intro: quiet_trans)
qed

lemma hushed_put: "V key = Some (r, ls) \<Longrightarrow> quiet r r' \<Longrightarrow> hushed V (V(key \<mapsto> (r', ls')))"
  by (simp add: hushed_def evolves_refl option.rel_refl)

lemma settles_same: "at R V I {} s \<Longrightarrow> settles R V s"
  using hushed_refl settles_def by blast

lemma hushed_upd:
  assumes "upd key quiet V V'"
  shows "hushed V V'"
  unfolding hushed_def
proof
  fix k show "rel_option (\<lambda>x y. quiet (fst x) (fst y)) (V k) (V' k)"
    using assms by (cases "k = key") (auto simp: upd_def evolves_refl option.rel_refl)
qed

lemma settles_ends: "ends R V key quiet s \<Longrightarrow> settles R V s"
  unfolding settles_def ends_def using hushed_upd by blast

lemma with_list_hushed: "V key = Some (r, ls) \<Longrightarrow> with_list key r ls k kids V V' \<Longrightarrow> hushed V V'"
  unfolding with_list_def by (cases k) (auto intro!: hushed_put simp: quiet_def same_identity_def touched_def)

lemma settles_list: "list_outcome R V key k f s \<Longrightarrow> settles R V s"
  unfolding list_outcome_def settles_def
  by (cases "V key") (auto intro: hushed_refl with_list_hushed)

lemma append_settles:
  assumes "settles R V s"
  shows "safe (settles R V) (append_loop k key child (Suc n) logged) s"
proof -
  obtain V' I where at: "at R V' I {} s" and h: "hushed V V'" using assms by (auto simp: settles_def)
  have up: "settles R V s'" if "settles R V' s'" for s' using that h hushed_trans unfolding settles_def by blast
  show ?thesis
    unfolding safe_wp
    by (rule wp_mono [OF append_loop_outcome [OF at]]) (auto simp: unchanged_def intro!: up intro: settles_list settles_same)
qed

lemma remove_settles: "at R V I {} s \<Longrightarrow> safe (settles R V) (remove_loop key child (Suc n) logged) s"
  unfolding safe_wp
  by (rule wp_mono [OF remove_loop_outcome]) (auto simp: unchanged_def intro: settles_list settles_same)

lemma MAX_RETRIES_Suc: "MAX_RETRIES = Suc 15" by (simp add: MAX_RETRIES_def)

lemma children_settle:
  "settles R V s \<Longrightarrow> safe (settles R V) (append_conflicting_child key child) s"
  "settles R V s \<Longrightarrow> safe (settles R V) (append_deleted_child key child) s"
  "at R V I {} s \<Longrightarrow> safe (settles R V) (remove_conflicting_child key child) s"
  unfolding append_conflicting_child_def append_deleted_child_def remove_conflicting_child_def MAX_RETRIES_Suc
  by (erule append_settles remove_settles)+

lemma safe_best_effort: "safe P m s \<Longrightarrow> safe P (best_effort m) s"
  by (simp add: best_effort_def safe_wp wp)

lemma safe_each:
  assumes "P s" "\<And>x s. P s \<Longrightarrow> safe P (f x) s"
  shows "safe P (each f xs) s"
  using assms(1)
proof (induction xs arbitrary: s)
  case (Cons x xs)
  have "wp (f x) (\<lambda>_. P) (\<lambda>_. P) s" using assms(2) [OF Cons.prems] by (simp add: safe_wp)
  then show ?case unfolding each.simps safe_sq by (rule wp_mono) (use Cons.IH in auto)
qed (simp add: safe_ret)

lemma parents_settle:
  "settles R V s \<Longrightarrow> safe (settles R V) (each (\<lambda>p. best_effort (append_conflicting_child p child)) ps) s"
  by (rule safe_each) (auto intro!: safe_best_effort children_settle)

lemma safe_settles_noncore:
  assumes "settles R V s" "noncore m"
  shows "safe (settles R V) m s"
proof -
  obtain V' I where "at R V' I {} s" "hushed V V'" using assms(1) by (auto simp: settles_def)
  then show ?thesis using safe_noncore [OF _ assms(2)] by (metis settles_def)
qed

lemma safe_after: "safe P m s \<Longrightarrow> (\<And>x s'. P s' \<Longrightarrow> safe P (k x) s') \<Longrightarrow> safe P (bnd m k) s"
  unfolding safe_bnd safe_wp [of P m] by (erule wp_mono)

lemma noncore_cold [noncore]: "noncore (parent_txids_for_child blobs sha key)"
  unfolding parent_txids_for_child_def read_cold_data_def read_external_def read_metadata_for_key_def Let_def
  by (intro noncore) (auto simp: noncore split: option.split sum.split)

lemma set_conflicting_settles:
  assumes at: "at R V I {} s"
  shows "safe (settles R V) (set_conflicting blobs sha rq) s"
proof -
  have spread: "safe (settles R V) (append_conflicting_children_from_cold_data blobs sha child) s'" if "settles R V s'" for s' child
    unfolding append_conflicting_children_from_cold_data_def
    by (rule safe_after [OF safe_settles_noncore [OF that]])
      (auto intro: noncore safe_ret parents_settle split: sum.split)
  have "safe (settles R V) (set_conflicting_locked rq) s"
    using set_conflicting_locked_quiet [OF at, of rq] settles_ends by (simp add: safe_def)
  then show ?thesis
    unfolding set_conflicting_def sq_def
    by (rule safe_after) (auto intro!: safe_after safe_ret spread)
qed

section \<open>Steps\<close>

fun rec_step :: "engine_op \<Rightarrow> txkey \<Rightarrow> bool \<Rightarrow> logical option \<Rightarrow> logical option \<Rightarrow> bool" where
  "rec_step op k ok None None = True"
| "rec_step op k ok (Some x) (Some y) = (evolves op k (fst x) (fst y) \<and> (ok \<longrightarrow> keeps_count (fst x) (fst y)))"
| "rec_step op k ok (Some x) None = (\<exists>rq a. op = OpDelete rq a \<and> dl_key rq = k)"
| "rec_step op k ok None (Some y) =
    (\<exists>d rq. op = OpCreate d rq \<and> cr_tx_id rq = k \<and> sr_slots (fst y) = create_slots rq \<and> spent_utxos (sr_meta (fst y)) = 0)"

definition advances :: "(u8 \<Rightarrow> nat \<Rightarrow> nat) \<Rightarrow> (txkey \<Rightarrow> logical option) \<Rightarrow> engine_op \<Rightarrow> bool \<Rightarrow> engine \<Rightarrow> bool" where
  "advances R V op ok s \<longleftrightarrow> (\<exists>V' I. at R V' I {} s \<and> (\<forall>k. rec_step op k ok (V k) (V' k)))"

lemma rec_step_refl: "rec_step op k ok x x"
  by (cases x) (simp_all add: evolves_refl)

lemma rec_step_quiet:
  assumes "rec_step op k ok x y" "rel_option (\<lambda>x y. quiet (fst x) (fst y)) y z"
  shows "rec_step op k ok x z"
  using assms
  by (cases x; cases y; cases z) (auto intro: evolves_quiet keeps_count_quiet, auto simp: quiet_def)

lemma advances_same: "at R V I {} s \<Longrightarrow> advances R V op ok s"
  unfolding advances_def using rec_step_refl by blast

lemma advances_settles:
  assumes "settles R V s"
  shows "advances R V op ok s"
proof -
  obtain V' I where "at R V' I {} s" "hushed V V'" using assms by (auto simp: settles_def)
  then show ?thesis unfolding advances_def hushed_def using rec_step_quiet [OF rec_step_refl] by blast
qed

lemma advances_then:
  assumes "at R V' I {} s" "\<And>k. rec_step op k ok (V k) (V' k)" "settles R V' s'"
  shows "advances R V op ok s'"
proof -
  obtain V'' I' where "at R V'' I' {} s'" "hushed V' V''" using assms(3) by (auto simp: settles_def)
  then show ?thesis unfolding advances_def hushed_def using rec_step_quiet [OF assms(2)] by blast
qed

lemma upd_rec_step:
  assumes "upd key P V V'" "\<And>r r'. P r r' \<Longrightarrow> evolves op key r r' \<and> (ok \<longrightarrow> keeps_count r r')"
  shows "rec_step op k ok (V k) (V' k)"
  using assms by (cases "k = key") (auto simp: upd_def rec_step_refl)

lemma advances_moves: "ends R V key (moves op key) s \<Longrightarrow> advances R V op ok s"
  unfolding ends_def advances_def using upd_rec_step [of key "moves op key"] by (auto simp: moves_def)

lemma advances_evolves: "ends R V key (evolves op key) s \<Longrightarrow> advances R V op False s"
  unfolding ends_def advances_def using upd_rec_step [of key "evolves op key" V _ op False] by auto

section \<open>Deletion\<close>

text \<open>Reads consume device accesses and change nothing else.\<close>

definition io_only :: "'a eng \<Rightarrow> bool" where
  "io_only m \<longleftrightarrow> (\<forall>s. (snd (m s))\<lparr>en_io := []\<rparr> = s\<lparr>en_io := []\<rparr>)"

lemma io_only_pure: "io_only (ret x)" "io_only (throw er)" "io_only (gets f)"
  by (simp_all add: io_only_def ret_def throw_def gets_def)

lemma io_only_bnd: "io_only m \<Longrightarrow> (\<And>x. io_only (k x)) \<Longrightarrow> io_only (bnd m k)"
  by (auto simp: io_only_def bnd_def split: prod.splits sum.splits) (metis snd_conv)+

lemma io_only_attempt: "io_only m \<Longrightarrow> io_only (attempt m)"
  by (auto simp: io_only_def attempt_def split: prod.splits) (metis snd_conv)+

lemma io_only_reads:
  "io_only (fast_io d)" "io_only (read_block d off)" "io_only (lookup_checked key)"
  by (auto simp: io_only_def fast_io_def device_io_def read_block_def lookup_checked_def gets_def
      split: list.splits option.splits device_block.splits)

lemma io_only_read_for_key: "io_only (read_metadata_for_key d key off)"
  unfolding read_metadata_for_key_def read_metadata_fast_def sq_def
  by (intro io_only_bnd io_only_attempt io_only_reads io_only_pure)
    (auto intro!: io_only_bnd io_only_reads io_only_pure split: sum.split option.split)

lemma wp_io_only:
  assumes "wp m Q E s" "io_only m"
  shows "wp m (\<lambda>x s'. Q x s' \<and> s'\<lparr>en_io := []\<rparr> = s\<lparr>en_io := []\<rparr>) E s"
proof -
  obtain r s' where m: "m s = (r, s')" by force
  then have "s'\<lparr>en_io := []\<rparr> = s\<lparr>en_io := []\<rparr>" using assms(2) by (metis io_only_def snd_conv)
  then show ?thesis using assms(1) m by (auto simp: wp_def split: sum.splits)
qed

lemma mined_read_io: "mined_read (s\<lparr>en_io := []\<rparr>) key = mined_read s key"
  by (cases "en_index s key")
    (auto simp: mined_read_def mined_block_entries_def mined_block_entries_at_def lookup_or_not_found_def
      lookup_checked_def bnd_def gets_def ret_def throw_def split: option.split)

lemma due_io: "record_due_for_sweep (s\<lparr>en_io := []\<rparr>) key m h = record_due_for_sweep s key m h"
  unfolding record_due_for_sweep_def mined_read_io by simp

lemma release_safe:
  assumes at: "at R V I {(ie_device e, ie_offset e, R (ie_device e) (unat (record_size m)))} s"
    and P: "\<And>s'. at R V I {} s' \<Longrightarrow> P s'" and k: "\<And>s'. at R V I {} s' \<Longrightarrow> safe P k s'"
  shows "safe P (sq (release_record e m) k) s"
proof -
  let ?x = "(ie_device e, ie_offset e, R (ie_device e) (unat (record_size m)))"
  have weak: "P s'" if "at R V I {?x} s'" for s' by (rule P [OF at_mono [OF that]]) simp
  have fr: "wp (free_region_at (ie_device e) (ie_offset e) (unat (record_size m))) (\<lambda>_. safe P k) (\<lambda>_. P) s'"
    if "at R V I {?x} s'" for s' by (rule wp_free [OF that]) (use P k in auto)
  have sync: "wp (if b then ret () else device_io)
      (\<lambda>_. wp (free_region_at (ie_device e) (ie_offset e) (unat (record_size m))) (\<lambda>_. safe P k) (\<lambda>_. P)) (\<lambda>_. P) s'"
    if "at R V I {?x} s'" for s' b
    by (rule wp_noncore [OF _ that]) (auto intro: noncore fr weak)
  show ?thesis
    unfolding release_record_def write_zeroed_metadata_header_def safe_sq wp_sq wp_bnd put_block_def wp_modify wp_gets
    by (rule wp_fast_io [OF at]) (rule sync, erule at_put_unlinked, simp, erule weak)
qed

lemma noncore_clear [noncore]: "noncore (clear_secondary key e m)" "noncore (record_tombstone rq a g)"
  unfolding clear_secondary_def record_tombstone_def
  by (intro noncore; simp)+ (simp add: core_def split: option.split)

text \<open>A delete leaves the records alone or removes exactly its own, and a guarded one only a record that is due.\<close>

definition removable :: "engine \<Rightarrow> delete_request \<Rightarrow> tx_metadata \<Rightarrow> bool" where
  "removable s rq m \<longleftrightarrow> (case dl_due_guard rq of None \<Rightarrow> True | Some h \<Rightarrow> write_healthy s \<and> record_due_for_sweep s (dl_key rq) m h)"

definition delete_ends :: "(u8 \<Rightarrow> nat \<Rightarrow> nat) \<Rightarrow> (txkey \<Rightarrow> logical option) \<Rightarrow> delete_request \<Rightarrow> engine \<Rightarrow> engine \<Rightarrow> bool" where
  "delete_ends R V rq s s' \<longleftrightarrow> (\<exists>I. at R V I {} s') \<or>
    (\<exists>I r ls. V (dl_key rq) = Some (r, ls) \<and> removable s rq (sr_meta r) \<and> at R (V(dl_key rq := None)) I {} s')"

lemma delete_safe:
  assumes at: "at R V I {} s"
  shows "safe (delete_ends R V rq s) (delete_inner rq a) s"
proof -
  let ?P = "delete_ends R V rq s" and ?key = "dl_key rq"
  have same: "?P s'" if "at R V I {} s'" for s' using that by (auto simp: delete_ends_def)
  have removed: "safe ?P (sq (unregister ?key) (sq (release_record e (sr_meta r)) (sq (clear_secondary ?key e (sr_meta r))
      (record_tombstone rq a (generation (sr_meta r)))))) s'"
    if a: "at R V I {} s'" and e: "I ?key = Some e" and v: "V ?key = Some (r, ls)" and rm: "removable s rq (sr_meta r)" for s' e r ls
  proof -
    have gone: "?P s2" if "at R (V(?key := None)) (I(?key := None)) {} s2" for s2 using that v rm by (auto simp: delete_ends_def)
    show ?thesis
      unfolding unregister_def safe_sq [of _ "modify f" for f] wp_modify
      apply (rule release_safe [OF at_unregister [OF a e v]])
       apply (erule gone)
      apply (rule safe_noncore, assumption, intro noncore, erule gone)
      done
  qed
  have tail: "safe ?P (bnd (gets (\<lambda>s. case dl_due_guard rq of Some h \<Rightarrow> record_due_for_sweep s ?key m h | None \<Rightarrow> True)) (\<lambda>due.
     sq (fail_if (\<not> due) NotDue) (sq (unregister ?key) (sq (release_record e m) (sq (clear_secondary ?key e m)
        (record_tombstone rq a (generation m))))))) s'"
    if a: "at R V I {} s'" and io: "s'\<lparr>en_io := []\<rparr> = s\<lparr>en_io := []\<rparr>" and e: "I ?key = Some e" and v: "V ?key = Some (r, ls)"
      and m: "m = sr_meta r" and w: "dl_due_guard rq = None \<or> write_healthy s" for s' e r ls m
  proof -
    have "record_due_for_sweep s' ?key (sr_meta r) h = record_due_for_sweep s ?key (sr_meta r) h" for h
      using due_io [of s'] due_io [of s] io by simp
    then show ?thesis
      unfolding m by (intro safe_gets safe_fail_if same [OF a] removed [OF a e v])
        (use w in \<open>auto simp: removable_def split: option.splits\<close>)
  qed
  show ?thesis
    unfolding delete_inner_def Let_def
    apply (rule safe_gets)
    apply (rule safe_fail_if, rule same [OF at])
    apply (rule safe_lookup [OF at], erule same)
    apply (subst safe_bnd)
    apply (rule wp_mono, rule wp_io_only [OF _ io_only_read_for_key])
      apply (rule wp_read_for_key [where Q = "\<lambda>m s'. at R V I {} s' \<and> (\<exists>r ls. V ?key = Some (r, ls) \<and> m = sr_meta r)"
          and E = "\<lambda>_. ?P", OF at], assumption, assumption, blast, erule same)
     apply (elim conjE exE)
     apply (rule tail, assumption, assumption, assumption, assumption, assumption, blast)
    apply assumption
    done
qed

section \<open>Creation\<close>

lemma unat_record_size: "unat (record_size_for n) = 256 + unat n * 73"
proof -
  have n: "unat n < 2 ^ 32" using unsigned_less [of n] by simp
  have "unat (ucast n :: u64) = unat n" using n by (simp add: unsigned_ucast_eq take_bit_nat_eq_self)
  then show ?thesis using n by (simp add: record_size_for_def record_consts unat_word_ariths)
qed

text \<open>The sizes the create path assumes: a count and a record length of 32 bits.\<close>

definition create_fits :: "create_request \<Rightarrow> bool" where
  "create_fits rq \<longleftrightarrow> length (cr_utxo_hashes rq) < 2 ^ 32 \<and> create_total_size rq < 2 ^ 32"

definition fresh_record :: "create_request \<Rightarrow> external_ref option \<Rightarrow> stored_record" where
  "fresh_record rq ext = \<lparr>sr_meta = create_metadata rq ext, sr_slots = create_slots rq, sr_cold = create_cold_data rq\<rparr>"

definition create_ends :: "(u8 \<Rightarrow> nat \<Rightarrow> nat) \<Rightarrow> (txkey \<Rightarrow> logical option) \<Rightarrow> create_request \<Rightarrow> engine \<Rightarrow> bool" where
  "create_ends R V rq s \<longleftrightarrow> settles R V s \<or>
    V (cr_tx_id rq) = None \<and> (\<exists>ext ls. settles R (V(cr_tx_id rq \<mapsto> (fresh_record rq ext, ls))) s)"

lemma total_size_pos: "0 < create_total_size rq"
  by (simp add: create_total_size_def unat_record_size)

lemma fresh_ok:
  assumes "create_fits rq"
  shows "record_ok (cr_tx_id rq) (fresh_record rq ext)"
    and "unat (record_size (create_metadata rq ext)) = create_total_size rq" and "\<not> has_list tag (create_metadata rq ext)"
proof -
  have n: "unat (create_count rq) = length (cr_utxo_hashes rq)"
    using assms by (simp add: create_count_def create_fits_def unsigned_of_nat take_bit_nat_eq_self)
  show sz: "unat (record_size (create_metadata rq ext)) = create_total_size rq"
    using assms by (simp add: create_metadata_def create_fits_def unsigned_of_nat take_bit_nat_eq_self)
  then have "record_size (create_metadata rq ext) \<noteq> 0" using total_size_pos [of rq] by (metis less_irrefl unsigned_0)
  then show "record_ok (cr_tx_id rq) (fresh_record rq ext)"
    using n by (simp add: record_ok_def fresh_record_def create_slots_def) (simp add: create_metadata_def new_metadata_def)
  show "\<not> has_list tag (create_metadata rq ext)"
    by (cases tag) (simp_all add: has_list_def create_metadata_def new_metadata_def)
qed

lemma noncore_register [noncore]:
  "noncore (alloc_mined_slot rq m)" "noncore (clear_tombstone_for_recreated_key key)"
  by (auto simp: noncore_def alloc_mined_slot_def clear_tombstone_for_recreated_key_def modify_def split: prod.split)

lemma register_safe:
  assumes at: "at R V I {(d, off, R d (create_total_size rq))} s" and v: "V (cr_tx_id rq) = None" and fits: "create_fits rq"
    and b: "en_blocks s (d, off) = Some (RecordBlock (fresh_record rq ext))"
  shows "safe (create_ends R V rq) (register_created rq d off (create_metadata rq ext)) s"
proof -
  let ?key = "cr_tx_id rq" and ?r = "fresh_record rq ext" and ?P = "create_ends R V rq"
  have m: "sr_meta ?r = create_metadata rq ext" by (simp add: fresh_record_def)
  have early: "?P s'" if "core s' = core s" for s'
  proof -
    have "at R V I {} s'" by (rule at_mono [OF at_core [OF at that]]) simp
    then show ?thesis using settles_same create_ends_def by blast
  qed
  have late: "?P s'" if "settles R (V(?key \<mapsto> (?r, ls))) s'" for s' ls using that v by (auto simp: create_ends_def)
  have reg: "\<exists>ls. settles R (V(?key \<mapsto> (?r, ls))) (set_index ?key (Some \<lparr>ie_device = d, ie_offset = off, ie_mined_slot = ms\<rparr>) s')"
    if c: "core s' = core s" for s' ms
  proof -
    let ?e = "\<lparr>ie_device = d, ie_offset = off, ie_mined_slot = ms\<rparr>"
    have a: "at R V I {(d, off, R d (create_total_size rq))} s'" by (rule at_core [OF at c])
    have "at R (V(?key \<mapsto> (?r, \<lambda>tag. list_at s' (ie_device ?e) (list_count tag (sr_meta ?r)) (list_offset tag (sr_meta ?r))))) (I(?key \<mapsto> ?e))
        (({(d, off, R d (create_total_size rq))} \<union> {x. \<exists>t. claim s' (?key, t) = Some x}) -
          {x. \<exists>t. claim (set_index ?key (Some ?e) s') (?key, t) = Some x}) (set_index ?key (Some ?e) s')"
      by (rule at_set_index [OF a])
        (use fresh_ok [OF fits, where ext = ext] b core_eqD(2) [OF c] in \<open>simp_all add: m loc_def list_ok_def\<close>)
    then have "at R (V(?key \<mapsto> (?r, \<lambda>tag. list_at s' (ie_device ?e) (list_count tag (sr_meta ?r)) (list_offset tag (sr_meta ?r)))))
        (I(?key \<mapsto> ?e)) {} (set_index ?key (Some ?e) s')" by (rule at_mono) simp
    then show ?thesis using settles_same by blast
  qed
  have rest: "safe ?P (sq (clear_tombstone_for_recreated_key ?key)
     (sq (if c then modify (\<lambda>s. s\<lparr>en_conflicting := conflicting_insert (en_conflicting s) ?key\<rparr>) else ret ())
       (if c then each (\<lambda>p. best_effort (append_conflicting_child p ?key)) ps else ret ()))) s'"
    if st: "settles R (V(?key \<mapsto> (?r, ls))) s'" for s' ls c ps
  proof -
    have "safe (settles R (V(?key \<mapsto> (?r, ls)))) (sq (clear_tombstone_for_recreated_key ?key)
     (sq (if c then modify (\<lambda>s. s\<lparr>en_conflicting := conflicting_insert (en_conflicting s) ?key\<rparr>) else ret ())
       (if c then each (\<lambda>p. best_effort (append_conflicting_child p ?key)) ps else ret ()))) s'"
      unfolding sq_def
      apply (rule safe_after, rule safe_settles_noncore [OF st noncore_register(2)])
      apply (rule safe_after, erule safe_settles_noncore, intro noncore, simp)
      apply (auto intro: parents_settle safe_ret)
      done
    then show ?thesis using late by (auto simp: safe_def)
  qed
  show ?thesis
    unfolding register_created_def
    apply (rule safe_bnd_core [OF noncore_register(1) refl], erule early)
    apply (rule safe_sq_core [OF noncore_mirror], assumption, erule early)
    apply (subst safe_sq, simp only: wp_modify)
    apply (rule exE [OF reg], assumption, erule rest)
    done
qed

lemma create_safe:
  assumes at: "at R V I {} s" and fits: "create_fits rq"
  shows "safe (create_ends R V rq) (create d rq) s"
proof -
  let ?P = "create_ends R V rq" and ?key = "cr_tx_id rq" and ?x = "(d, 0::nat)"
  have P: "?P s'" if "at R V I {} s'" for s' using settles_same [OF that] by (simp add: create_ends_def)
  have weak: "?P s'" if "at R V I X s'" for X s' by (rule P [OF at_mono [OF that]]) simp
  have placed: "safe ?P (bnd (attempt (write_full_record_with_cold d off (create_metadata rq ext) (create_slots rq) (create_cold_data rq)))
      (\<lambda>w. case w of
         Inl _ \<Rightarrow> sq (attempt (free_region_at d off (create_total_size rq))) (ret (Inl CreateStorageError))
       | Inr _ \<Rightarrow> sq (register_created rq d off (create_metadata rq ext))
            (ret (Inr \<lparr>co_record_offset = off, co_utxo_count = create_count rq\<rparr>)))) s'"
    if a: "at R V I {(d, off, R d (create_total_size rq))} s'" and v: "V ?key = None" for off ext s'
    unfolding safe_bnd wp_attempt write_full_record_with_cold_def wp_sq
  proof (rule wp_device_io [OF a], goal_cases)
    case (1 s1)
    have "safe ?P (register_created rq d off (create_metadata rq ext)) (put_at (d, off) (RecordBlock (fresh_record rq ext)) s1)"
      by (rule register_safe [OF at_put_unlinked [OF 1(1)] v fits]) simp_all
    then show ?case by (simp add: put_block_def wp safe_wp fresh_record_def)
  next
    case (2 s1)
    have "wp (free_region_at d off (create_total_size rq)) (\<lambda>_. ?P) (\<lambda>_. ?P) s1"
      by (rule wp_free [OF 2]) (auto intro: weak)
    then show ?case by (simp add: safe_wp wp)
  qed
  have "safe ?P (bnd (lookup_checked ?key) (\<lambda>present. if present \<noteq> None then ret (Inl DuplicateTxId)
       else case external_ref_for_create rq of Inl e \<Rightarrow> ret (Inl e)
       | Inr ext \<Rightarrow> bnd (attempt (allocate_region d (create_total_size rq))) (\<lambda>a. case a of Inl _ \<Rightarrow> ret (Inl DeviceFull)
           | Inr off \<Rightarrow> bnd (attempt (write_full_record_with_cold d off (create_metadata rq ext) (create_slots rq) (create_cold_data rq)))
      (\<lambda>w. case w of
         Inl _ \<Rightarrow> sq (attempt (free_region_at d off (create_total_size rq))) (ret (Inl CreateStorageError))
       | Inr _ \<Rightarrow> sq (register_created rq d off (create_metadata rq ext))
            (ret (Inr \<lparr>co_record_offset = off, co_utxo_count = create_count rq\<rparr>)))))) s"
    unfolding safe_bnd [of _ "lookup_checked k" for k]
  proof (rule wp_lookup_checked [OF at], goal_cases)
    case 1
    show ?case
      apply (simp del: not_None_eq split: sum.split, intro conjI allI impI)
       apply (rule safe_ret, rule P [OF at])
      apply (subst safe_bnd, simp only: wp_attempt, rule wp_allocate [OF at total_size_pos])
        apply (use fits in \<open>simp add: create_fits_def\<close>)
       apply (simp only: sum.case, rule placed, assumption, rule 1)
      apply (simp only: sum.case, rule safe_ret, erule P)
      done
  next
    case (2 e r ls)
    then show ?case using P [OF at] by (simp add: safe_ret)
  qed
  then show ?thesis
    using P [OF at] unfolding create_def Let_def by (auto intro: safe_ret)
qed

end
