(* ===== verification/Engine_Exec.thy ===== *)
theory Engine_Exec
  imports Engine_History
begin

text \<open>
  Histories of the engine: sequences of operations under arbitrary faults and clocks.  The records stay
  well formed, an output once spent keeps its spender, and the sweep removes only what it may.
\<close>

section \<open>Poisoning is permanent\<close>

definition sticky :: "'a eng \<Rightarrow> bool" where
  "sticky m \<longleftrightarrow> (\<forall>s. en_redo (snd (m s)) = en_redo s \<and> (en_poisoned s \<longrightarrow> en_poisoned (snd (m s))))"

named_theorems sticky \<open>operations that keep the log and never heal it\<close>

lemma sticky_ret [sticky]: "sticky (ret x)" by (simp add: sticky_def ret_def)
lemma sticky_throw [sticky]: "sticky (throw e)" by (simp add: sticky_def throw_def)
lemma sticky_gets [sticky]: "sticky (gets f)" by (simp add: sticky_def gets_def)
lemma sticky_lift_sum [sticky]: "sticky (lift_sum r)" by (simp add: sticky_def lift_sum_def)
lemma sticky_fail_if [sticky]: "sticky (fail_if c e)" by (simp add: fail_if_def sticky)

lemma sticky_modify [sticky]:
  "(\<And>s. en_redo (f s) = en_redo s \<and> (en_poisoned s \<longrightarrow> en_poisoned (f s))) \<Longrightarrow> sticky (modify f)"
  by (simp add: sticky_def modify_def)

lemma sticky_bnd [sticky]: "sticky m \<Longrightarrow> (\<And>x. sticky (k x)) \<Longrightarrow> sticky (bnd m k)"
  by (auto simp: sticky_def bnd_def split: prod.splits sum.splits) (metis snd_conv)+

lemma sticky_sq [sticky]: "sticky m \<Longrightarrow> sticky k \<Longrightarrow> sticky (sq m k)"
  by (simp add: sq_def sticky_bnd)

lemma sticky_if [sticky]: "sticky m \<Longrightarrow> sticky n \<Longrightarrow> sticky (if c then m else n)"
  by simp

lemma sticky_attempt [sticky]: "sticky m \<Longrightarrow> sticky (attempt m)"
  by (simp add: sticky_def attempt_def case_prod_beta)

lemma sticky_option [sticky]: "sticky a \<Longrightarrow> (\<And>x. sticky (f x)) \<Longrightarrow> sticky (case_option a f x)"
  by (simp split: option.split)

lemma sticky_sum [sticky]: "(\<And>x. sticky (f x)) \<Longrightarrow> (\<And>x. sticky (g x)) \<Longrightarrow> sticky (case_sum f g x)"
  by (simp split: sum.split)

lemma sticky_prod [sticky]: "(\<And>x y. sticky (f x y)) \<Longrightarrow> sticky (case_prod f x)"
  by (simp split: prod.split)

lemma sticky_each [sticky]: "(\<And>x. sticky (f x)) \<Longrightarrow> sticky (each f xs)"
  by (induction xs) (auto intro: sticky)

lemma sticky_device_io [sticky]: "sticky device_io"
  by (auto simp: sticky_def device_io_def split: list.split)

lemma sticky_fast_io [sticky]: "sticky (fast_io d)"
  using sticky_device_io by (simp add: sticky_def fast_io_def)

lemma sticky_journal [sticky]: "sticky (journal_secondary_ops ops)"
  by (auto simp: sticky_def journal_secondary_ops_def log_append_def split: list.split io_outcome.split)

lemma sticky_poison [sticky]: "sticky poison_all_redo_logs"
  by (simp add: sticky_def poison_all_redo_logs_def modify_def)

lemma sticky_regions [sticky]: "sticky (allocate_region d sz)" "sticky (free_region_at d off sz)"
  by (auto simp: sticky_def allocate_region_def free_region_at_def region_append_def log_append_def set_alloc_def Let_def
      split: prod.split sum.split list.split io_outcome.split)

lemma sticky_block [sticky]: "sticky (read_block d off)" "sticky (put_block d off b)" "sticky (lookup_checked key)"
  by (auto simp: sticky_def read_block_def put_block_def modify_def lookup_checked_def gets_def split: option.split device_block.split)

lemma sticky_fast [sticky]:
  "sticky (read_metadata_fast d off)" "sticky (read_slot_fast d off i)" "sticky (write_metadata_fast d off m)"
  "sticky (write_slot_fast d off i sl)" "sticky (lookup_or_not_found key)" "sticky (read_children_at d n off)"
  unfolding read_metadata_fast_def read_slot_fast_def write_metadata_fast_def write_slot_fast_def lookup_or_not_found_def
    read_children_at_def
  by (intro sticky)+

lemma sticky_caches [sticky]:
  "sticky (observe_block_height h)" "sticky (modify_mined f)" "sticky (note_all_spent key slot c)"
  "sticky (mirror_de_flags key slot m)" "sticky (set_cache_lsa key slot c)" "sticky (note_patch key slot p)"
  "sticky (update_dah_index key a b)" "sticky (update_preserve_index key a b)"
  unfolding observe_block_height_def note_all_spent_def mirror_de_flags_def set_cache_lsa_def note_patch_def
    update_dah_index_def update_preserve_index_def modify_mined_def
  by (intro sticky; simp)+

lemma sticky_mined [sticky]: "sticky (mined_block_entries_at key slot)" "sticky (apply_transition key slot p)"
  by (auto simp: sticky_def mined_block_entries_at_def apply_transition_def
      split: option.split prod.split mined_transition_outcome.split)

lemma sticky_shared [sticky]:
  "sticky (evaluate_patched key slot m hb um h rt)"
  "sticky (update_both_secondary_indexes key a b)" "sticky (sync_primary_and_both_secondary_atomic key a b)"
  "sticky (read_metadata_for_key d key off)" "sticky (spend_guards key slot m ic il h)" "sticky (child_deleted d m dat)"
  unfolding evaluate_patched_def update_both_secondary_indexes_def
    sync_primary_and_both_secondary_atomic_def read_metadata_for_key_def spend_guards_def child_deleted_def Let_def
  by (intro sticky; simp?)+

lemma sticky_verdict [sticky]: "sticky a \<Longrightarrow> sticky b \<Longrightarrow> (\<And>x. sticky (f x)) \<Longrightarrow> sticky (case_slot_verdict a b f x)"
  by (simp split: slot_verdict.split)

lemma sticky_relocate [sticky]: "sticky (relocate_record d key m muts)"
  unfolding relocate_record_def move_record_def write_image_def Let_def by (intro sticky; simp)

lemma sticky_persist [sticky]: "sticky (persist_spend d ro key m muts b)"
  unfolding persist_spend_def by (intro sticky)

lemma sticky_spend [sticky]: "sticky (spend rq)"
  unfolding spend_def commit_spend_def Let_def by (intro sticky)

lemma sticky_judge [sticky]: "sticky (judge_item d ro m h valid it)"
  unfolding judge_item_def by (intro sticky)

lemma sticky_items [sticky]: "sticky (prepare_items d ro m h items acc)"
proof (induction items arbitrary: acc)
  case (Cons it items)
  obtain valid errs spent idem where acc: "acc = (valid, errs, spent, idem)" by (metis prod_cases4)
  show ?case unfolding acc prepare_items.simps by (intro sticky Cons.IH)
qed (simp add: sticky)

lemma sticky_batch [sticky]: "sticky (spend_multi rq)"
  unfolding spend_multi_def prepare_spend_multi_def apply_locked_def count_batch_def Let_def
  by (intro sticky)

lemma sticky_unspend [sticky]: "sticky (unspend rq)"
  unfolding unspend_def unspend_apply_def unspend_recount_def unspend_finish_def persist_unspend_def Let_def
  by (intro sticky)

lemma sticky_slots [sticky]:
  "sticky (freeze l)" "sticky (unfreeze l)" "sticky (reassign a)" "sticky (prune_locked key off child)" "sticky (prune_slot key off)"
  "sticky (set_record_generation key g)"
  unfolding freeze_def unfreeze_def reassign_def bump_generation_def prune_locked_def prune_recount_def prune_slot_def
    set_record_generation_def Let_def
  by (intro sticky)+

lemma sticky_flags [sticky]:
  "sticky (set_mined_inner key p)" "sticky (mark_on_longest_chain mk)" "sticky (set_conflicting_locked c)"
  "sticky (set_locked_with_before_image key b)" "sticky (restore_set_locked_for_compensation key b h)"
  unfolding set_mined_inner_def mark_on_longest_chain_def set_conflicting_locked_def conflicting_direct_def
    conflicting_buffered_def set_locked_with_before_image_def restore_set_locked_for_compensation_def Let_def
  by (intro sticky; simp)+

lemma sticky_preservation [sticky]:
  "sticky (preserve_record_until key h)" "sticky (expire_preservation_set_dah key h rt)"
  "sticky (apply_replicated_preservation_expiry key h)"
  unfolding preserve_record_until_def expire_preservation_set_dah_def apply_replicated_preservation_expiry_def
    commit_preservation_expiry_def Let_def
  by (intro sticky)+

lemma sticky_delete [sticky]: "sticky (delete_inner rq a)"
  unfolding delete_inner_def unregister_def release_record_def write_zeroed_metadata_header_def clear_secondary_def
    record_tombstone_def Let_def
  by (intro sticky; simp split: option.split)

lemma sticky_replace [sticky]: "sticky retry \<Longrightarrow> sticky (replace_children k key e m kids retry)"
  unfolding replace_children_def switch_children_def commit_children_def allocate_children_block_def write_children_block_def
    free_children_block_def Let_def
  by (intro sticky)

lemma sticky_loops [sticky]: "sticky (append_loop k key child n logged)" "sticky (remove_loop key child n logged)"
  by (induction n arbitrary: logged) (auto intro!: sticky)

lemma sticky_children [sticky]:
  "sticky (append_conflicting_child key child)" "sticky (append_deleted_child key child)"
  "sticky (remove_conflicting_child key child)"
  unfolding append_conflicting_child_def append_deleted_child_def remove_conflicting_child_def by (intro sticky)+

lemma sticky_best_effort [sticky]: "sticky m \<Longrightarrow> sticky (best_effort m)"
  unfolding best_effort_def by (intro sticky)

lemma sticky_prune_child [sticky]: "sticky (prune_slot_if_spent_by_child key off child)"
  unfolding prune_slot_if_spent_by_child_def by (intro sticky)

lemma sticky_conflicting [sticky]: "sticky (set_conflicting blobs sha rq)"
  unfolding set_conflicting_def append_conflicting_children_from_cold_data_def parent_txids_for_child_def read_cold_data_def
    read_external_def Let_def
  by (intro sticky)

lemma sticky_create [sticky]: "sticky (create d rq)"
proof -
  have "sticky (alloc_mined_slot rq m)" for m
    by (auto simp: sticky_def alloc_mined_slot_def Let_def split: prod.split)
  then show ?thesis
    unfolding create_def register_created_def write_full_record_with_cold_def clear_tombstone_for_recreated_key_def Let_def
    by (intro sticky; simp)
qed

lemma exec_sticky:
  "en_redo (exec blobs sha op s) = en_redo s \<and> (en_poisoned s \<longrightarrow> en_poisoned (exec blobs sha op s))"
  by (cases op) (simp_all add: sticky [unfolded sticky_def])

section \<open>Every operation is a step of the ledger\<close>

fun op_fits :: "engine_op \<Rightarrow> bool" where
  "op_fits (OpCreate d rq) = create_fits rq"
| "op_fits _ = True"

text \<open>An unspend whose mined state is readable and whose retention window does not overflow.\<close>

fun op_counts :: "engine_op \<Rightarrow> engine \<Rightarrow> bool" where
  "op_counts (OpUnspend rq) s \<longleftrightarrow> no_overflow (uq_height rq) (uq_retention rq) \<and>
    (case en_index s (uq_key rq) of None \<Rightarrow> True | Some e \<Rightarrow> readable (uq_key rq) (ie_mined_slot e) s)"
| "op_counts _ s = True"

lemma noncore_set_mined [noncore]: "noncore (set_mined_inner key p)"
proof -
  have "noncore (apply_transition key slot p)" for slot
    by (auto simp: noncore_def apply_transition_def split: prod.split mined_transition_outcome.split)
  then show ?thesis unfolding set_mined_inner_def
    by (intro noncore) (auto simp: noncore split: prod.split option.split)
qed

lemma advances_quiet: "safe (ends R V key quiet) m s \<Longrightarrow> advances R V op ok (snd (m s))"
  unfolding safe_def by (rule advances_settles [OF settles_ends])

lemma advances_hush: "safe (settles R V) m s \<Longrightarrow> advances R V op ok (snd (m s))"
  unfolding safe_def by (rule advances_settles)

lemma advances_move: "safe (ends R V key (moves op key)) m s \<Longrightarrow> advances R V op ok (snd (m s))"
  unfolding safe_def by (rule advances_moves)

lemma prune_child_advances:
  assumes at: "at R V I {} s"
  shows "advances R V (OpPruneChild key off child) ok (snd (prune_slot_if_spent_by_child key off child s))"
proof -
  let ?op = "OpPruneChild key off child"
  have tail: "safe (advances R V ?op ok) (if b then sq (best_effort (append_deleted_child key child)) (ret True) else ret False) s'"
    if en: "ends R V key (moves ?op key) s'" for b s'
  proof -
    obtain V' I' where a: "at R V' I' {} s'" and u: "upd key (moves ?op key) V V'" using en by (auto simp: ends_def)
    have st: "rec_step ?op k ok (V k) (V' k)" for k by (rule upd_rec_step [OF u]) (simp add: moves_def)
    have "safe (settles R V') (if b then sq (best_effort (append_deleted_child key child)) (ret True) else ret False) s'"
      unfolding sq_def
      by (auto intro!: safe_after safe_best_effort children_settle(2) safe_ret settles_same [OF a])
    then show ?thesis unfolding safe_def by (rule advances_then [OF a st])
  qed
  have "safe (advances R V ?op ok) (prune_slot_if_spent_by_child key off child) s"
    unfolding prune_slot_if_spent_by_child_def safe_bnd
    by (rule wp_mono [OF prune_locked_moves [OF at, unfolded safe_wp]]) (rule tail advances_moves, assumption)+
  then show ?thesis by (simp add: safe_def)
qed

lemma delete_advances:
  assumes "delete_ends R V rq s s'"
  shows "advances R V (OpDelete rq a) ok s'"
proof -
  have "rec_step (OpDelete rq a) k ok (V k) ((V(dl_key rq := None)) k)" if "V (dl_key rq) = Some x" for k x
    using that by (cases "k = dl_key rq") (auto simp: rec_step_refl)
  then show ?thesis using assms advances_same unfolding delete_ends_def advances_def by metis
qed

lemma create_advances:
  assumes "create_ends R V rq s"
  shows "advances R V (OpCreate d rq) ok s"
proof (cases "settles R V s")
  case False
  then obtain ext ls where v: "V (cr_tx_id rq) = None" and st: "settles R (V(cr_tx_id rq \<mapsto> (fresh_record rq ext, ls))) s"
    using assms by (auto simp: create_ends_def)
  obtain V' I where a: "at R V' I {} s" and h: "hushed (V(cr_tx_id rq \<mapsto> (fresh_record rq ext, ls))) V'"
    using st by (auto simp: settles_def)
  have "rec_step (OpCreate d rq) k ok (V k) ((V(cr_tx_id rq \<mapsto> (fresh_record rq ext, ls))) k)" for k
    using v by (cases "k = cr_tx_id rq")
      (auto simp: rec_step_refl fresh_record_def create_metadata_def new_metadata_def)
  then show ?thesis unfolding advances_def using a h rec_step_quiet unfolding hushed_def by blast
qed (rule advances_settles)

lemma unspend_advances:
  assumes at: "at R V I {} s"
  shows "advances R V (OpUnspend rq) (op_counts (OpUnspend rq) s \<and> en_redo s \<and> \<not> en_poisoned (snd (unspend rq s))) (snd (unspend rq s))"
    (is "advances R V ?op ?ok ?s")
proof (cases ?ok)
  case True
  have "unspend_ends R V rq (en_redo s) ?s"
    using unspend_safe [OF at, of rq] True at unfolding safe_def at_def by (auto split: option.splits)
  then have "ends R V (uq_key rq) (unspend_change rq) ?s" using True by (auto simp: unspend_ends_def)
  from ends_mono [OF this unspend_change_moves] show ?thesis by (rule advances_moves)
next
  case False
  then have ok: "?ok = False" by blast
  show ?thesis unfolding ok by (rule advances_evolves [OF unspend_evolves [OF at, unfolded safe_def]])
qed

lemma set_mined_advances: "at R V I {} s \<Longrightarrow> advances R V op ok (snd (set_mined_inner key p s))"
  by (rule advances_same, erule at_core) (use noncore_set_mined in \<open>simp add: noncore_def\<close>)

lemma exec_advances:
  assumes at: "at R V I {} s" and fits: "op_fits op"
  shows "advances R V op (op_counts op s \<and> en_redo s \<and> \<not> en_poisoned (exec blobs sha op s)) (exec blobs sha op s)"
proof (cases op)
  case (OpUnspend rq)
  then show ?thesis using unspend_advances [OF at, of rq] by simp
next
  case (OpDelete rq a)
  then show ?thesis using delete_advances [OF delete_safe [OF at, unfolded safe_def]] by simp
next
  case (OpCreate d rq)
  then show ?thesis using create_advances [OF create_safe [OF at, unfolded safe_def]] fits by simp
qed (use at in \<open>simp_all add: advances_move [OF spend_moves] advances_move [OF spend_multi_moves] advances_move [OF freeze_moves]
    advances_move [OF unfreeze_moves] advances_move [OF reassign_moves] advances_move [OF prune_slot_moves] prune_child_advances
    advances_quiet [OF set_generation_quiet] set_mined_advances
    advances_quiet [OF mark_quiet] advances_hush [OF set_conflicting_settles] advances_quiet [OF set_locked_quiet]
    advances_quiet [OF restore_locked_quiet] advances_quiet [OF preserve_quiet] advances_quiet [OF expire_quiet]
    advances_quiet [OF replicated_expiry_quiet] advances_hush [OF children_settle(1) [OF settles_same]]
    advances_hush [OF children_settle(2) [OF settles_same]] advances_hush [OF children_settle(3)]\<close>)

end
