(* ===== verification/Engine_Runs.thy ===== *)
theory Engine_Runs
  imports Engine_Exec
begin

text \<open>
  Histories.  A run applies operations one after the other; between them the environment chooses the
  outcomes of the device accesses to come and the clock.
\<close>

section \<open>Runs\<close>

inductive run :: "blob_lookup \<Rightarrow> (bytes \<Rightarrow> bytes) \<Rightarrow> (engine_op \<Rightarrow> engine \<Rightarrow> bool) \<Rightarrow> engine \<Rightarrow> engine_op list \<Rightarrow> engine \<Rightarrow> bool"
  for blobs sha allowed s where
  start: "run blobs sha allowed s [] s"
| operate: "run blobs sha allowed s ops s' \<Longrightarrow> allowed op s' \<Longrightarrow> run blobs sha allowed s (ops @ [op]) (exec blobs sha op s')"
| weather: "run blobs sha allowed s ops s' \<Longrightarrow> run blobs sha allowed s ops (s'\<lparr>en_io := io, en_now := t\<rparr>)"

abbreviation fitting :: "engine_op \<Rightarrow> engine \<Rightarrow> bool" where "fitting op s \<equiv> op_fits op"

abbreviation orderly :: "engine_op \<Rightarrow> engine \<Rightarrow> bool" where "orderly op s \<equiv> op_fits op \<and> op_counts op s"

lemma at_structure: "structure_ok {} s \<longleftrightarrow> at (reservations s) (view s) (en_index s) {} s"
  by (simp add: at_def)

lemma core_weather: "core (s\<lparr>en_io := io, en_now := t\<rparr>) = core s"
  by (simp add: core_def)

lemma structure_core: "core s' = core s \<Longrightarrow> structure_ok {} s \<Longrightarrow> structure_ok {} s' \<and> view s' = view s"
  using at_core [of "reservations s" "view s" "en_index s" "{}" s s'] by (simp add: at_def)

lemma record_view: "record_at s key = map_option fst (view s key)"
  by (simp add: record_at_def view_def split: option.split device_block.split)

lemma exec_step:
  assumes "structure_ok {} s" "op_fits op"
  shows "structure_ok {} (exec blobs sha op s)"
    "rec_step op k (op_counts op s \<and> en_redo s \<and> \<not> en_poisoned (exec blobs sha op s)) (view s k) (view (exec blobs sha op s) k)"
  using exec_advances [OF assms(1) [unfolded at_structure] assms(2), of blobs sha] unfolding advances_def at_def by auto

lemma run_structure:
  assumes "run blobs sha allowed s ops s'" "structure_ok {} s" "\<And>op s. allowed op s \<Longrightarrow> op_fits op"
  shows "structure_ok {} s'"
  using assms(1,2)
proof induction
  case (operate ops s' op)
  then show ?case using exec_step(1) assms(3) by blast
next
  case (weather ops s' t io)
  then show ?case using structure_core [OF core_weather] by blast
qed

lemma claims_apart:
  assumes "structure_ok {} s" "claim s c = Some (d, r)" "claim s c' = Some (d, r')" "c \<noteq> c'"
  shows "span r \<inter> span r' = {}"
proof -
  obtain L where sp: "space_ok {} s L" using assms(1) by (auto simp: structure_ok_def)
  have "store_ok (en_alloc s d) (L d)" "r \<in> L d" "r' \<in> L d" "r \<noteq> r'"
    using sp assms(2-4) unfolding space_ok_def by blast+
  then show ?thesis by (rule dev.live_disjoint)
qed

section \<open>Spent outputs\<close>

fun releases :: "engine_op \<Rightarrow> txkey \<Rightarrow> u32 \<Rightarrow> bytes \<Rightarrow> bool" where
  "releases (OpUnspend rq) key off dat \<longleftrightarrow> uq_key rq = key \<and> uq_offset rq = off \<and> uq_data rq = dat"
| "releases (OpDelete rq a) key off dat \<longleftrightarrow> dl_key rq = key"
| "releases _ key off dat \<longleftrightarrow> False"

definition spent_by :: "engine \<Rightarrow> txkey \<Rightarrow> u32 \<Rightarrow> bytes \<Rightarrow> bool" where
  "spent_by s key off dat \<longleftrightarrow> (case record_at s key of
      None \<Rightarrow> False
    | Some r \<Rightarrow> unat off < length (sr_slots r) \<and> is_settled (sr_slots r ! unat off) \<and> spending_data (sr_slots r ! unat off) = dat)"

lemma slot_move_settled:
  assumes "slot_move op key (unat off) sl sl'" "is_settled sl" "spending_data sl = dat" "\<not> releases op key off dat"
  shows "is_settled sl' \<and> spending_data sl' = dat"
  using assms
proof cases
  case (unspends rq)
  have "uq_offset rq = off" using unspends(3) unsigned_word_eqI by metis
  then show ?thesis using assms(2-4) unspends by (simp add: caller_owns_spend_def)
qed (auto simp: is_settled_def judged_unspent record_consts spent_by_child_def dest: judged_unspent)

lemma spent_step:
  assumes "spent_by s key off dat" "rec_step op key ok (view s key) (view s' key)" "\<not> releases op key off dat"
  shows "spent_by s' key off dat"
proof -
  obtain r ls where v: "view s key = Some (r, ls)" and sp: "unat off < length (sr_slots r)" "is_settled (sr_slots r ! unat off)"
      "spending_data (sr_slots r ! unat off) = dat"
    using assms(1) by (auto simp: spent_by_def record_view split: option.splits)
  obtain r' ls' where v': "view s' key = Some (r', ls')" and ev: "evolves op key r r'"
    using assms(2,3) v by (cases "view s' key") auto
  have "slot_move op key (unat off) (sr_slots r ! unat off) (sr_slots r' ! unat off)" "length (sr_slots r') = length (sr_slots r)"
    using ev sp(1) by (auto simp: evolves_def same_identity_def)
  from slot_move_settled [OF this(1) sp(2,3) assms(3)] this(2) show ?thesis
    using v' sp(1) by (simp add: spent_by_def record_view)
qed

lemma run_spent:
  assumes "run blobs sha fitting s ops s'" "structure_ok {} s" "spent_by s key off dat"
    "list_all (\<lambda>op. \<not> releases op key off dat) ops"
  shows "spent_by s' key off dat"
  using assms
proof induction
  case (operate ops s' op)
  then have st: "structure_ok {} s'" using run_structure [OF operate.hyps(1)] by simp
  have "spent_by s' key off dat" "\<not> releases op key off dat" using operate.IH operate.prems by simp_all
  then show ?case using spent_step [OF _ exec_step(2) [OF st operate.hyps(2)]] by blast
next
  case (weather ops s' t io)
  then have "structure_ok {} s'" using run_structure [OF weather.hyps(1)] by simp
  then show ?case using weather structure_core [OF core_weather, of s'] by (simp add: spent_by_def record_view)
qed simp

section \<open>Successful spends\<close>

lemma wp_relocate:
  assumes at: "at R V I {} s" and e: "I key = Some e" and v: "V key = Some (r, ls)" and sc: "same_claims r (overlay m muts r)"
    and Q: "\<And>off s' I'. at R (V(key \<mapsto> (overlay m muts r, ls))) I' {} s' \<Longrightarrow> Q off s'"
  shows "wp (relocate_record (ie_device e) key m muts) Q (\<lambda>_ _. True) s"
proof -
  have sz: "unat (record_size m) = unat (record_size (sr_meta r))" using sc by (simp add: same_claims_def overlay_def)
  have move: "wp (device_io) (\<lambda>_. wp (read_block (ie_device e) (ie_offset e))
      (\<lambda>r. wp (move_record (ie_device e) key e (unat (record_size m)) (overlay m muts r)) Q (\<lambda>_ _. True)) (\<lambda>_ _. True)) (\<lambda>_ _. True) s"
  proof (rule wp_device_io [OF at])
    fix s1 assume a1: "at R V I {} s1"
    show "wp (read_block (ie_device e) (ie_offset e))
        (\<lambda>r. wp (move_record (ie_device e) key e (unat (record_size m)) (overlay m muts r)) Q (\<lambda>_ _. True)) (\<lambda>_ _. True) s1"
      by (rule wp_read_block [OF a1 e v], rule wp_move_record [OF a1 e v sc sz]) (use Q in auto)
  qed simp
  show ?thesis
    unfolding wp relocate_record_def Let_def by (rule wp_lookup_or [OF at]) (use e move in auto)
qed

lemma wp_persist_spend:
  assumes at: "at R V I {} s" and e: "I key = Some e" and v: "V key = Some (r, ls)" and hd: "same_header (sr_meta r) m"
    and Q: "\<And>s' I'. at R (V(key \<mapsto> (r\<lparr>sr_slots := (sr_slots r)[unat i := sl], sr_meta := m\<rparr>, ls))) I' {} s' \<Longrightarrow> Q () s'"
  shows "wp (persist_spend (ie_device e) (ie_offset e) key m [(i, sl)] True) Q (\<lambda>_ _. True) s"
proof (cases "is_log_structured (en_alloc s (ie_device e))")
  case True
  have "wp (relocate_record (ie_device e) key m [(i, sl)]) (\<lambda>_. Q ()) (\<lambda>_ _. True) s"
    by (rule wp_relocate [OF at e v same_claims_overlay [OF hd]]) (simp add: overlay_single Q)
  then show ?thesis using True by (simp add: persist_spend_def wp)
next
  case False
  let ?r = "r\<lparr>sr_slots := (sr_slots r)[unat i := sl]\<rparr>"
  have "wp (write_slot_fast (ie_device e) (ie_offset e) i sl)
      (\<lambda>_. wp (write_metadata_fast (ie_device e) (ie_offset e) m) Q (\<lambda>_ _. True)) (\<lambda>_ _. True) s"
  proof (rule wp_write_slot [OF at e v])
    fix s' assume a: "at R (V(key \<mapsto> (?r, ls))) I {} s'"
    show "wp (write_metadata_fast (ie_device e) (ie_offset e) m) Q (\<lambda>_ _. True) s'"
      by (rule wp_write_metadata [OF a e]) (use Q same_claims_meta [of ?r m] hd in auto)
  qed simp
  then show ?thesis using False by (simp add: persist_spend_def wp)
qed

definition holds_spend :: "(u8 \<Rightarrow> nat \<Rightarrow> nat) \<Rightarrow> spend_request \<Rightarrow> engine \<Rightarrow> bool" where
  "holds_spend R rq s \<longleftrightarrow> (\<exists>V I r ls. at R V I {} s \<and> V (rq_key rq) = Some (r, ls) \<and> unat (rq_offset rq) < length (sr_slots r) \<and>
    status (sr_slots r ! unat (rq_offset rq)) = UTXO_SPENT \<and> spending_data (sr_slots r ! unat (rq_offset rq)) = rq_data rq)"

lemma holds_spendI:
  "at R V I {} s \<Longrightarrow> V (rq_key rq) = Some (r, ls) \<Longrightarrow> unat (rq_offset rq) < length (sr_slots r) \<Longrightarrow>
    status (sr_slots r ! unat (rq_offset rq)) = UTXO_SPENT \<Longrightarrow> spending_data (sr_slots r ! unat (rq_offset rq)) = rq_data rq \<Longrightarrow>
    holds_spend R rq s"
  unfolding holds_spend_def by blast

lemma holds_spend_core: "holds_spend R rq s \<Longrightarrow> noncore m \<Longrightarrow> wp m (\<lambda>_. holds_spend R rq) (\<lambda>_ _. True) s"
  unfolding holds_spend_def by (elim exE conjE, rule wp_noncore) auto

lemma commit_spend_holds:
  assumes at: "at R V I {} s" and e: "I (rq_key rq) = Some e" and v: "V (rq_key rq) = Some (r, ls)"
    and i: "unat (rq_offset rq) < length (sr_slots r)"
  shows "wp (commit_spend rq e (sr_meta r)) (\<lambda>_. holds_spend R rq) (\<lambda>_ _. True) s"
proof -
  have put: "holds_spend R rq s'"
    if "at R (V(rq_key rq \<mapsto> (r\<lparr>sr_slots := (sr_slots r)[unat (rq_offset rq) := new_spent (rq_hash rq) (rq_data rq)], sr_meta := m\<rparr>, ls))) I' {} s'"
    for s' I' m
    by (rule holds_spendI [OF that fun_upd_same]) (use i in \<open>simp_all add: slot_defs\<close>)
  show ?thesis
    unfolding commit_spend_def Let_def wp_bnd wp_gets wp_sq
    apply (rule wp_noncore [OF _ at], intro noncore)
     apply (rule wp_noncore [OF noncore_entries_at], assumption)
      apply (split prod.split, intro allI impI)
      apply (simp only: wp_bnd)
      apply (rule wp_evaluate, assumption)
       apply (simp only: prod.case wp_sq)
       apply (rule wp_persist_spend, assumption, rule e, rule v, erule counted_header)
       apply (drule put)
       apply (simp only: wp_sq [symmetric])
       apply (erule holds_spend_core, intro noncore)
      apply simp_all
    done
qed

lemma judged_respend: "judge_slot sl off h dat ht = Respend \<Longrightarrow> status sl = UTXO_SPENT \<and> spending_data sl = dat"
  by (auto simp: judge_slot_def Let_def split: if_splits)

lemma wp_spend:
  assumes at: "at R V I {} s"
    and commit: "\<And>e r ls s'. at R V I {} s' \<Longrightarrow> I (rq_key rq) = Some e \<Longrightarrow> V (rq_key rq) = Some (r, ls) \<Longrightarrow>
      unat (rq_offset rq) < length (sr_slots r) \<Longrightarrow>
      judge_slot (sr_slots r ! unat (rq_offset rq)) (rq_offset rq) (rq_hash rq) (rq_data rq) (rq_height rq) = SpendSlot \<Longrightarrow>
      wp (commit_spend rq e (sr_meta r)) (\<lambda>_. Q) (\<lambda>_ _. True) s'"
    and respend: "\<And>r ls s'. at R V I {} s' \<Longrightarrow> V (rq_key rq) = Some (r, ls) \<Longrightarrow> unat (rq_offset rq) < length (sr_slots r) \<Longrightarrow>
      judge_slot (sr_slots r ! unat (rq_offset rq)) (rq_offset rq) (rq_hash rq) (rq_data rq) (rq_height rq) = Respend \<Longrightarrow> Q s'"
  shows "wp (spend rq) (\<lambda>_. Q) (\<lambda>_ _. True) s"
  unfolding spend_def Let_def wp_sq wp_bnd
  apply (rule wp_noncore [OF noncore_observe at])
   apply (simp only: wp_fail_if, split if_split, intro conjI impI, simp)
   apply (rule wp_lookup_or, assumption)
    apply (rule at_indexed, assumption, assumption)
    apply (rule wp_read_metadata, assumption+)
     apply (rule wp_noncore [OF noncore_guards], assumption)
      apply (split if_split, intro conjI impI, simp)
      apply (rule wp_read_slot, assumption+)
       apply (split slot_verdict.split, intro conjI impI allI)
         apply (rule commit; assumption)
        apply (rule wp_noncore [where R = R and V = V and I = I and X = "{}"])
           apply (intro noncore, simp add: noncore split: prod.split)
          apply assumption
         apply (rule respend; assumption)
        apply (simp_all add: wp_throw)
  done

lemma spend_holds: "at R V I {} s \<Longrightarrow> wp (spend rq) (\<lambda>_. holds_spend R rq) (\<lambda>_ _. True) s"
  by (rule wp_spend) (auto intro: commit_spend_holds dest: judged_respend intro!: holds_spendI)

lemma spend_judged:
  "at R V I {} s \<Longrightarrow> wp (spend rq) (\<lambda>_ _. \<exists>r ls. V (rq_key rq) = Some (r, ls) \<and> unat (rq_offset rq) < length (sr_slots r) \<and>
      judge_slot (sr_slots r ! unat (rq_offset rq)) (rq_offset rq) (rq_hash rq) (rq_data rq) (rq_height rq) \<in> {SpendSlot, Respend})
    (\<lambda>_ _. True) s"
  by (rule wp_spend) (auto simp: wp_def split: prod.split sum.split)

section \<open>Counters\<close>

definition all_counted :: "engine \<Rightarrow> bool" where
  "all_counted s \<longleftrightarrow> (\<forall>key r. record_at s key = Some r \<longrightarrow> counted r)"

lemma counted_step:
  assumes "all_counted s" "\<And>k. rec_step op k True (view s k) (view s' k)"
  shows "all_counted s'"
  unfolding all_counted_def
proof (intro allI impI)
  fix key r' assume "record_at s' key = Some r'"
  then obtain ls' where v': "view s' key = Some (r', ls')" by (auto simp: record_view)
  show "counted r'"
  proof (cases "view s key")
    case None
    then show ?thesis using assms(2) [of key] v' by (auto simp: counted_def)
  next
    case (Some x)
    then have "counted (fst x)" using assms(1) by (cases x) (auto simp: all_counted_def record_view)
    then show ?thesis using assms(2) [of key] v' Some by (simp add: keeps_count_def)
  qed
qed

lemma run_counted:
  assumes "run blobs sha orderly s ops s'" "structure_ok {} s" "en_redo s" "all_counted s"
  shows "en_redo s' \<and> (\<not> en_poisoned s' \<longrightarrow> all_counted s')"
  using assms
proof induction
  case (operate ops s' op)
  have st: "structure_ok {} s'" using run_structure [OF operate.hyps(1) operate.prems(1)] by simp
  have IH: "en_redo s'" "\<not> en_poisoned s' \<longrightarrow> all_counted s'" using operate.IH operate.prems by blast+
  have fits: "op_fits op" "op_counts op s'" using operate.hyps(2) by simp_all
  show ?case
  proof (intro conjI impI)
    show "en_redo (exec blobs sha op s')" using exec_sticky [of blobs sha op s'] IH(1) by simp
    assume np: "\<not> en_poisoned (exec blobs sha op s')"
    then have "all_counted s'" using IH(2) exec_sticky [of blobs sha op s'] by blast
    then show "all_counted (exec blobs sha op s')"
      by (rule counted_step) (use exec_step(2) [OF st fits(1), where blobs = blobs and sha = sha] np IH(1) fits(2) in simp)
  qed
next
  case (weather ops s' t io)
  have "structure_ok {} s'" using run_structure [OF weather.hyps weather.prems(1)] by simp
  then have "view (s'\<lparr>en_io := io, en_now := t\<rparr>) = view s'" using structure_core [OF core_weather] by blast
  then show ?case using weather by (simp add: all_counted_def record_view)
qed simp

section \<open>The sweep\<close>

lemma eligible_settled:
  assumes "counted r" "record_ok key r" "spent_utxos (sr_meta r) = utxo_count (sr_meta r)"
  shows "list_all is_settled (sr_slots r)"
  using assms settled_le [of "sr_slots r"] settled_all [of "sr_slots r"] by (simp add: counted_def record_ok_def)

lemma delete_removes:
  assumes st: "structure_ok {} s" and gone: "record_at (snd (delete_inner rq a s)) (dl_key rq) = None"
    and had: "record_at s (dl_key rq) = Some r"
  shows "removable s rq (sr_meta r)"
proof -
  have "delete_ends (reservations s) (view s) rq s (snd (delete_inner rq a s))"
    using delete_safe [OF st [unfolded at_structure], of rq a] by (simp add: safe_def)
  then show ?thesis
    using gone had by (auto simp: delete_ends_def record_view at_def)
qed

lemma due_means:
  assumes "record_due_for_sweep s key m h"
  shows "preserve_until m = 0 \<and> \<not> flag_contains (flags m) LOCKED \<and>
    (\<exists>dah. dah_get_height (en_dah s) key = Some dah \<and> dah \<noteq> 0 \<and> dah \<le> h) \<and>
    (flag_contains (flags m) CONFLICTING \<or> \<not> flag_contains (flags m) REASSIGNED \<and> spent_utxos m = utxo_count m \<and>
      (\<exists>es. es \<noteq> [] \<and> mined_read s key = Some (es, 0)))"
  using assms
  by (auto simp: record_due_for_sweep_def sweep_eligible_with_mined_def not_less split: if_splits option.splits prod.splits)

end
