(* ===== verification/Engine_Example.thy ===== *)
theory Engine_Example
  imports Engine_Runs
begin

text \<open>
  A one-record engine on an in-place store, on which the results about the engine are instantiated.
\<close>

section \<open>A one-record engine\<close>

definition demo_key :: txkey where "demo_key = replicate 32 1"

definition demo_store0 :: store_alloc where "demo_store0 = SlotStore (sa_new (2 ^ 30) (2 ^ 12) [])"

definition demo_store :: store_alloc where "demo_store = fst (snd (store_allocate demo_store0 329 True))"

definition demo_mined :: mined_index where
  "demo_mined = \<lparr>mi_shards = [\<lparr>entries = [\<lparr>me_block_id = 7, me_block_height = 100, me_subtree_idx = 0, me_unmined_since = 0,
      me_flags = 0, me_key_fp = key_fp demo_key\<rparr>], live = [True], free = [], overflow = [], unmined = []\<rparr>], mi_mask = 0, mi_seed = 0\<rparr>"

definition demo_meta :: tx_metadata where "demo_meta = (new_metadata 1)\<lparr>tx_id := demo_key\<rparr>"

definition demo_record :: "u32 \<Rightarrow> utxo_slot \<Rightarrow> stored_record" where
  "demo_record spent sl = \<lparr>sr_meta = demo_meta\<lparr>spent_utxos := spent\<rparr>, sr_slots = [sl], sr_cold = []\<rparr>"

definition demo :: "stored_record \<Rightarrow> engine" where
  "demo r = \<lparr>en_index = [demo_key \<mapsto> \<lparr>ie_device = 0, ie_offset = DATA_REGION_OFFSET, ie_mined_slot = 0\<rparr>],
    en_blocks = [(0, DATA_REGION_OFFSET) \<mapsto> RecordBlock r], en_alloc = (\<lambda>d. if d = 0 then demo_store else demo_store0),
    en_direct = (\<lambda>_. True), en_mined = demo_mined,
    en_dah = \<lparr>by_height = [(150, [demo_key])], by_txid = [(demo_key, 150)]\<rparr>, en_preserve = hi_empty, en_conflicting = {},
    en_height = 0, en_now = 0, en_redo = True, en_buffered = False, en_poisoned = False, en_journal = [],
    en_tombstones = None, en_dropped = 0, en_io = []\<rparr>"

lemma demo_allocated:
  "store_ok demo_store0 {}" "store_ok demo_store {(DATA_REGION_OFFSET, store_reservation demo_store0 329)}"
  "store_reservation demo_store n = store_reservation demo_store0 n" "0 < store_reservation demo_store0 329"
proof -
  have "(sa_new (2 ^ 30) (2 ^ 12) [])\<lparr>sa_redo_log := False, sa_packed := False, sa_append_only := False\<rparr> = sa_new (2 ^ 30) (2 ^ 12) []"
    by (simp add: sa_new_def)
  then have "sa_inv (sa_new (2 ^ 30) (2 ^ 12) [])" "live_ok (sa_new (2 ^ 30) (2 ^ 12) []) {}"
    using sa_new_inv [where k = 12 and dev = "2 ^ 30" and ident = "[]" and log = False and pk = False and ao = False] by (simp_all add: DATA_REGION_OFFSET_def U64_MAX_def)
  then show ok: "store_ok demo_store0 {}" by (simp add: demo_store0_def store_ok_def slot_holds_def)
  obtain ops where al: "store_allocate demo_store0 329 True = (Inr DATA_REGION_OFFSET, demo_store, ops)"
    by (simp add: demo_store_def demo_store0_def sa_allocate_def reserve_aligned_def align_reservation_def align_up_def sa_new_def fl_new_def
        small_best_fit_def high_water_offset_def checked_add64_def U64_MAX_def DATA_REGION_OFFSET_def
        div_ceil_def wrapping_mul64_def)
  show "store_ok demo_store {(DATA_REGION_OFFSET, store_reservation demo_store0 329)}"
    using dev.allocate_fresh [OF ok al] by simp
  show "store_reservation demo_store n = store_reservation demo_store0 n" by (rule dev.allocate_config [OF ok al])
  show "0 < store_reservation demo_store0 329" by (rule dev.allocate_positive [OF ok _ _ al]) simp_all
qed

definition demo_fit :: "stored_record \<Rightarrow> bool" where
  "demo_fit r \<longleftrightarrow> record_ok demo_key r \<and> record_size (sr_meta r) = 329 \<and> (\<forall>tag. \<not> has_list tag (sr_meta r))"

lemma demo_structure:
  assumes "demo_fit r"
  shows "structure_ok {} (demo r)"
proof -
  have cl: "claim (demo r) c = Some (d, x) \<longleftrightarrow>
      c = (demo_key, BodyClaim) \<and> d = 0 \<and> x = (DATA_REGION_OFFSET, store_reservation demo_store0 329)" for c d x
    using assms by (cases c; cases "snd c")
      (auto simp: claim_def claim_region_def demo_def demo_fit_def loc_def demo_allocated(3))
  have "space_ok {} (demo r) (\<lambda>d. if d = 0 then {(DATA_REGION_OFFSET, store_reservation demo_store0 329)} else {})"
    using demo_allocated(1,2,4) by (auto simp: space_ok_def cl) (simp_all add: demo_def)
  moreover have "records_ok (demo r)"
    using assms by (auto simp: records_ok_def demo_def demo_fit_def loc_def list_ok_def)
  ultimately show ?thesis by (auto simp: structure_ok_def)
qed

lemma demo_record_fit: "demo_fit (demo_record n sl)"
proof -
  have "\<not> has_list tag (sr_meta (demo_record n sl))" for tag
    by (cases tag) (simp_all add: has_list_def demo_record_def demo_meta_def new_metadata_def)
  then show ?thesis
    by (simp add: demo_fit_def) (simp add: demo_record_def record_ok_def demo_meta_def new_metadata_def record_consts)
qed

lemma demo_fields [simp]:
  "en_index (demo r) = [demo_key \<mapsto> \<lparr>ie_device = 0, ie_offset = DATA_REGION_OFFSET, ie_mined_slot = 0\<rparr>]"
  "en_io (demo r) = []" "en_redo (demo r) = True" "en_poisoned (demo r) = False" "en_mined (demo r) = demo_mined"
  "en_alloc (demo r) 0 = demo_store" "record_at (demo r) k = (if k = demo_key then Some r else None)"
  by (simp_all add: demo_def record_at_def loc_def)

lemma demo_in_place [simp]: "\<not> is_log_structured demo_store"
  using demo_allocated(2) by (cases demo_store) (auto simp: demo_store_def demo_store0_def split: prod.splits sum.splits)

lemma demo_mined_read: "read_block_entries demo_mined demo_key 0 = Some ([\<lparr>be_block_id = 7, be_block_height = 100, be_subtree_idx = 0\<rparr>], 0)"
  by (simp add: read_block_entries_def demo_mined_def shard_of_def shard_for_def shard_get_def slot_live_def Let_def
      inline_blocks_def overflow_of_def)

lemma demo_readable [simp]: "en_mined s = demo_mined \<Longrightarrow> readable demo_key 0 s"
  by (simp add: readable_def demo_mined_read)

end
