(* ===== verification/Engine_Contract.thy ===== *)
theory Engine_Contract
  imports Engine_Example
begin

text \<open>
  What the operations on outputs do when the device answers: the complete effect of a spend and of an
  unspend in a store that is updated in place, and the round trips between them.
\<close>

section \<open>Steps without faults\<close>

text \<open>Operations that always return, touch only caches and lose no entry of the mined index.\<close>

definition keeps_readable :: "engine \<Rightarrow> engine \<Rightarrow> bool" where
  "keeps_readable s s' \<longleftrightarrow> (\<forall>key slot. readable key slot s \<longrightarrow> readable key slot s')"

definition mild :: "unit eng \<Rightarrow> bool" where
  "mild m \<longleftrightarrow> (\<forall>s. \<exists>s'. m s = (Inr (), s') \<and> core s' = core s \<and> en_io s' = en_io s \<and> keeps_readable s s')"

named_theorems mild \<open>cache updates\<close>

lemma keeps_readable_mined: "en_mined s' = en_mined s \<Longrightarrow> keeps_readable s s'"
  by (simp add: keeps_readable_def readable_def)

lemma keeps_readable_trans: "keeps_readable s s' \<Longrightarrow> keeps_readable s' s'' \<Longrightarrow> keeps_readable s s''"
  by (simp add: keeps_readable_def)

lemma mild_ret [mild]: "mild (ret ())" by (simp add: mild_def ret_def keeps_readable_def)

lemma mild_modify: "(\<And>s. core (f s) = core s \<and> en_io (f s) = en_io s \<and> keeps_readable s (f s)) \<Longrightarrow> mild (modify f)"
  by (simp add: mild_def modify_def)

lemma mild_then:
  assumes "mild m"
  obtains s' where "core s' = core s" "en_io s' = en_io s" "keeps_readable s s'" "sq m k s = k s'"
proof -
  obtain s' where "m s = (Inr (), s')" "core s' = core s" "en_io s' = en_io s" "keeps_readable s s'"
    using assms unfolding mild_def by blast
  then show thesis using that [of s'] by (simp add: sq_def bnd_def)
qed

lemma mild_sq [mild]:
  assumes "mild m" "mild k"
  shows "mild (sq m k)"
  unfolding mild_def
proof
  fix s
  obtain s1 where 1: "core s1 = core s" "en_io s1 = en_io s" "keeps_readable s s1" "sq m k s = k s1" by (rule mild_then [OF assms(1)])
  obtain s2 where "k s1 = (Inr (), s2)" "core s2 = core s1" "en_io s2 = en_io s1" "keeps_readable s1 s2"
    using assms(2) unfolding mild_def by blast
  then show "\<exists>s'. sq m k s = (Inr (), s') \<and> core s' = core s \<and> en_io s' = en_io s \<and> keeps_readable s s'"
    using 1 keeps_readable_trans by auto
qed

lemma mild_if [mild]: "mild m \<Longrightarrow> mild n \<Longrightarrow> mild (if c then m else n)" by simp

lemma entry_present:
  "read_block_entries mi key slot \<noteq> None \<longleftrightarrow> (\<exists>e. shard_get (shard_of mi key) slot = Some e \<and> me_key_fp e = key_fp key)"
  by (auto simp: read_block_entries_def Let_def split: option.splits)

lemma shard_of_put_shard: "shard_of (put_shard mi k sh) key = (mi_shards mi)[shard_for mi k := sh] ! shard_for mi key"
proof -
  have "shard_for (put_shard mi k sh) key = shard_for mi key" by (simp add: shard_for_def put_shard_def)
  then show ?thesis by (simp add: shard_of_def) (simp add: put_shard_def)
qed

lemma put_modified_present:
  assumes "\<And>e. me_key_fp (f e) = me_key_fp e" "read_block_entries mi key slot \<noteq> None"
  shows "read_block_entries (put_shard mi k (shard_modify (shard_of mi k) sl f)) key slot \<noteq> None"
proof (cases "shard_for mi k < length (mi_shards mi) \<and> shard_for mi k = shard_for mi key")
  case True
  then have "shard_of (put_shard mi k sh) key = sh" "shard_of mi k = shard_of mi key" for sh
    unfolding shard_of_put_shard by (simp_all add: shard_of_def)
  then show ?thesis using assms unfolding entry_present by (auto simp: shard_get_modify)
next
  case False
  then have "shard_of (put_shard mi k sh) key = shard_of mi key" for sh
    unfolding shard_of_put_shard by (cases "shard_for mi k < length (mi_shards mi)") (auto simp: shard_of_def list_update_beyond)
  then show ?thesis using assms(2) unfolding entry_present by simp
qed

lemma flags_present:
  assumes "read_block_entries mi key slot \<noteq> None"
  shows "read_block_entries (set_all_spent mi k sl b) key slot \<noteq> None"
    "read_block_entries (reseed_de_flags mi k sl de) key slot \<noteq> None"
    "read_block_entries (set_de_flag mi k sl msk b) key slot \<noteq> None"
  using put_modified_present [OF _ assms] assms
  by (auto simp: set_all_spent_def reseed_de_flags_def set_de_flag_def modify_flags_fp_def Let_def split: option.splits)

lemma keeps_caches:
  "keeps_readable s (s\<lparr>en_mined := set_all_spent (en_mined s) k sl b\<rparr>)"
  "keeps_readable s (s\<lparr>en_mined := reseed_de_flags (en_mined s) k sl de\<rparr>)"
  "keeps_readable s (s\<lparr>en_mined := set_de_flag (en_mined s) k sl msk b\<rparr>)"
  "keeps_readable s (s\<lparr>en_dah := d\<rparr>)" "keeps_readable s (s\<lparr>en_height := h\<rparr>)"
  unfolding keeps_readable_def readable_def using flags_present by (simp_all del: not_None_eq)

lemma mild_caches [mild]:
  "mild (note_all_spent key slot b)" "mild (mirror_de_flags key slot m)" "mild (note_patch key slot p)"
  "mild (update_dah_index key old new)" "mild (observe_block_height h)"
  unfolding note_all_spent_def mirror_de_flags_def note_patch_def set_cache_lsa_def update_dah_index_def observe_block_height_def
    modify_mined_def
  by (auto intro!: mild mild_modify simp: core_def keeps_caches split: option.split)

lemma calm_io: "en_io s = [] \<Longrightarrow> device_io s = (Inr (), s)" "en_io s = [] \<Longrightarrow> fast_io d s = (Inr (), s)"
  by (simp_all add: device_io_def fast_io_def)

lemma calm_fast:
  assumes "en_io s = []" "en_blocks s (d, off) = Some (RecordBlock r)"
  shows "read_metadata_fast d off s = (Inr (sr_meta r), s)"
    "unat i < length (sr_slots r) \<Longrightarrow> read_slot_fast d off i s = (Inr (sr_slots r ! unat i), s)"
    "write_metadata_fast d off m s = (Inr (), put_at (d, off) (RecordBlock (r\<lparr>sr_meta := m\<rparr>)) s)"
    "write_slot_fast d off i sl s = (Inr (), put_at (d, off) (RecordBlock (r\<lparr>sr_slots := (sr_slots r)[unat i := sl]\<rparr>)) s)"
  using assms
  by (simp_all add: read_metadata_fast_def read_slot_fast_def write_metadata_fast_def write_slot_fast_def sq_def bnd_def calm_io
      read_block_def put_block_def modify_def ret_def)

text \<open>The mined state of a record, the header with the last-all-spent bit taken from the cache, and the header a patch
  leaves.\<close>

definition mined_at :: "engine \<Rightarrow> txkey \<Rightarrow> u32 \<Rightarrow> (block_entry list \<times> u32) option" where
  "mined_at s key slot = (if slot = NO_MINED_SLOT then Some ([], 0) else read_block_entries (en_mined s) key slot)"

definition cached_lsa :: "engine \<Rightarrow> txkey \<Rightarrow> u32 \<Rightarrow> tx_metadata \<Rightarrow> tx_metadata" where
  "cached_lsa s key slot m = m\<lparr>flags := flag_set (flags m) LAST_SPENT_ALL
     (cache_authoritative_lsa (en_mined s) key slot (flag_contains (flags m) LAST_SPENT_ALL))\<rparr>"

definition patched :: "tx_metadata \<Rightarrow> dah_patch option \<Rightarrow> tx_metadata" where
  "patched m patch = (case patch of Some p \<Rightarrow> apply_dah_patch m p | None \<Rightarrow> m)"

lemma entries_at: "mined_block_entries_at key slot s =
    (case mined_at s key slot of Some r \<Rightarrow> (Inr r, s) | None \<Rightarrow> (Inl StorageError, s))"
  by (simp add: mined_block_entries_at_def mined_at_def split: option.split)

lemma readable_at: "readable key slot s \<longleftrightarrow> mined_at s key slot \<noteq> None"
  by (simp add: readable_def mined_at_def)

lemma mined_weather [simp]: "mined_at (s\<lparr>en_height := h\<rparr>) = mined_at s" "cached_lsa (s\<lparr>en_height := h\<rparr>) = cached_lsa s"
  by (simp_all add: fun_eq_iff mined_at_def cached_lsa_def)

lemma calm_entries:
  assumes "readable key slot s"
  obtains es um where "mined_at s key slot = Some (es, um)" "mined_block_entries_at key slot s = (Inr (es, um), s)"
  using assms by (auto simp: readable_at entries_at)

lemma flag_set_again: "flag_set (flag_set f g b) g c = flag_set f g c"
  by (rule bit_word_eqI)
    (auto simp: flag_set_def flag_insert_def flag_remove_def bit_or_iff bit_and_iff bit_not_iff)

lemma patched_lsa:
  "\<exists>b dah. patched (cached_lsa s key slot m) patch = m\<lparr>flags := flag_set (flags m) LAST_SPENT_ALL b, delete_at_height := dah\<rparr>"
proof (cases patch)
  case None
  then show ?thesis
    unfolding patched_def cached_lsa_def
    by (intro exI [of _ "cache_authoritative_lsa (en_mined s) key slot (flag_contains (flags m) LAST_SPENT_ALL)"]
        exI [of _ "delete_at_height m"]) simp
next
  case (Some p)
  then show ?thesis
    by (intro exI [of _ "last_spent_all p"] exI [of _ "new_delete_at_height p"])
      (simp add: patched_def cached_lsa_def apply_dah_patch_def flag_set_again)
qed

lemma patched_is_from: "patched_from m (patched (cached_lsa s key slot m) patch)"
  using patched_lsa [of s key slot m patch] unfolding patched_from_def by blast

lemma recounted_header:
  "\<exists>b dah. patched (cached_lsa s key slot (touched now (m\<lparr>spent_utxos := n\<rparr>))) patch =
    m\<lparr>spent_utxos := n, generation := generation m + 1, updated_at := now, flags := flag_set (flags m) LAST_SPENT_ALL b,
      delete_at_height := dah\<rparr>"
  using patched_lsa [of s key slot "touched now (m\<lparr>spent_utxos := n\<rparr>)" patch] by (simp add: touched_def)

text \<open>Noting that all outputs are spent leaves the mined state and the evaluation flags as they are.\<close>

lemma with_entry_set_all_spent:
  assumes "\<And>e. f (e\<lparr>me_flags := me_flags e OR MINED_ALL_SPENT\<rparr>) = f e"
    "\<And>e. f (e\<lparr>me_flags := me_flags e AND NOT MINED_ALL_SPENT\<rparr>) = f e"
  shows "with_entry (set_all_spent mi key slot b) key slot f = with_entry mi key slot f"
proof (cases "shard_for mi key < length (mi_shards mi)")
  case True
  then show ?thesis using assms
    by (auto simp: with_entry_def set_all_spent_def shard_of_put_shard shard_of_def [of mi] shard_get_modify split: option.splits)
next
  case False
  then have "put_shard mi key sh = mi" for sh by (simp add: put_shard_def list_update_beyond)
  then show ?thesis by (simp add: set_all_spent_def)
qed

lemma set_all_spent_views:
  "read_block_entries (set_all_spent mi key slot b) key slot = read_block_entries mi key slot"
  "read_de_flags (set_all_spent mi key slot b) key slot = read_de_flags mi key slot"
proof -
  have mask: "MINED_DE_FLAG_MASK AND MINED_ALL_SPENT = 0" by (simp add: MINED_DE_FLAG_MASK_def mined_flag_consts)
  have "\<not> (bit MINED_DE_FLAG_MASK n \<and> bit MINED_ALL_SPENT n)" for n using mask by (metis bit_and_iff bit_0_eq bot_apply bot_bool_def)
  then have "(fl OR MINED_ALL_SPENT) AND MINED_DE_FLAG_MASK = fl AND MINED_DE_FLAG_MASK"
      "(fl AND NOT MINED_ALL_SPENT) AND MINED_DE_FLAG_MASK = fl AND MINED_DE_FLAG_MASK" for fl
    by (auto intro!: bit_word_eqI simp: bit_or_iff bit_and_iff bit_not_iff)
  then show "read_de_flags (set_all_spent mi key slot b) key slot = read_de_flags mi key slot"
    unfolding read_de_flags_def by (intro with_entry_set_all_spent) simp_all
  show "read_block_entries (set_all_spent mi key slot b) key slot = read_block_entries mi key slot"
  proof (cases "shard_for mi key < length (mi_shards mi)")
    case True
    then show ?thesis
      by (auto simp: read_block_entries_def set_all_spent_def shard_of_def put_shard_def shard_for_def Let_def shard_get_modify
          inline_blocks_def split: option.splits)
  next
    case False
    then show ?thesis by (simp add: set_all_spent_def put_shard_def list_update_beyond)
  qed
qed

text \<open>The recount shared by spend and unspend: note, read the mined state, evaluate.\<close>

lemma recount_middle:
  assumes "readable key slot s" "no_overflow h rt"
  obtains sig patch es um s' where "core s' = core s" "en_io s' = en_io s" "keeps_readable s s'" "mined_at s key slot = Some (es, um)"
    "evaluate_delete_at_height (cached_lsa s key slot m1) (es \<noteq> []) um h rt = Inr (sig, patch)"
    "sq (if c then note_all_spent key slot b else ret ()) (bnd (mined_block_entries_at key slot) (\<lambda>(es, um).
       bnd (evaluate_patched key slot m1 (es \<noteq> []) um h rt) (k es))) s =
     k es (sig, patch, patched (cached_lsa s key slot m1) patch) s'"
proof -
  let ?s = "if c \<and> slot \<noteq> NO_MINED_SLOT then s\<lparr>en_mined := set_all_spent (en_mined s) key slot b\<rparr> else s"
  have nt: "(if c then note_all_spent key slot b else ret ()) s = (Inr (), ?s)"
    by (simp add: note_all_spent_def ret_def modify_mined_def modify_def)
  obtain es um where en: "mined_at s key slot = Some (es, um)" by (rule calm_entries [OF assms(1)])
  have at: "mined_at ?s key slot = mined_at s key slot" by (simp add: mined_at_def set_all_spent_views)
  have lsa: "cached_lsa ?s key slot m1 = cached_lsa s key slot m1"
    by (simp add: cached_lsa_def cache_authoritative_lsa_def set_all_spent_views)
  obtain sig patch where ev: "evaluate_delete_at_height (cached_lsa s key slot m1) (es \<noteq> []) um h rt = Inr (sig, patch)"
    by (rule evaluate_no_overflow [OF assms(2)])
  have ep: "evaluate_patched key slot m1 (es \<noteq> []) um h rt ?s = (Inr (sig, patch, patched (cached_lsa s key slot m1) patch), ?s)"
    using ev unfolding lsa [symmetric]
    by (simp add: evaluate_patched_def cached_lsa_def patched_def bnd_def gets_def lift_sum_def ret_def Let_def)
  have "keeps_readable s ?s" by (simp add: keeps_caches keeps_readable_mined)
  then show thesis
    by (rule that [of ?s es um sig patch, rotated 2]) (use nt en at ev ep in \<open>simp_all add: entries_at sq_def bnd_def core_def\<close>)
qed

section \<open>Spend\<close>

text \<open>When the guards of a spend let it through, given the mined state of the record: a conflicting record only if the
  request says so, a locked one if the request says so or the record is in a block, a coinbase only once it is mature.\<close>

definition guards_pass :: "(block_entry list \<times> u32) option \<Rightarrow> tx_metadata \<Rightarrow> bool \<Rightarrow> bool \<Rightarrow> u32 \<Rightarrow> bool" where
  "guards_pass mined m ignore_conflicting ignore_locked height \<longleftrightarrow>
    (flag_contains (flags m) CONFLICTING \<longrightarrow> ignore_conflicting) \<and>
    (flag_contains (flags m) LOCKED \<longrightarrow> ignore_locked \<or> (\<exists>b es um. mined = Some (b # es, um))) \<and>
    (flag_contains (flags m) IS_COINBASE \<longrightarrow> spending_height m \<le> height)"

lemma calm_guards:
  "guards_pass (mined_at s key slot) m ic il h \<longleftrightarrow> spend_guards key slot m ic il h s = (Inr (), s)"
  by (auto simp: spend_guards_def guards_pass_def entries_at sq_def bnd_def fail_if_def ret_def throw_def neq_Nil_conv
      word_gt_0 split: option.splits)

lemma calm_lookup: "en_index s key = Some e \<Longrightarrow> lookup_or_not_found key s = (Inr e, s)"
  by (simp add: lookup_or_not_found_def lookup_checked_def bnd_def gets_def ret_def)

lemma sq_run: "m s = (Inr x, s') \<Longrightarrow> sq m k s = k s'" "m s = (Inr x, s') \<Longrightarrow> bnd m f s = f x s'"
  by (simp_all add: sq_def bnd_def)

lemma sq_fail_if: "\<not> c \<Longrightarrow> sq (fail_if c er) k s = k s"
  by (simp add: sq_def bnd_def fail_if_def ret_def)

lemma mild_tail:
  assumes "mild m1" "mild m2" "mild m3"
  obtains s' where "core s' = core s" "en_io s' = en_io s" "keeps_readable s s'" "sq m1 (sq m2 (sq m3 (ret x))) s = (Inr x, s')"
proof -
  obtain s1 where 1: "core s1 = core s" "en_io s1 = en_io s" "keeps_readable s s1" "sq m1 (sq m2 (sq m3 (ret x))) s = sq m2 (sq m3 (ret x)) s1" by (rule mild_then [OF assms(1)])
  obtain s2 where 2: "core s2 = core s1" "en_io s2 = en_io s1" "keeps_readable s1 s2" "sq m2 (sq m3 (ret x)) s1 = sq m3 (ret x) s2" by (rule mild_then [OF assms(2)])
  obtain s3 where 3: "core s3 = core s2" "en_io s3 = en_io s2" "keeps_readable s2 s3" "sq m3 (ret x) s2 = ret x s3" by (rule mild_then [OF assms(3)])
  have "keeps_readable s s3" using 1(3) 2(3) 3(3) keeps_readable_trans by blast
  then show thesis by (rule that [of s3, rotated 2]) (use 1 2 3 in \<open>simp_all add: ret_def\<close>)
qed

lemma calm_persist:
  assumes "en_io s = []" "en_blocks s (d, off) = Some (RecordBlock r)" "\<not> is_log_structured (en_alloc s d)"
  shows "persist_spend d off key m [(i, sl)] True s =
    (Inr (), put_at (d, off) (RecordBlock (r\<lparr>sr_slots := (sr_slots r)[unat i := sl], sr_meta := m\<rparr>)) s)"
  using assms by (simp add: persist_spend_def sq_def bnd_def gets_def calm_fast ret_def)

lemma calm_commit_spend:
  assumes at: "at R V I {} s" and e: "I (rq_key rq) = Some e" and v: "V (rq_key rq) = Some (r, ls)" and calm: "en_io s = []"
    and ip: "\<not> is_log_structured (en_alloc s (ie_device e))"
    and rd: "readable (rq_key rq) (ie_mined_slot e) s" and no: "no_overflow (rq_height rq) (rq_retention rq)"
  obtains es um sig patch s' m where "mined_at s (rq_key rq) (ie_mined_slot e) = Some (es, um)"
    "evaluate_delete_at_height (cached_lsa s (rq_key rq) (ie_mined_slot e)
       (touched (en_now s) ((sr_meta r)\<lparr>spent_utxos := spent_utxos (sr_meta r) + 1\<rparr>))) (es \<noteq> []) um (rq_height rq) (rq_retention rq) =
     Inr (sig, patch)"
    "m = patched (cached_lsa s (rq_key rq) (ie_mined_slot e)
       (touched (en_now s) ((sr_meta r)\<lparr>spent_utxos := spent_utxos (sr_meta r) + 1\<rparr>))) patch"
    "commit_spend rq e (sr_meta r) s = (Inr \<lparr>sp_signal = sig, sp_block_ids = map be_block_id es\<rparr>, s')"
    "at R (V(rq_key rq \<mapsto> (r\<lparr>sr_slots := (sr_slots r)[unat (rq_offset rq) := new_spent (rq_hash rq) (rq_data rq)], sr_meta := m\<rparr>, ls))) I {} s'"
    "en_io s' = []" "keeps_readable s s'"
proof -
  let ?sl = "new_spent (rq_hash rq) (rq_data rq)" and ?d = "ie_device e" and ?o = "ie_offset e"
  let ?m1 = "touched (en_now s) ((sr_meta r)\<lparr>spent_utxos := spent_utxos (sr_meta r) + 1\<rparr>)"
  define k where "k = (\<lambda>(es :: block_entry list) (sig, patch, m2). sq (persist_spend ?d ?o (rq_key rq) m2 [(rq_offset rq, ?sl)] True)
     (sq (mirror_de_flags (rq_key rq) (ie_mined_slot e) m2) (sq (note_patch (rq_key rq) (ie_mined_slot e) patch)
     (sq (update_dah_index (rq_key rq) (delete_at_height (sr_meta r)) (delete_at_height m2))
        (ret \<lparr>sp_signal = sig, sp_block_ids = map be_block_id es\<rparr>)))))"
  let ?c1 = "cached_lsa s (rq_key rq) (ie_mined_slot e) ?m1"
  obtain sig patch es um s1 where c: "core s1 = core s" "en_io s1 = en_io s" and kr: "keeps_readable s s1"
    and en: "mined_at s (rq_key rq) (ie_mined_slot e) = Some (es, um)"
    and ev: "evaluate_delete_at_height ?c1 (es \<noteq> []) um (rq_height rq) (rq_retention rq) = Inr (sig, patch)"
    and mid0: "sq (if spent_utxos ?m1 = utxo_count (sr_meta r) then note_all_spent (rq_key rq) (ie_mined_slot e) True else ret ())
      (bnd (mined_block_entries_at (rq_key rq) (ie_mined_slot e)) (\<lambda>(es, um).
       bnd (evaluate_patched (rq_key rq) (ie_mined_slot e) ?m1 (es \<noteq> []) um (rq_height rq) (rq_retention rq)) (k es))) s =
      k es (sig, patch, patched ?c1 patch) s1"
    by (rule recount_middle [OF rd no, where k = k and ?m1.0 = ?m1 and b = True and
        c = "spent_utxos ?m1 = utxo_count (sr_meta r)"]) (rule that, assumption+)
  define m2 where "m2 = patched ?c1 patch"
  have p: "patched_from ?m1 m2" unfolding m2_def by (rule patched_is_from)
  note mid = mid0 [folded m2_def]
  let ?r = "r\<lparr>sr_slots := (sr_slots r)[unat (rq_offset rq) := ?sl], sr_meta := m2\<rparr>"
  have eq: "commit_spend rq e (sr_meta r) s = k es (sig, patch, m2) s1"
    unfolding mid [symmetric] by (simp add: k_def commit_spend_def Let_def bnd_def [of "gets en_now"] gets_def)
  have a1: "at R V I {} s1" by (rule at_core [OF at c(1)])
  have "persist_spend ?d ?o (rq_key rq) m2 [(rq_offset rq, ?sl)] True s1 = (Inr (), put_at (?d, ?o) (RecordBlock ?r) s1)"
    by (rule calm_persist) (use at_block [OF a1 e v] calm ip c core_eqD(3) [OF c(1)] in simp_all)
  then have tail: "k es (sig, patch, m2) s1 = sq (mirror_de_flags (rq_key rq) (ie_mined_slot e) m2)
      (sq (note_patch (rq_key rq) (ie_mined_slot e) patch)
      (sq (update_dah_index (rq_key rq) (delete_at_height (sr_meta r)) (delete_at_height m2))
        (ret \<lparr>sp_signal = sig, sp_block_ids = map be_block_id es\<rparr>))) (put_at (?d, ?o) (RecordBlock ?r) s1)"
    by (simp add: k_def sq_run)
  obtain s' where s': "core s' = core (put_at (?d, ?o) (RecordBlock ?r) s1)" "en_io s' = en_io (put_at (?d, ?o) (RecordBlock ?r) s1)"
    "keeps_readable (put_at (?d, ?o) (RecordBlock ?r) s1) s'"
    "k es (sig, patch, m2) s1 = (Inr \<lparr>sp_signal = sig, sp_block_ids = map be_block_id es\<rparr>, s')"
    unfolding tail by (rule mild_tail [OF mild_caches(2) mild_caches(3) mild_caches(4)])
  note h = counted_header [OF p]
  have "at R (V(rq_key rq \<mapsto> (?r, ls))) I {} (put_at (loc e) (RecordBlock ?r) s1)"
    by (rule at_put_record [OF a1 e v]) (use h(3) in \<open>simp add: same_claims_def same_header_def\<close>)
  then have a2: "at R (V(rq_key rq \<mapsto> (?r, ls))) I {} s'" by (rule at_core) (simp add: s'(1) loc_def)
  have "keeps_readable s s'"
    using kr s'(3) keeps_readable_trans [OF keeps_readable_mined, of "put_at (?d, ?o) (RecordBlock ?r) s1" s1 s'] keeps_readable_trans by simp
  then show thesis by (rule that [OF en ev m2_def _ a2, rotated 2]) (use eq s' c calm in simp_all)
qed

lemma calm_commit_header:
  assumes "at R V I {} s" "I (rq_key rq) = Some e" "V (rq_key rq) = Some (r, ls)" "en_io s = []"
    "\<not> is_log_structured (en_alloc s (ie_device e))" "readable (rq_key rq) (ie_mined_slot e) s"
    "no_overflow (rq_height rq) (rq_retention rq)"
  obtains resp s' m now b dah where "commit_spend rq e (sr_meta r) s = (Inr resp, s')"
    "m = (sr_meta r)\<lparr>spent_utxos := spent_utxos (sr_meta r) + 1, generation := generation (sr_meta r) + 1, updated_at := now,
       flags := flag_set (flags (sr_meta r)) LAST_SPENT_ALL b, delete_at_height := dah\<rparr>"
    "at R (V(rq_key rq \<mapsto> (r\<lparr>sr_slots := (sr_slots r)[unat (rq_offset rq) := new_spent (rq_hash rq) (rq_data rq)], sr_meta := m\<rparr>, ls))) I {} s'"
    "en_io s' = []" "keeps_readable s s'"
proof -
  obtain resp patch s' m where c: "m = patched (cached_lsa s (rq_key rq) (ie_mined_slot e)
       (touched (en_now s) ((sr_meta r)\<lparr>spent_utxos := spent_utxos (sr_meta r) + 1\<rparr>))) patch"
    "commit_spend rq e (sr_meta r) s = (Inr resp, s')"
    "at R (V(rq_key rq \<mapsto> (r\<lparr>sr_slots := (sr_slots r)[unat (rq_offset rq) := new_spent (rq_hash rq) (rq_data rq)], sr_meta := m\<rparr>, ls))) I {} s'"
    "en_io s' = []" "keeps_readable s s'"
    by (rule calm_commit_spend [OF assms]) (rule that, assumption+)
  obtain b dah where "m = (sr_meta r)\<lparr>spent_utxos := spent_utxos (sr_meta r) + 1, generation := generation (sr_meta r) + 1,
      updated_at := en_now s, flags := flag_set (flags (sr_meta r)) LAST_SPENT_ALL b, delete_at_height := dah\<rparr>"
    unfolding c(1) using recounted_header [where m = "sr_meta r" and n = "spent_utxos (sr_meta r) + 1"] by blast
  then show thesis by (rule that [OF c(2) _ c(3,4,5)])
qed

lemma at_record: "at R V I X s \<Longrightarrow> record_at s k = map_option fst (V k)"
  by (simp add: record_view at_def)

lemma at_weather: "at R V I X s \<Longrightarrow> at R V I X (s\<lparr>en_height := h\<rparr>)"
  by (erule at_core) (simp add: core_def)

lemma calm_spend_cases:
  assumes at: "at R V I {} s" and e: "I (rq_key rq) = Some e" and v: "V (rq_key rq) = Some (r, ls)" and calm: "en_io s = []"
    and off: "rq_offset rq < utxo_count (sr_meta r)" and dat: "rq_data rq \<noteq> FROZEN_DATA"
    and g: "guards_pass (mined_at s (rq_key rq) (ie_mined_slot e)) (sr_meta r) (rq_ignore_conflicting rq) (rq_ignore_locked rq) (rq_height rq)"
  shows "spend rq s = (case judge_slot (sr_slots r ! unat (rq_offset rq)) (rq_offset rq) (rq_hash rq) (rq_data rq) (rq_height rq) of
       Refuse err \<Rightarrow> throw err
     | Respend \<Rightarrow>
         bnd (child_deleted (ie_device e) (sr_meta r) (rq_data rq)) (\<lambda>gone.
         sq (fail_if gone (DeletedChildren (rq_offset rq) (deleted_children_count (sr_meta r))))
        (bnd (mined_block_entries_at (rq_key rq) (ie_mined_slot e)) (\<lambda>(es, _).
           ret \<lparr>sp_signal = SigNone, sp_block_ids = map be_block_id es\<rparr>)))
     | SpendSlot \<Rightarrow> commit_spend rq e (sr_meta r)) (s\<lparr>en_height := max (en_height s) (rq_height rq)\<rparr>)"
proof -
  let ?s = "s\<lparr>en_height := max (en_height s) (rq_height rq)\<rparr>"
  have a: "at R V I {} ?s" by (rule at_weather [OF at])
  have i: "unat (rq_offset rq) < length (sr_slots r)"
    using off at_slots(1) [OF a v] by (simp add: word_less_nat_alt)
  have b: "en_blocks ?s (ie_device e, ie_offset e) = Some (RecordBlock r)" by (rule at_block [OF a e v])
  have c: "en_io ?s = []" using calm by simp
  have g': "spend_guards (rq_key rq) (ie_mined_slot e) (sr_meta r) (rq_ignore_conflicting rq) (rq_ignore_locked rq) (rq_height rq) ?s = (Inr (), ?s)"
    using g unfolding calm_guards [symmetric] by (simp add: mined_weather)
  have "en_index ?s (rq_key rq) = Some e" using a e by (simp add: at_def)
  then show ?thesis
    using g' off dat calm_fast(1) [OF c b] calm_fast(2) [OF c b i]
    by (simp add: spend_def Let_def observe_block_height_def sq_run(1) [of "modify f" for f, OF modify_def] sq_fail_if
        sq_run calm_lookup not_le)
qed

lemma calm_spend:
  assumes "at R V I {} s" "I (rq_key rq) = Some e" "V (rq_key rq) = Some (r, ls)" "en_io s = []"
    "rq_offset rq < utxo_count (sr_meta r)" "rq_data rq \<noteq> FROZEN_DATA"
    "guards_pass (mined_at s (rq_key rq) (ie_mined_slot e)) (sr_meta r) (rq_ignore_conflicting rq) (rq_ignore_locked rq) (rq_height rq)"
    and j: "judge_slot (sr_slots r ! unat (rq_offset rq)) (rq_offset rq) (rq_hash rq) (rq_data rq) (rq_height rq) = SpendSlot"
  shows "spend rq s = commit_spend rq e (sr_meta r) (s\<lparr>en_height := max (en_height s) (rq_height rq)\<rparr>)"
  unfolding calm_spend_cases [OF assms(1-7)] j by simp

text \<open>A repeated spend by the same spender answers from the caches.\<close>

lemma calm_respend:
  assumes at: "at R V I {} s" "I (rq_key rq) = Some e" "V (rq_key rq) = Some (r, ls)" "en_io s = []"
    "rq_offset rq < utxo_count (sr_meta r)" "rq_data rq \<noteq> FROZEN_DATA"
    "guards_pass (mined_at s (rq_key rq) (ie_mined_slot e)) (sr_meta r) (rq_ignore_conflicting rq) (rq_ignore_locked rq) (rq_height rq)"
    and j: "judge_slot (sr_slots r ! unat (rq_offset rq)) (rq_offset rq) (rq_hash rq) (rq_data rq) (rq_height rq) = Respend"
    and kids: "take 32 (rq_data rq) \<notin> set (ls DeletedClaim)" and rd: "readable (rq_key rq) (ie_mined_slot e) s"
  obtains resp where "spend rq s = (Inr resp, s\<lparr>en_height := max (en_height s) (rq_height rq)\<rparr>)"
proof -
  let ?s = "s\<lparr>en_height := max (en_height s) (rq_height rq)\<rparr>"
  have a: "at R V I {} ?s" by (rule at_weather [OF at(1)])
  have "readable (rq_key rq) (ie_mined_slot e) ?s" using rd by (simp add: readable_def)
  then obtain es um where en: "mined_block_entries_at (rq_key rq) (ie_mined_slot e) ?s = (Inr (es, um), ?s)" by (rule calm_entries)
  obtain f where "I (rq_key rq) = Some f" "ls = (\<lambda>t. list_at ?s (ie_device f) (list_count t (sr_meta r)) (list_offset t (sr_meta r)))"
    using at_viewed [OF a at(3)] by blast
  then have ls: "ls DeletedClaim = list_at ?s (ie_device e) (unat (deleted_children_count (sr_meta r))) (unat (deleted_children_offset (sr_meta r)))"
    using at(2) by simp
  have io: "device_io ?s = (Inr (), ?s)" using at(4) by (simp add: calm_io)
  have "child_deleted (ie_device e) (sr_meta r) (rq_data rq) ?s = (Inr False, ?s)"
    using kids io unfolding ls
    by (auto simp: child_deleted_def read_children_at_def sq_def bnd_def gets_def ret_def list_at_def split: if_splits)
  then have "spend rq s = (Inr \<lparr>sp_signal = SigNone, sp_block_ids = map be_block_id es\<rparr>, ?s)"
    unfolding calm_spend_cases [OF at(1-7)] j using en by (simp add: sq_def bnd_def fail_if_def ret_def)
  then show thesis by (rule that)
qed

section \<open>Unspend\<close>

lemma calm_unspend_recount:
  assumes at: "at R (V(uq_key rq \<mapsto> (r1, ls))) I {} s" and e: "I (uq_key rq) = Some e" and calm: "en_io s = []"
    and own: "caller_owns_spend sl (uq_data rq)" and m: "sr_meta r1 = m"
    and rd: "readable (uq_key rq) (ie_mined_slot e) s" and no: "no_overflow (uq_height rq) (uq_retention rq)"
  obtains resp s' m2 b dah where "unspend_recount rq e m sl s = (Inr resp, s')"
    "m2 = (touched (en_now s) (m\<lparr>spent_utxos := spent_utxos m - 1\<rparr>))\<lparr>flags := flag_set (flags m) LAST_SPENT_ALL b, delete_at_height := dah\<rparr>"
    "at R (V(uq_key rq \<mapsto> (r1\<lparr>sr_meta := m2\<rparr>, ls))) I {} s'" "en_io s' = []" "keeps_readable s s'"
proof -
  let ?m1 = "touched (en_now s) (m\<lparr>spent_utxos := spent_utxos m - 1\<rparr>)" and ?d = "ie_device e" and ?o = "ie_offset e"
  let ?c1 = "cached_lsa s (uq_key rq) (ie_mined_slot e) ?m1"
  obtain sig patch s1 where c: "core s1 = core s" "en_io s1 = en_io s" and kr: "keeps_readable s s1"
    and mid0: "sq (if True then note_all_spent (uq_key rq) (ie_mined_slot e) False else ret ())
      (bnd (mined_block_entries_at (uq_key rq) (ie_mined_slot e)) (\<lambda>(es, um).
       bnd (evaluate_patched (uq_key rq) (ie_mined_slot e) ?m1 (es \<noteq> []) um (uq_height rq) (uq_retention rq)) (unspend_finish rq e m sl))) s =
      unspend_finish rq e m sl (sig, patch, patched ?c1 patch) s1"
    by (rule recount_middle [OF rd no, where k = "\<lambda>_. unspend_finish rq e m sl" and ?m1.0 = ?m1 and b = False and c = True])
      (rule that, assumption+)
  define m2 where "m2 = patched ?c1 patch"
  have p: "patched_from ?m1 m2" unfolding m2_def by (rule patched_is_from)
  obtain b dah where m2: "m2 = ?m1\<lparr>flags := flag_set (flags ?m1) LAST_SPENT_ALL b, delete_at_height := dah\<rparr>"
    unfolding m2_def using patched_lsa by blast
  note mid = mid0 [folded m2_def]
  have eq: "unspend_recount rq e m sl s = unspend_finish rq e m sl (sig, patch, m2) s1"
    unfolding mid [symmetric] using own by (simp add: unspend_recount_def Let_def bnd_def [of "gets en_now"] gets_def)
  note h = counted_header [OF p]
  have a1: "at R (V(uq_key rq \<mapsto> (r1, ls))) I {} s1" by (rule at_core [OF at c(1)])
  have v: "(V(uq_key rq \<mapsto> (r1, ls))) (uq_key rq) = Some (r1, ls)" by simp
  let ?s2 = "put_at (?d, ?o) (RecordBlock (r1\<lparr>sr_meta := m2\<rparr>)) s1"
  have "persist_unspend e rq sl True m2 s1 = (Inr (), ?s2)"
    unfolding persist_unspend_def
    using calm_fast(3) [OF _ at_block [OF a1 e v], of m2] calm c(2) by (simp add: bnd_def attempt_def ret_def)
  moreover obtain s' where s': "core s' = core ?s2" "en_io s' = en_io ?s2" "keeps_readable ?s2 s'"
    "sq (sq (mirror_de_flags (uq_key rq) (ie_mined_slot e) m2) (sq (note_patch (uq_key rq) (ie_mined_slot e) patch)
       (update_dah_index (uq_key rq) (delete_at_height m) (delete_at_height m2)))) (ret \<lparr>up_signal = sig, up_generation = generation m2\<rparr>) ?s2 =
     ret \<lparr>up_signal = sig, up_generation = generation m2\<rparr> s'"
    by (rule mild_then [OF mild_sq [OF mild_caches(2) mild_sq [OF mild_caches(3) mild_caches(4)]]])
  ultimately have "unspend_finish rq e m sl (sig, patch, m2) s1 = (Inr \<lparr>up_signal = sig, up_generation = generation m2\<rparr>, s')"
    using own by (simp add: unspend_finish_def Let_def sq_def bnd_def ret_def)
  moreover have "at R ((V(uq_key rq \<mapsto> (r1, ls)))(uq_key rq \<mapsto> (r1\<lparr>sr_meta := m2\<rparr>, ls))) I {} (put_at (loc e) (RecordBlock (r1\<lparr>sr_meta := m2\<rparr>)) s1)"
    by (rule at_put_record [OF a1 e v same_claims_meta]) (use h(3) m in simp)
  then have "at R (V(uq_key rq \<mapsto> (r1\<lparr>sr_meta := m2\<rparr>, ls))) I {} s'"
    unfolding fun_upd_upd by (rule at_core) (simp add: s'(1) loc_def)
  moreover have "keeps_readable s s'"
    using kr s'(3) keeps_readable_trans [OF keeps_readable_mined, of ?s2 s1 s'] keeps_readable_trans by simp
  moreover have "m2 = ?m1\<lparr>flags := flag_set (flags m) LAST_SPENT_ALL b, delete_at_height := dah\<rparr>" using m2 by (simp add: touched_def)
  ultimately show thesis using that eq s'(2) c(2) calm by simp
qed

lemma calm_unspend_start:
  assumes at: "at R V I {} s" and e: "I (uq_key rq) = Some e" and v: "V (uq_key rq) = Some (r, ls)" and calm: "en_io s = []"
    and off: "uq_offset rq < utxo_count (sr_meta r)" and hash: "slot_hash (sr_slots r ! unat (uq_offset rq)) = uq_hash rq"
    and own: "caller_owns_spend (sr_slots r ! unat (uq_offset rq)) (uq_data rq)" and nz: "spent_utxos (sr_meta r) \<noteq> 0"
  obtains s1 where "unspend rq s = unspend_recount rq e (sr_meta r) (sr_slots r ! unat (uq_offset rq)) s1"
    "at R (V(uq_key rq \<mapsto> (r\<lparr>sr_slots := (sr_slots r)[unat (uq_offset rq) := new_unspent (uq_hash rq)]\<rparr>, ls))) I {} s1"
    "en_io s1 = []" "en_mined s1 = en_mined s" "en_redo s1 = en_redo s" "en_poisoned s1 = en_poisoned s"
proof -
  let ?s = "s\<lparr>en_height := max (en_height s) (uq_height rq)\<rparr>" and ?sl = "sr_slots r ! unat (uq_offset rq)"
  let ?r1 = "r\<lparr>sr_slots := (sr_slots r)[unat (uq_offset rq) := new_unspent (uq_hash rq)]\<rparr>"
  let ?s1 = "put_at (ie_device e, ie_offset e) (RecordBlock ?r1) ?s"
  have a: "at R V I {} ?s" by (rule at_weather [OF at])
  have i: "unat (uq_offset rq) < length (sr_slots r)" using off at_slots(1) [OF a v] by (simp add: word_less_nat_alt)
  have b: "en_blocks ?s (ie_device e, ie_offset e) = Some (RecordBlock r)" by (rule at_block [OF a e v])
  have c: "en_io ?s = []" using calm by simp
  have st: "status ?sl = UTXO_SPENT" "status ?sl \<noteq> UTXO_PRUNED" using own by (simp_all add: caller_owns_spend_def record_consts)
  have "en_index ?s (uq_key rq) = Some e" using a e by (simp add: at_def)
  then have eq: "unspend rq s = unspend_recount rq e (sr_meta r) ?sl ?s1"
    using off hash own nz st calm_fast(1) [OF c b] calm_fast(2) [OF c b i] calm_fast(4) [OF c b]
    by (simp add: unspend_def unspend_apply_def Let_def observe_block_height_def sq_run(1) [of "modify f" for f, OF modify_def]
        sq_fail_if sq_run calm_lookup not_le)
  have "at R (V(uq_key rq \<mapsto> (?r1, ls))) I {} (put_at (loc e) (RecordBlock ?r1) ?s)"
    by (rule at_put_record [OF a e v]) (simp add: same_claims_def)
  then have "at R (V(uq_key rq \<mapsto> (?r1, ls))) I {} ?s1" by (simp add: loc_def)
  then show thesis using that [of ?s1] eq calm by simp
qed

lemma calm_unspend:
  assumes at: "at R V I {} s" and e: "I (uq_key rq) = Some e" and v: "V (uq_key rq) = Some (r, ls)" and calm: "en_io s = []"
    and off: "uq_offset rq < utxo_count (sr_meta r)" and hash: "slot_hash (sr_slots r ! unat (uq_offset rq)) = uq_hash rq"
    and own: "caller_owns_spend (sr_slots r ! unat (uq_offset rq)) (uq_data rq)" and nz: "spent_utxos (sr_meta r) \<noteq> 0"
    and rd: "readable (uq_key rq) (ie_mined_slot e) s" and no: "no_overflow (uq_height rq) (uq_retention rq)"
  obtains resp s' m2 now b dah where "unspend rq s = (Inr resp, s')"
    "m2 = (touched now ((sr_meta r)\<lparr>spent_utxos := spent_utxos (sr_meta r) - 1\<rparr>))
       \<lparr>flags := flag_set (flags (sr_meta r)) LAST_SPENT_ALL b, delete_at_height := dah\<rparr>"
    "at R (V(uq_key rq \<mapsto> (r\<lparr>sr_slots := (sr_slots r)[unat (uq_offset rq) := new_unspent (uq_hash rq)], sr_meta := m2\<rparr>, ls))) I {} s'"
proof -
  let ?r1 = "r\<lparr>sr_slots := (sr_slots r)[unat (uq_offset rq) := new_unspent (uq_hash rq)]\<rparr>"
  obtain s1 where eq: "unspend rq s = unspend_recount rq e (sr_meta r) (sr_slots r ! unat (uq_offset rq)) s1"
    and a1: "at R (V(uq_key rq \<mapsto> (?r1, ls))) I {} s1" and c1: "en_io s1 = []" and mi: "en_mined s1 = en_mined s"
    by (rule calm_unspend_start [OF at e v calm off hash own nz])
  have rd1: "readable (uq_key rq) (ie_mined_slot e) s1" using rd mi by (simp add: readable_def)
  obtain resp s' m2 b dah where "unspend_recount rq e (sr_meta r) (sr_slots r ! unat (uq_offset rq)) s1 = (Inr resp, s')"
    "m2 = (touched (en_now s1) ((sr_meta r)\<lparr>spent_utxos := spent_utxos (sr_meta r) - 1\<rparr>))
       \<lparr>flags := flag_set (flags (sr_meta r)) LAST_SPENT_ALL b, delete_at_height := dah\<rparr>"
    "at R (V(uq_key rq \<mapsto> (?r1\<lparr>sr_meta := m2\<rparr>, ls))) I {} s'"
    by (rule calm_unspend_recount [OF a1 e c1 own _ rd1 no, of "sr_meta r"]) simp_all
  then show thesis using that eq by simp
qed

lemma overflow_unspend_recount:
  assumes at: "at R V I {} s" and own: "caller_owns_spend sl (uq_data rq)" and rd: "readable (uq_key rq) (ie_mined_slot e) s"
    and ov: "uq_retention rq \<noteq> 0" "preserve_until m = 0" "2 ^ 32 \<le> unat (uq_height rq) + unat (uq_retention rq)"
  obtains s' where "unspend_recount rq e m sl s = (Inl (DahOverflow (uq_height rq) (uq_retention rq)), s')" "at R V I {} s'"
    "en_redo s' = en_redo s" "en_poisoned s' = en_poisoned s"
proof -
  let ?key = "uq_key rq" and ?slot = "ie_mined_slot e"
  let ?s = "if ?slot \<noteq> NO_MINED_SLOT then s\<lparr>en_mined := set_all_spent (en_mined s) ?key ?slot False\<rparr> else s"
  have nt: "note_all_spent ?key ?slot False s = (Inr (), ?s)"
    by (simp add: note_all_spent_def ret_def modify_mined_def modify_def)
  have "readable ?key ?slot ?s" using rd readable_set_all_spent [of "en_mined s" ?key ?slot False]
    unfolding readable_def by (cases "?slot = NO_MINED_SLOT") (simp_all del: not_None_eq)
  then obtain es um where en: "mined_block_entries_at ?key ?slot ?s = (Inr (es, um), ?s)" by (rule calm_entries)
  have ev: "evaluate_patched ?key ?slot (touched now (m\<lparr>spent_utxos := n\<rparr>)) hb um (uq_height rq) (uq_retention rq) ?s =
      (Inl (DahOverflow (uq_height rq) (uq_retention rq)), ?s)" for now n hb
    using ov by (simp add: evaluate_patched_def bnd_def gets_def lift_sum_def Let_def evaluate_delete_at_height_def
        checked_new_dah_def checked_add_def touched_def)
  have "unspend_recount rq e m sl s = (Inl (DahOverflow (uq_height rq) (uq_retention rq)), ?s)"
    using own nt en ev by (simp add: unspend_recount_def Let_def sq_def bnd_def gets_def)
  moreover have "at R V I {} ?s" by (rule at_core [OF at]) simp
  ultimately show thesis using that by simp
qed

section \<open>Deletion\<close>

lemma calm_delete_start:
  assumes at: "at R V I {} s" and e: "I (dl_key rq) = Some e" and v: "V (dl_key rq) = Some (r, ls)" and calm: "en_io s = []"
    and rm: "removable s rq (sr_meta r)"
  shows "delete_inner rq a s = sq (unregister (dl_key rq)) (sq (release_record e (sr_meta r)) (sq (clear_secondary (dl_key rq) e (sr_meta r))
      (record_tombstone rq a (generation (sr_meta r))))) s"
proof -
  have b: "en_blocks s (ie_device e, ie_offset e) = Some (RecordBlock r)" by (rule at_block [OF at e v])
  have i: "en_index s (dl_key rq) = Some e" using at e by (simp add: at_def)
  have "tx_id (sr_meta r) = dl_key rq" using at_viewed [OF at v] by (auto simp: record_ok_def)
  then have rd: "read_metadata_for_key (ie_device e) (dl_key rq) (ie_offset e) s = (Inr (sr_meta r), s)"
    by (simp add: read_metadata_for_key_def bnd_def attempt_def calm_fast [OF calm b] ret_def)
  have lk: "lookup_or_not_found (dl_key rq) s = (Inr e, s)" by (rule calm_lookup [OF i])
  have get: "bnd (gets f) k s = k (f s) s" for f :: "engine \<Rightarrow> bool" and k :: "bool \<Rightarrow> unit eng" by (simp add: bnd_def gets_def)
  have pass: "\<not> (dl_due_guard rq \<noteq> None \<and> \<not> write_healthy s)"
    "(case dl_due_guard rq of Some h \<Rightarrow> record_due_for_sweep s (dl_key rq) (sr_meta r) h | None \<Rightarrow> True)"
    using rm by (auto simp: removable_def split: option.splits)
  show ?thesis
    unfolding delete_inner_def Let_def get sq_fail_if [OF pass(1)] sq_run(2) [where m = "lookup_or_not_found k" for k, OF lk]
      sq_run(2) [where m = "read_metadata_for_key d k off" for d k off, OF rd]
    using pass(2) by (simp add: sq_fail_if)
qed

lemma delete_gone:
  assumes a: "at R V I {} s" and e: "I (dl_key rq) = Some e" and v: "V (dl_key rq) = Some (r, ls)"
  shows "safe (\<lambda>s'. at R (V(dl_key rq := None)) (I(dl_key rq := None)) {} s') (sq (unregister (dl_key rq)) (sq (release_record e (sr_meta r))
      (sq (clear_secondary (dl_key rq) e (sr_meta r)) (record_tombstone rq a' (generation (sr_meta r)))))) s"
  unfolding unregister_def safe_sq [of _ "modify f" for f] wp_modify
  apply (rule release_safe [OF at_unregister [OF a e v]])
   apply assumption
  apply (rule safe_noncore, assumption, intro noncore, assumption)
  done

lemma calm_delete:
  assumes "at R V I {} s" "I (dl_key rq) = Some e" "V (dl_key rq) = Some (r, ls)" "en_io s = []" "removable s rq (sr_meta r)"
  shows "at R (V(dl_key rq := None)) (I(dl_key rq := None)) {} (snd (delete_inner rq a s))"
  using delete_gone [OF assms(1-3), of a] unfolding calm_delete_start [OF assms] safe_def .

end
