(* ===== verification/Engine_Demo.thy ===== *)
theory Engine_Demo
  imports Engine_Contract
begin

text \<open>
  Requests on the one-record engine of \<open>Engine_Example\<close>: the output is spent, a second spender is refused, the
  first one repeats its spend.  The results of \<open>Engine_Theorems\<close> are applied to these runs.
\<close>

section \<open>Requests\<close>

definition demo_hash :: bytes where "demo_hash = replicate 32 2"

definition demo_data :: bytes where "demo_data = replicate 36 3"

definition demo_rival :: bytes where "demo_rival = replicate 36 4"

definition demo_spend :: "bytes \<Rightarrow> spend_request" where
  "demo_spend dat = \<lparr>rq_key = demo_key, rq_offset = 0, rq_hash = demo_hash, rq_data = dat, rq_ignore_conflicting = True,
    rq_ignore_locked = True, rq_height = 200, rq_retention = 10\<rparr>"

definition demo_unspend :: "u32 \<Rightarrow> unspend_request" where
  "demo_unspend height = \<lparr>uq_key = demo_key, uq_offset = 0, uq_hash = demo_hash, uq_data = demo_data,
    uq_height = height, uq_retention = 10\<rparr>"

definition demo_open :: engine where "demo_open = demo (demo_record 0 (new_unspent demo_hash))"

definition demo_spent :: engine where "demo_spent = demo (demo_record 1 (new_spent demo_hash demo_data))"

abbreviation demo_entry :: index_entry where "demo_entry \<equiv> \<lparr>ie_device = 0, ie_offset = DATA_REGION_OFFSET, ie_mined_slot = 0\<rparr>"

lemma demo_states [simp]: "structure_ok {} demo_open" "structure_ok {} demo_spent"
  unfolding demo_open_def demo_spent_def by (rule demo_structure [OF demo_record_fit])+

lemma demo_open_fields [simp]: "en_io demo_open = []" "en_index demo_open = [demo_key \<mapsto> demo_entry]" "en_mined demo_open = demo_mined"
  "en_alloc demo_open 0 = demo_store" "record_at demo_open demo_key = Some (demo_record 0 (new_unspent demo_hash))"
  by (simp_all add: demo_open_def)

lemma demo_spent_fields [simp]: "en_io demo_spent = []" "en_index demo_spent = [demo_key \<mapsto> demo_entry]" "en_mined demo_spent = demo_mined"
  "en_redo demo_spent" "\<not> en_poisoned demo_spent"
  "record_at demo_spent k = (if k = demo_key then Some (demo_record 1 (new_spent demo_hash demo_data)) else None)"
  by (simp_all add: demo_spent_def)

lemma demo_spend_fields [simp]: "rq_key (demo_spend d) = demo_key" "rq_offset (demo_spend d) = 0" "rq_hash (demo_spend d) = demo_hash"
  "rq_data (demo_spend d) = d" "rq_height (demo_spend d) = 200" "rq_retention (demo_spend d) = 10"
  "rq_ignore_conflicting (demo_spend d)" "rq_ignore_locked (demo_spend d)"
  by (simp_all add: demo_spend_def)

lemma demo_unspend_fields [simp]: "uq_key (demo_unspend h) = demo_key" "uq_offset (demo_unspend h) = 0" "uq_hash (demo_unspend h) = demo_hash"
  "uq_data (demo_unspend h) = demo_data" "uq_height (demo_unspend h) = h" "uq_retention (demo_unspend h) = 10"
  by (simp_all add: demo_unspend_def)

lemma demo_record_fields [simp]: "utxo_count (sr_meta (demo_record n sl)) = 1" "spent_utxos (sr_meta (demo_record n sl)) = n"
  "sr_slots (demo_record n sl) = [sl]" "preserve_until (sr_meta (demo_record n sl)) = 0"
  "flags (sr_meta (demo_record n sl)) = 0" "deleted_children_count (sr_meta (demo_record n sl)) = 0"
  "spending_height (sr_meta (demo_record n sl)) = 0"
  by (simp_all add: demo_record_def demo_meta_def new_metadata_def)

lemma demo_data_fields [simp]: "demo_data \<noteq> FROZEN_DATA" "demo_rival \<noteq> FROZEN_DATA" "demo_rival \<noteq> demo_data"
  by (simp_all add: demo_data_def demo_rival_def FROZEN_DATA_def FROZEN_BYTE_def)

lemma demo_guards [simp]: "spending_height m = 0 \<Longrightarrow> guards_pass mined m True True h"
  by (simp add: guards_pass_def)

lemma demo_judged [simp]:
  "judge_slot (new_unspent h) i h d ht = SpendSlot" "judge_slot (new_spent h d) i h d ht = Respend"
  "judge_slot (new_spent h demo_data) i h demo_rival ht = Refuse (AlreadySpent i demo_data)"
  using demo_data_fields demo_data_fields(3) [symmetric] cooldown_simps(1) [unfolded slot_defs] by (simp_all add: judge_slot_def Let_def slot_defs record_consts)

lemma demo_no_overflow [simp]: "no_overflow 200 10" by (simp add: no_overflow_def)

section \<open>Runs\<close>

lemma demo_first_spend:
  obtains resp s1 r1 ls where "spend (demo_spend demo_data) demo_open = (Inr resp, s1)" "en_io s1 = []" "readable demo_key 0 s1"
    "at (reservations demo_open) ((view demo_open)(demo_key \<mapsto> (r1, ls))) [demo_key \<mapsto> demo_entry] {} s1"
    "sr_slots r1 = [new_spent demo_hash demo_data]" "utxo_count (sr_meta r1) = 1" "ls DeletedClaim = []" "spending_height (sr_meta r1) = 0"
proof -
  let ?r = "demo_record 0 (new_unspent demo_hash)" and ?s = "demo_open\<lparr>en_height := max (en_height demo_open) 200\<rparr>"
  have a: "at (reservations demo_open) (view demo_open) [demo_key \<mapsto> demo_entry] {} demo_open"
    using demo_states(1) by (simp add: at_structure)
  have "map_option fst (view demo_open demo_key) = Some ?r" by (simp flip: record_view)
  then obtain ls where v: "view demo_open demo_key = Some (?r, ls)" by auto
  obtain f where "[demo_key \<mapsto> demo_entry] demo_key = Some f" "ls = (\<lambda>t. list_at demo_open (ie_device f) (list_count t (sr_meta ?r)) (list_offset t (sr_meta ?r)))"
    using at_viewed [OF a v] by blast
  then have ls: "ls DeletedClaim = []" by (simp add: list_at_def)
  have eq: "spend (demo_spend demo_data) demo_open = commit_spend (demo_spend demo_data) demo_entry (sr_meta ?r) ?s"
    using calm_spend [where rq = "demo_spend demo_data" and e = demo_entry and r = ?r and ls = ls, OF a, simplified] v by simp
  obtain resp s1 m now b dah where "commit_spend (demo_spend demo_data) demo_entry (sr_meta ?r) ?s = (Inr resp, s1)"
      "m = (sr_meta ?r)\<lparr>spent_utxos := spent_utxos (sr_meta ?r) + 1, generation := generation (sr_meta ?r) + 1, updated_at := now,
         flags := flag_set (flags (sr_meta ?r)) LAST_SPENT_ALL b, delete_at_height := dah\<rparr>"
      "at (reservations demo_open) ((view demo_open)(demo_key \<mapsto> (?r\<lparr>sr_slots := [new_spent demo_hash demo_data], sr_meta := m\<rparr>, ls)))
        [demo_key \<mapsto> demo_entry] {} s1" "en_io s1 = []" "keeps_readable ?s s1"
    by (rule calm_commit_header [where rq = "demo_spend demo_data" and e = demo_entry, OF at_weather [OF a], where r = ?r and ls = ls])
      (use v in simp_all)
  moreover have "readable demo_key 0 ?s" by simp
  ultimately show thesis using eq ls
    by (intro that [of resp s1 "?r\<lparr>sr_slots := [new_spent demo_hash demo_data], sr_meta := m\<rparr>" ls])
      (auto simp: keeps_readable_def)
qed

text \<open>With the output spent, a rival is refused and leaves only the block height, and the spender succeeds again.\<close>

lemma demo_later_spends:
  assumes a: "at R V [demo_key \<mapsto> demo_entry] {} s" and v: "V demo_key = Some (r, ls)" and s: "en_io s = []" "readable demo_key 0 s"
    and r: "sr_slots r = [new_spent demo_hash demo_data]" "utxo_count (sr_meta r) = 1" "ls DeletedClaim = []" "spending_height (sr_meta r) = 0"
  shows "spend (demo_spend demo_rival) s = (Inl (AlreadySpent 0 demo_data), s\<lparr>en_height := max (en_height s) 200\<rparr>)"
    "\<exists>resp. spend (demo_spend demo_data) s = (Inr resp, s\<lparr>en_height := max (en_height s) 200\<rparr>)"
proof -
  show "spend (demo_spend demo_rival) s = (Inl (AlreadySpent 0 demo_data), s\<lparr>en_height := max (en_height s) 200\<rparr>)"
    using calm_spend_cases [where rq = "demo_spend demo_rival" and e = demo_entry and r = r and ls = ls, OF a] v s r by (simp add: throw_def)
  show "\<exists>resp. spend (demo_spend demo_data) s = (Inr resp, s\<lparr>en_height := max (en_height s) 200\<rparr>)"
    by (rule calm_respend [where rq = "demo_spend demo_data" and e = demo_entry and r = r and ls = ls, OF a]) (use v s r in auto)
qed

text \<open>The spent record is due at height 200, and the sweep takes it out.\<close>

lemma demo_due: "record_due_for_sweep demo_spent demo_key (sr_meta (demo_record 1 (new_spent demo_hash demo_data))) 200"
proof -
  have d: "dah_get_height (en_dah demo_spent) demo_key = Some 150" by (simp add: demo_spent_def demo_def dah_get_height_def)
  have "mined_read demo_spent demo_key = Some ([\<lparr>be_block_id = 7, be_block_height = 100, be_subtree_idx = 0\<rparr>], 0)"
    by (simp add: mined_read_def mined_block_entries_def mined_block_entries_at_def demo_mined_read calm_lookup bnd_def NO_MINED_SLOT_def)
  then show ?thesis using d by (simp add: record_due_for_sweep_def sweep_eligible_with_mined_def flag_bits)
qed

lemma demo_swept: "record_at (snd (delete_inner \<lparr>dl_key = demo_key, dl_due_guard = Some 200\<rparr> a demo_spent)) demo_key = None"
proof -
  let ?r = "demo_record 1 (new_spent demo_hash demo_data)" and ?rq = "\<lparr>dl_key = demo_key, dl_due_guard = Some 200\<rparr>"
  have "map_option fst (view demo_spent demo_key) = Some ?r" by (simp flip: record_view)
  then obtain ls where v: "view demo_spent demo_key = Some (?r, ls)" by auto
  have "removable demo_spent ?rq (sr_meta ?r)" using demo_due by (simp add: removable_def write_healthy_def)
  then have "at (reservations demo_spent) ((view demo_spent)(demo_key := None)) ((en_index demo_spent)(demo_key := None)) {}
      (snd (delete_inner ?rq a demo_spent))"
    using calm_delete [where rq = ?rq and e = demo_entry and r = ?r and ls = ls, OF demo_states(2) [unfolded at_structure]] v by simp
  then show ?thesis using at_record by fastforce
qed

end
