(* ===== verification/Engine_Theorems.thy ===== *)
theory Engine_Theorems
  imports Engine_Demo
begin

text \<open>
  The main results on the engine, over all histories of operations and all fault schedules.
\<close>

section \<open>Well-formedness\<close>

text \<open>C3: After any sequence of operations from a well-formed state, under every fault schedule, the engine is
  well formed: every index entry points at a record of that transaction with as many slots as its header counts,
  its lists of children are stored with their counted lengths, and the regions of any two records or lists on a
  device are disjoint.\<close>

theorem history_well_formed:
  assumes "structure_ok {} s" "run blobs sha fitting s ops s'"
  shows "structure_ok {} s' \<and>
    (\<forall>key e. en_index s' key = Some e \<longrightarrow> (\<exists>r. en_blocks s' (ie_device e, ie_offset e) = Some (RecordBlock r) \<and>
      tx_id (sr_meta r) = key \<and> length (sr_slots r) = unat (utxo_count (sr_meta r)) \<and> (\<forall>tag. list_ok s' e (sr_meta r) tag))) \<and>
    (\<forall>c c' d r r'. claim s' c = Some (d, r) \<longrightarrow> claim s' c' = Some (d, r') \<longrightarrow> c \<noteq> c' \<longrightarrow> span r \<inter> span r' = {})"
proof -
  have st: "structure_ok {} s'" using run_structure [OF assms(2,1)] by simp
  then have "records_ok s'" by (simp add: structure_ok_def)
  then have "\<exists>r. en_blocks s' (ie_device e, ie_offset e) = Some (RecordBlock r) \<and> tx_id (sr_meta r) = key \<and>
      length (sr_slots r) = unat (utxo_count (sr_meta r)) \<and> (\<forall>tag. list_ok s' e (sr_meta r) tag)"
    if "en_index s' key = Some e" for key e
    using that unfolding records_ok_def record_ok_def loc_def by blast
  then show ?thesis using st claims_apart [OF st] by blast
qed

theorem history_well_formed_witness:
  "\<exists>s'. run None (\<lambda>x. x) fitting demo_open [OpSpend (demo_spend demo_data)] s' \<and> structure_ok {} s'"
proof -
  have r: "run None (\<lambda>x. x) fitting demo_open [OpSpend (demo_spend demo_data)] (exec None (\<lambda>x. x) (OpSpend (demo_spend demo_data)) demo_open)"
    using run.operate [where op = "OpSpend (demo_spend demo_data)", OF run.start] by simp
  show ?thesis using history_well_formed [OF demo_states(1) r] r by blast
qed

section \<open>Spent outputs\<close>

text \<open>C1: An output has at most one spender.  After a spend succeeded, a later spend of the same output succeeds
  only with the same spending data, whatever operations ran in between and whatever faults they met, unless one
  of them was an unspend by the first spender or a deletion of the transaction.\<close>

theorem no_double_spend:
  assumes "structure_ok {} s" "spend rq s = (Inr resp, s1)" "run blobs sha fitting s1 ops s2"
    and "list_all (\<lambda>op. \<not> releases op (rq_key rq) (rq_offset rq) (rq_data rq)) ops"
    and "spend rq' s2 = (Inr resp', s3)" "rq_key rq' = rq_key rq" "rq_offset rq' = rq_offset rq"
  shows "rq_data rq' = rq_data rq"
proof -
  have a0: "at (reservations s) (view s) (en_index s) {} s" using assms(1) by (simp add: at_structure)
  have "holds_spend (reservations s) rq s1" by (rule wpD [OF spend_holds [OF a0] assms(2)])
  then have st1: "structure_ok {} s1" and sp1: "spent_by s1 (rq_key rq) (rq_offset rq) (rq_data rq)"
    by (auto simp: holds_spend_def at_def spent_by_def record_view is_settled_def)
  have st2: "structure_ok {} s2" using run_structure [OF assms(3) st1] by simp
  have sp2: "spent_by s2 (rq_key rq) (rq_offset rq) (rq_data rq)" by (rule run_spent [OF assms(3) st1 sp1 assms(4)])
  have a2: "at (reservations s2) (view s2) (en_index s2) {} s2" using st2 by (simp add: at_structure)
  obtain r ls where v: "view s2 (rq_key rq) = Some (r, ls)"
      and j: "judge_slot (sr_slots r ! unat (rq_offset rq)) (rq_offset rq) (rq_hash rq') (rq_data rq') (rq_height rq') \<in> {SpendSlot, Respend}"
    using wpD [OF spend_judged [OF a2] assms(5)] assms(6,7) by auto
  have "is_settled (sr_slots r ! unat (rq_offset rq))" "spending_data (sr_slots r ! unat (rq_offset rq)) = rq_data rq"
    using sp2 v by (simp_all add: spent_by_def record_view)
  then show ?thesis using j by (auto dest: unsettled(1) [OF judged_unspent] judged_respend)
qed

theorem no_double_spend_witness:
  "\<exists>resp s1 s2 resp' s3. spend (demo_spend demo_data) demo_open = (Inr resp, s1) \<and>
    run None (\<lambda>x. x) fitting s1 [OpSpend (demo_spend demo_rival)] s2 \<and> spend (demo_spend demo_data) s2 = (Inr resp', s3) \<and>
    (\<forall>resp s. spend (demo_spend demo_rival) s2 \<noteq> (Inr resp, s))"
proof -
  obtain resp s1 r1 ls where f: "spend (demo_spend demo_data) demo_open = (Inr resp, s1)" "en_io s1 = []" "readable demo_key 0 s1"
    and a: "at (reservations demo_open) ((view demo_open)(demo_key \<mapsto> (r1, ls))) [demo_key \<mapsto> demo_entry] {} s1"
    and r: "sr_slots r1 = [new_spent demo_hash demo_data]" "utxo_count (sr_meta r1) = 1" "ls DeletedClaim = []" "spending_height (sr_meta r1) = 0"
    by (rule demo_first_spend)
  let ?s2 = "s1\<lparr>en_height := max (en_height s1) 200\<rparr>"
  have "exec None (\<lambda>x. x) (OpSpend (demo_spend demo_rival)) s1 = ?s2" using demo_later_spends(1) [OF a fun_upd_same f(2,3) r] by simp
  then have run: "run None (\<lambda>x. x) fitting s1 [OpSpend (demo_spend demo_rival)] ?s2"
    using run.operate [where op = "OpSpend (demo_spend demo_rival)", OF run.start, of fitting s1 None "\<lambda>x. x"] by simp
  have "en_io ?s2 = []" "readable demo_key 0 ?s2" using f(2,3) by (simp_all add: readable_def)
  then obtain resp' s3 where l: "spend (demo_spend demo_data) ?s2 = (Inr resp', s3)"
    using demo_later_spends(2) [OF at_weather [OF a] fun_upd_same _ _ r] by blast
  have nd: "rq_data rq' = demo_data" if "spend rq' ?s2 = (Inr resp'', s4)" "rq_key rq' = demo_key" "rq_offset rq' = 0" for rq' resp'' s4
    using no_double_spend [OF demo_states(1) f(1) run _ that(1)] that(2,3) by simp
  have "\<forall>resp s. spend (demo_spend demo_rival) ?s2 \<noteq> (Inr resp, s)" using nd [of "demo_spend demo_rival"] by fastforce
  then show ?thesis using f(1) run l by blast
qed

section \<open>The sweep\<close>

text \<open>C2: The sweep deletes only what it may.  Take a history from a well-formed state with the redo log enabled, in which
  no record counts more outputs as spent than are spent or pruned, made of creates with fewer than \<open>2 ^ 32\<close> outputs and record bytes and of
  other operations, under any faults, in which every unspend finds its mined state readable and has a retention window that does
  not overflow.  When, after it, a guarded delete at height h takes a record out of the store, again under any faults, the
  record was neither preserved nor locked, its delete-at-height had been reached, and either it is conflicting or, without
  ever having been reassigned, every single one of its outputs is spent or pruned and it is mined on the longest chain.\<close>

theorem sweep_removes_only_settled:
  assumes "structure_ok {} s" "en_redo s" "all_counted s" "run blobs sha orderly s ops s'"
    and "record_at s' (dl_key rq) = Some r" "dl_due_guard rq = Some h"
    and "record_at (snd (delete_inner rq a s')) (dl_key rq) = None"
  shows "preserve_until (sr_meta r) = 0 \<and> \<not> flag_contains (flags (sr_meta r)) LOCKED \<and>
    (\<exists>dah. dah_get_height (en_dah s') (dl_key rq) = Some dah \<and> dah \<noteq> 0 \<and> dah \<le> h) \<and>
    (flag_contains (flags (sr_meta r)) CONFLICTING \<or>
     \<not> flag_contains (flags (sr_meta r)) REASSIGNED \<and> list_all is_settled (sr_slots r) \<and>
     (\<exists>es. es \<noteq> [] \<and> mined_read s' (dl_key rq) = Some (es, 0)))"
proof -
  have st: "structure_ok {} s'" using run_structure [OF assms(4,1)] by simp
  have rm: "write_healthy s'" "record_due_for_sweep s' (dl_key rq) (sr_meta r) h"
    using delete_removes [OF st assms(7,5)] assms(6) by (simp_all add: removable_def)
  have "en_redo s'" "\<not> en_poisoned s' \<longrightarrow> all_counted s'" using run_counted [OF assms(4,1,2,3)] by blast+
  then have "counted r" using rm(1) assms(5) by (simp add: write_healthy_def all_counted_def)
  moreover have "record_ok (dl_key rq) r"
    using at_viewed [OF st [unfolded at_structure]] assms(5) by (auto simp: record_view)
  ultimately have "spent_utxos (sr_meta r) = utxo_count (sr_meta r) \<longrightarrow> list_all is_settled (sr_slots r)"
    using eligible_settled by blast
  then show ?thesis using due_means [OF rm(2)] by blast
qed

theorem sweep_removes_only_settled_witness:
  "record_at (snd (delete_inner \<lparr>dl_key = demo_key, dl_due_guard = Some 200\<rparr> Authoritative demo_spent)) demo_key = None \<and>
    list_all is_settled (sr_slots (demo_record 1 (new_spent demo_hash demo_data)))"
proof -
  let ?rq = "\<lparr>dl_key = demo_key, dl_due_guard = Some 200\<rparr>" and ?r = "demo_record 1 (new_spent demo_hash demo_data)"
  have gone: "record_at (snd (delete_inner ?rq Authoritative demo_spent)) demo_key = None" by (rule demo_swept)
  have "all_counted demo_spent" by (simp add: all_counted_def counted_def settled_def is_settled_def slot_defs)
  from sweep_removes_only_settled [OF demo_states(2) _ this run.start, where rq = ?rq and h = 200 and r = ?r and a = Authoritative] gone
  show ?thesis by (simp add: flag_bits)
qed

text \<open>C6: The sweep deletes what it should.  When the device answers, a guarded delete of a due record by a healthy node takes
  exactly that record out of the store.\<close>

theorem sweep_removes_due:
  assumes "structure_ok {} s" "en_io s = []" "write_healthy s" "record_at s key = Some r" "record_due_for_sweep s key (sr_meta r) h"
  shows "structure_ok {} (snd (delete_inner \<lparr>dl_key = key, dl_due_guard = Some h\<rparr> a s)) \<and>
    (\<forall>k. record_at (snd (delete_inner \<lparr>dl_key = key, dl_due_guard = Some h\<rparr> a s)) k = (if k = key then None else record_at s k))"
proof -
  let ?rq = "\<lparr>dl_key = key, dl_due_guard = Some h\<rparr>"
  have a: "at (reservations s) (view s) (en_index s) {} s" using assms(1) by (simp add: at_structure)
  obtain ls where v: "view s key = Some (r, ls)" using assms(4) by (auto simp: record_view)
  obtain e where e: "en_index s key = Some e" using at_viewed [OF a v] by blast
  have "removable s ?rq (sr_meta r)" using assms(3,5) by (simp add: removable_def)
  then have a': "at (reservations s) ((view s)(key := None)) ((en_index s)(key := None)) {} (snd (delete_inner ?rq a s))"
    using calm_delete [where rq = ?rq, OF a] e v assms(2) by simp
  then have "structure_ok {} (snd (delete_inner ?rq a s))" by (simp add: at_def)
  then show ?thesis using at_record [OF a'] by (simp add: record_view)
qed

theorem sweep_removes_due_witness:
  "record_at demo_spent demo_key \<noteq> None \<and>
    record_at (snd (delete_inner \<lparr>dl_key = demo_key, dl_due_guard = Some 200\<rparr> HeldCopy demo_spent)) demo_key = None"
  using sweep_removes_due [OF demo_states(2) demo_spent_fields(1) _ _ demo_due, of HeldCopy] by (simp add: write_healthy_def)

section \<open>Spend and unspend\<close>

lemma restored_slot:
  assumes "i < length slots" "slots ! i = new_unspent_with_cooldown hash cooldown" "judge_slot (slots ! i) off h d ht = SpendSlot"
  shows "(slots[i := new_unspent h] = slots) = (cooldown = 0)"
proof -
  have h: "hash = h" using assms(2,3) by (simp add: judge_slot_def new_unspent_with_cooldown_def split: if_splits)
  have "new_unspent_with_cooldown h cooldown = new_unspent h \<longleftrightarrow> cooldown = 0"
    using cooldown_simps(1,3) [of h] new_unspent_with_cooldown_0 by metis
  moreover have "slots[i := new_unspent h] = slots \<longleftrightarrow> slots ! i = new_unspent h"
    using assms(1) by (metis list_update_id nth_list_update_eq)
  ultimately show ?thesis using assms(2) h by simp
qed

text \<open>C4: A valid spend of an unspent output, in a store updated in place.  When the device answers, the output exists and
  is spendable, the guards let the request through (a conflicting record only on request, a locked one on request or if it
  is in a block, a coinbase once mature), the mined state can be read and the retention window does not overflow, the spend
  succeeds.  It sets exactly that slot to spent by the request.  The header counts one more spent output, has its generation
  raised by one and its time set, and carries what the delete-at-height evaluation of that header gives; the response holds
  the signal of that evaluation and the blocks of the record.  Every other record is as it was.\<close>

theorem spend_contract:
  assumes "structure_ok {} s" "en_io s = []" "en_index s (rq_key rq) = Some e" "\<not> is_log_structured (en_alloc s (ie_device e))"
    and "record_at s (rq_key rq) = Some r" "rq_offset rq < utxo_count (sr_meta r)" "rq_data rq \<noteq> FROZEN_DATA"
    and "guards_pass (mined_at s (rq_key rq) (ie_mined_slot e)) (sr_meta r) (rq_ignore_conflicting rq) (rq_ignore_locked rq) (rq_height rq)"
    and "judge_slot (sr_slots r ! unat (rq_offset rq)) (rq_offset rq) (rq_hash rq) (rq_data rq) (rq_height rq) = SpendSlot"
    and "readable (rq_key rq) (ie_mined_slot e) s" "no_overflow (rq_height rq) (rq_retention rq)"
  shows "let counted = cached_lsa s (rq_key rq) (ie_mined_slot e)
      (touched (en_now s) ((sr_meta r)\<lparr>spent_utxos := spent_utxos (sr_meta r) + 1\<rparr>)) in
    \<exists>es um sig patch s' m. mined_at s (rq_key rq) (ie_mined_slot e) = Some (es, um) \<and>
    evaluate_delete_at_height counted (es \<noteq> []) um (rq_height rq) (rq_retention rq) = Inr (sig, patch) \<and>
    m = patched counted patch \<and> spent_utxos m = spent_utxos (sr_meta r) + 1 \<and> generation m = generation (sr_meta r) + 1 \<and>
    spend rq s = (Inr \<lparr>sp_signal = sig, sp_block_ids = map be_block_id es\<rparr>, s') \<and> structure_ok {} s' \<and>
    (\<forall>k. record_at s' k = (if k = rq_key rq
       then Some (r\<lparr>sr_slots := (sr_slots r)[unat (rq_offset rq) := new_spent (rq_hash rq) (rq_data rq)], sr_meta := m\<rparr>)
       else record_at s k))"
proof -
  let ?s = "s\<lparr>en_height := max (en_height s) (rq_height rq)\<rparr>" and ?key = "rq_key rq" and ?slot = "ie_mined_slot e"
  let ?m1 = "touched (en_now s) ((sr_meta r)\<lparr>spent_utxos := spent_utxos (sr_meta r) + 1\<rparr>)"
  have a: "at (reservations s) (view s) (en_index s) {} s" using assms(1) by (simp add: at_structure)
  obtain ls where v: "view s ?key = Some (r, ls)" using assms(5) by (auto simp: record_view)
  have eq: "spend rq s = commit_spend rq e (sr_meta r) ?s"
    by (rule calm_spend [OF a assms(3) v assms(2,6,7,8,9)])
  have rd: "readable ?key ?slot ?s" using assms(10) by (simp add: readable_def)
  obtain es um sig patch s' m where *: "mined_at s ?key ?slot = Some (es, um)"
      "evaluate_delete_at_height (cached_lsa s ?key ?slot ?m1) (es \<noteq> []) um (rq_height rq) (rq_retention rq) = Inr (sig, patch)"
      "m = patched (cached_lsa s ?key ?slot ?m1) patch"
      "commit_spend rq e (sr_meta r) ?s = (Inr \<lparr>sp_signal = sig, sp_block_ids = map be_block_id es\<rparr>, s')"
    and a': "at (reservations s) ((view s)(?key \<mapsto> (r\<lparr>sr_slots := (sr_slots r)[unat (rq_offset rq) := new_spent (rq_hash rq) (rq_data rq)],
      sr_meta := m\<rparr>, ls))) (en_index s) {} s'"
    by (rule calm_commit_spend [OF at_weather [OF a] assms(3) v _ _ rd assms(11)]) (use assms(2,4) in auto)
  have h: "spent_utxos m = spent_utxos (sr_meta r) + 1 \<and> generation m = generation (sr_meta r) + 1"
    using recounted_header [of s ?key ?slot "en_now s" "spent_utxos (sr_meta r) + 1" "sr_meta r" patch] *(3) by auto
  have "structure_ok {} s'" using a' by (simp add: at_def)
  moreover have "record_at s' k = (if k = ?key
       then Some (r\<lparr>sr_slots := (sr_slots r)[unat (rq_offset rq) := new_spent (rq_hash rq) (rq_data rq)], sr_meta := m\<rparr>)
       else record_at s k)" for k
    using at_record [OF a'] by (simp add: record_view)
  ultimately show ?thesis using eq * h unfolding Let_def by metis
qed

theorem spend_contract_witness:
  "\<exists>resp s' m. spend (demo_spend demo_data) demo_open = (Inr resp, s') \<and> spent_utxos m = 1 \<and>
    record_at s' demo_key = Some ((demo_record 0 (new_unspent demo_hash))\<lparr>sr_slots := [new_spent demo_hash demo_data], sr_meta := m\<rparr>)"
proof -
  let ?r = "demo_record 0 (new_unspent demo_hash)" and ?rq = "demo_spend demo_data"
  note c = spend_contract [where e = demo_entry and r = ?r and rq = ?rq and s = demo_open, simplified Let_def]
  obtain resp s' m where "spend ?rq demo_open = (Inr resp, s')" "spent_utxos m = spent_utxos (sr_meta ?r) + 1"
    "\<forall>k. record_at s' k = (if k = rq_key ?rq then Some (?r\<lparr>sr_slots := (sr_slots ?r)[unat (rq_offset ?rq) :=
         new_spent (rq_hash ?rq) (rq_data ?rq)], sr_meta := m\<rparr>) else record_at demo_open k)"
    using c by auto
  then show ?thesis by (intro exI [of _ resp] exI [of _ s'] exI [of _ m]) simp
qed

text \<open>C5: Spending an output and taking the spend back, in a store updated in place, both while the device answers and
  under the conditions of a valid spend.  Afterwards the slot is unspent with its hash and without a cooldown, so a slot as
  the code writes it comes back exactly if it carried no cooldown; no other slot changed.  Of the header only the generation
  (raised by two), the time, the last-all-spent bit and the delete-at-height can differ; in particular the count is what it
  was.  No other record changed.\<close>

theorem spend_unspend_roundtrip:
  assumes "structure_ok {} s" "en_io s = []" "en_index s (rq_key rq) = Some e" "\<not> is_log_structured (en_alloc s (ie_device e))"
    and "record_at s (rq_key rq) = Some r" "rq_offset rq < utxo_count (sr_meta r)" "rq_data rq \<noteq> FROZEN_DATA"
    and "guards_pass (mined_at s (rq_key rq) (ie_mined_slot e)) (sr_meta r) (rq_ignore_conflicting rq) (rq_ignore_locked rq) (rq_height rq)"
    and "judge_slot (sr_slots r ! unat (rq_offset rq)) (rq_offset rq) (rq_hash rq) (rq_data rq) (rq_height rq) = SpendSlot"
    and "spent_utxos (sr_meta r) < utxo_count (sr_meta r)" "readable (rq_key rq) (ie_mined_slot e) s"
    and "no_overflow (rq_height rq) (rq_retention rq)" "no_overflow (uq_height uq) (uq_retention uq)"
    and "uq_key uq = rq_key rq" "uq_offset uq = rq_offset rq" "uq_hash uq = rq_hash rq" "uq_data uq = rq_data rq"
  shows "\<exists>resp s1 resp' s2 now lsa dah. spend rq s = (Inr resp, s1) \<and> unspend uq s1 = (Inr resp', s2) \<and>
    (\<forall>k. record_at s2 k = (if k = rq_key rq
       then Some \<lparr>sr_meta = (sr_meta r)\<lparr>generation := generation (sr_meta r) + 2, updated_at := now,
           flags := flag_set (flags (sr_meta r)) LAST_SPENT_ALL lsa, delete_at_height := dah\<rparr>,
         sr_slots = (sr_slots r)[unat (rq_offset rq) := new_unspent (rq_hash rq)], sr_cold = sr_cold r\<rparr>
       else record_at s k)) \<and>
    (\<forall>hash cooldown. sr_slots r ! unat (rq_offset rq) = new_unspent_with_cooldown hash cooldown \<longrightarrow>
      ((sr_slots r)[unat (rq_offset rq) := new_unspent (rq_hash rq)] = sr_slots r \<longleftrightarrow> cooldown = 0))"
proof -
  let ?s = "s\<lparr>en_height := max (en_height s) (rq_height rq)\<rparr>" and ?i = "unat (rq_offset rq)" and ?n = "spent_utxos (sr_meta r)"
  have a: "at (reservations s) (view s) (en_index s) {} s" using assms(1) by (simp add: at_structure)
  obtain ls where v: "view s (rq_key rq) = Some (r, ls)" using assms(5) by (auto simp: record_view)
  have i: "?i < length (sr_slots r)" using assms(6) at_slots(1) [OF a v] by (simp add: word_less_nat_alt)
  have eq: "spend rq s = commit_spend rq e (sr_meta r) ?s" by (rule calm_spend [OF a assms(3) v assms(2,6,7,8,9)])
  have rd: "readable (rq_key rq) (ie_mined_slot e) ?s" using assms(11) by (simp add: readable_def)
  obtain resp s1 m now0 b0 dah0 where c: "commit_spend rq e (sr_meta r) ?s = (Inr resp, s1)" "en_io s1 = []" "keeps_readable ?s s1"
      "m = (sr_meta r)\<lparr>spent_utxos := ?n + 1, generation := generation (sr_meta r) + 1, updated_at := now0,
         flags := flag_set (flags (sr_meta r)) LAST_SPENT_ALL b0, delete_at_height := dah0\<rparr>"
    and a1: "at (reservations s) ((view s)(rq_key rq \<mapsto> (r\<lparr>sr_slots := (sr_slots r)[?i := new_spent (rq_hash rq) (rq_data rq)], sr_meta := m\<rparr>, ls)))
      (en_index s) {} s1"
    by (rule calm_commit_header [OF at_weather [OF a] assms(3) v _ _ rd assms(12)]) (use assms(2,4) in auto)
  let ?r1 = "r\<lparr>sr_slots := (sr_slots r)[?i := new_spent (rq_hash rq) (rq_data rq)], sr_meta := m\<rparr>"
  have rd1: "readable (rq_key rq) (ie_mined_slot e) s1" using c(3) rd by (simp add: keeps_readable_def)
  have cm: "spent_utxos m = ?n + 1" "utxo_count m = utxo_count (sr_meta r)" using c(4) by auto
  have nz: "spent_utxos m \<noteq> 0"
    using assms(10) cm(1) word_order.extremum [of "utxo_count (sr_meta r)"] by (auto simp: eq_neg_iff_add_eq_0 [symmetric])
  have cnt: "rq_offset rq < utxo_count (sr_meta ?r1)" using assms(6) cm(2) by simp
  have own: "caller_owns_spend (sr_slots ?r1 ! ?i) (rq_data rq)" "slot_hash (sr_slots ?r1 ! ?i) = rq_hash rq"
    using i assms(7) by (simp_all add: caller_owns_spend_def slot_defs record_consts)
  note u = calm_unspend [where rq = uq and r = ?r1 and ls = ls, unfolded assms(14-17), OF a1 assms(3) fun_upd_same c(2) cnt own(2,1) _ rd1 assms(13)]
  obtain resp' s2 m2 now b dah where un: "unspend uq s1 = (Inr resp', s2)"
    and m2: "m2 = (touched now (m\<lparr>spent_utxos := spent_utxos m - 1\<rparr>))\<lparr>flags := flag_set (flags m) LAST_SPENT_ALL b, delete_at_height := dah\<rparr>"
    and a2: "at (reservations s) ((view s)(rq_key rq \<mapsto> (?r1, ls), rq_key rq \<mapsto>
      (?r1\<lparr>sr_slots := (sr_slots ?r1)[?i := new_unspent (rq_hash rq)], sr_meta := m2\<rparr>, ls))) (en_index s) {} s2"
    by (rule u) (use nz in simp, erule that, simp, assumption)
  have m2': "m2 = (sr_meta r)\<lparr>generation := generation (sr_meta r) + 2, updated_at := now,
      flags := flag_set (flags (sr_meta r)) LAST_SPENT_ALL b, delete_at_height := dah\<rparr>"
    using c(4) by (auto simp: m2 touched_def flag_set_again)
  have rec: "record_at s2 k = (if k = rq_key rq then Some \<lparr>sr_meta = m2, sr_slots = (sr_slots r)[?i := new_unspent (rq_hash rq)],
      sr_cold = sr_cold r\<rparr> else record_at s k)" for k
    using at_record [OF a2] by (cases r) (simp add: record_view)
  have "((sr_slots r)[?i := new_unspent (rq_hash rq)] = sr_slots r) = (cooldown = 0)"
    if "sr_slots r ! ?i = new_unspent_with_cooldown hash cooldown" for hash cooldown
    using restored_slot [OF i that assms(9)] .
  then show ?thesis using eq c(1) un rec unfolding m2' by auto
qed

theorem spend_unspend_roundtrip_witness:
  "\<exists>resp s1 resp' s2 r. spend (demo_spend demo_data) demo_open = (Inr resp, s1) \<and> unspend (demo_unspend 200) s1 = (Inr resp', s2) \<and>
    record_at s2 demo_key = Some r \<and> spent_utxos (sr_meta r) = 0 \<and> sr_slots r = [new_unspent demo_hash]"
proof -
  let ?r = "demo_record 0 (new_unspent demo_hash)" and ?rq = "demo_spend demo_data"
  note c = spend_unspend_roundtrip [where e = demo_entry and r = ?r and rq = ?rq and s = demo_open and uq = "demo_unspend 200"]
  obtain resp s1 resp' s2 now lsa dah where s: "spend ?rq demo_open = (Inr resp, s1)" "unspend (demo_unspend 200) s1 = (Inr resp', s2)"
    and k: "\<forall>k. record_at s2 k = (if k = rq_key ?rq
       then Some \<lparr>sr_meta = (sr_meta ?r)\<lparr>generation := generation (sr_meta ?r) + 2, updated_at := now,
           flags := flag_set (flags (sr_meta ?r)) LAST_SPENT_ALL lsa, delete_at_height := dah\<rparr>,
         sr_slots = (sr_slots ?r)[unat (rq_offset ?rq) := new_unspent (rq_hash ?rq)], sr_cold = sr_cold ?r\<rparr>
       else record_at demo_open k)"
    using c by auto
  then show ?thesis using spec [OF k, of demo_key] by simp
qed

text \<open>C33: An unspend whose retention window overflows fails after it has freed the output: the slot is unspent while the
  header still counts it as spent, and the node stays healthy.\<close>

theorem unspend_overflow_uncounted:
  assumes "structure_ok {} s" "en_io s = []" "en_index s (uq_key rq) = Some e" "record_at s (uq_key rq) = Some r"
    and "uq_offset rq < utxo_count (sr_meta r)" "slot_hash (sr_slots r ! unat (uq_offset rq)) = uq_hash rq"
    and "caller_owns_spend (sr_slots r ! unat (uq_offset rq)) (uq_data rq)" "spent_utxos (sr_meta r) \<noteq> 0"
    and "readable (uq_key rq) (ie_mined_slot e) s" "preserve_until (sr_meta r) = 0" "uq_retention rq \<noteq> 0"
    and "2 ^ 32 \<le> unat (uq_height rq) + unat (uq_retention rq)"
  shows "\<exists>s'. unspend rq s = (Inl (DahOverflow (uq_height rq) (uq_retention rq)), s') \<and>
    record_at s' (uq_key rq) = Some (r\<lparr>sr_slots := (sr_slots r)[unat (uq_offset rq) := new_unspent (uq_hash rq)]\<rparr>) \<and>
    write_healthy s' = write_healthy s"
proof -
  have a: "at (reservations s) (view s) (en_index s) {} s" using assms(1) by (simp add: at_structure)
  obtain ls where v: "view s (uq_key rq) = Some (r, ls)" using assms(4) by (auto simp: record_view)
  let ?r1 = "r\<lparr>sr_slots := (sr_slots r)[unat (uq_offset rq) := new_unspent (uq_hash rq)]\<rparr>"
  obtain s1 where eq: "unspend rq s = unspend_recount rq e (sr_meta r) (sr_slots r ! unat (uq_offset rq)) s1"
    and a1: "at (reservations s) ((view s)(uq_key rq \<mapsto> (?r1, ls))) (en_index s) {} s1"
    and s1: "en_mined s1 = en_mined s" "en_redo s1 = en_redo s" "en_poisoned s1 = en_poisoned s"
    by (rule calm_unspend_start [OF a assms(3) v assms(2,5,6,7,8)])
  have rd1: "readable (uq_key rq) (ie_mined_slot e) s1" using assms(9) s1(1) by (simp add: readable_def)
  obtain s' where "unspend_recount rq e (sr_meta r) (sr_slots r ! unat (uq_offset rq)) s1 = (Inl (DahOverflow (uq_height rq) (uq_retention rq)), s')"
    and a2: "at (reservations s) ((view s)(uq_key rq \<mapsto> (?r1, ls))) (en_index s) {} s'"
    and "en_redo s' = en_redo s1" "en_poisoned s' = en_poisoned s1"
    by (rule overflow_unspend_recount [OF a1 assms(7) rd1 assms(11,10,12)])
  then show ?thesis using eq s1 at_record [OF a2] by (simp add: write_healthy_def)
qed

theorem unspend_overflow_uncounted_witness:
  "\<exists>s'. unspend (demo_unspend 0xFFFFFFFF) demo_spent = (Inl (DahOverflow 0xFFFFFFFF 10), s') \<and>
    record_at s' demo_key = Some ((demo_record 1 (new_spent demo_hash demo_data))\<lparr>sr_slots := [new_unspent demo_hash]\<rparr>)"
proof -
  let ?r = "demo_record 1 (new_spent demo_hash demo_data)" and ?rq = "demo_unspend 0xFFFFFFFF"
  have "\<exists>s'. unspend ?rq demo_spent = (Inl (DahOverflow (uq_height ?rq) (uq_retention ?rq)), s') \<and>
    record_at s' (uq_key ?rq) = Some (?r\<lparr>sr_slots := (sr_slots ?r)[unat (uq_offset ?rq) := new_unspent (uq_hash ?rq)]\<rparr>) \<and>
    write_healthy s' = write_healthy demo_spent"
    by (rule unspend_overflow_uncounted [where e = demo_entry]) (simp_all add: caller_owns_spend_def slot_defs record_consts)
  then show ?thesis by auto
qed

end
