(* ===== verification/Spec2Isabelle.thy ===== *)
theory Spec2Isabelle
  imports Tx_Record Op_Types Delete_Eval Mined_Shard Mined_Index Height_Index Freelist Slot_Allocator
    Allocator_Header Segment_Allocator Record_Store Tombstone_Log Engine_Theorems
begin

text \<open>
  A verification development for TeraSlab (\<open>src/src\<close>), a store for transaction outputs.  A node keeps one record
  per transaction on a device: a header, one slot per output and optional cold data.  A primary index maps a
  transaction to the place of its record; the state of the blocks that mined it, the heights at which it is to be
  deleted or preserved, and the set of conflicting transactions are kept in memory; a space allocator owns the device.
  The engine runs spends, unspends, flag changes, creates and deletes over these parts.

  \<^bold>\<open>Records and codecs.\<close>
  \<^item> \<open>TS_Prelude\<close> holds the word types, byte slices, little-endian codecs and shared list lemmas.
  \<^item> \<open>Tx_Record\<close> models \<open>record.rs\<close>: slots, headers, identity prefix, deleted-record marker, the generation order.
    The checksum is a parameter.  The codec theorems say which images are accepted, and that images read back.
  \<^item> \<open>Op_Types\<close> models \<open>ops/error.rs\<close> and \<open>ops/signal.rs\<close>.
  \<^item> \<open>Cold_Data\<close> models the cold data layout and the durable height file of \<open>ops/engine.rs\<close> and \<open>storage/tiers.rs\<close>.

  \<^bold>\<open>Deletion rule and indexes.\<close>
  \<^item> \<open>Delete_Eval\<close> models \<open>ops/delete_eval.rs\<close>: the three evaluators of the delete-at-height rule, which agree.
  \<^item> \<open>Mined_Shard\<close> and \<open>Mined_Index\<close> model \<open>index/mined_index.rs\<close>: its invariant over all histories, the effect of
    transitions, and the guard against reused slot numbers.
  \<^item> \<open>Ordered_Map\<close> and \<open>Height_Index\<close> model \<open>index/dah_index.rs\<close>, \<open>preserve_index.rs\<close> and \<open>conflicting_index.rs\<close>, refining
    a finite map from transactions to heights; redo replay is idempotent.
  \<^item> \<open>Tombstone_Log\<close> models \<open>ops/tombstone.rs\<close>, the durable log of deletions: what a checkpoint writes is what a boot reads,
    with two concrete ways in which the file of the code loses or revives an entry.

  \<^bold>\<open>Space.\<close>
  \<^item> \<open>Freelist\<close>, \<open>Slot_Allocator\<close> and \<open>Allocator_Header\<close> model \<open>allocator.rs\<close>: live regions stay disjoint over all histories,
    recovery rebuilds the state, and batches roll back.
  \<^item> \<open>Segment_Allocator\<close> models \<open>segment_allocator.rs\<close>: safety and completeness of allocation, the
    exact rollback of a batch and recovery, with the conditions on pins and rollbacks they need, and three concrete
    histories in which, without them, a live region is handed out again.
  \<^item> \<open>Record_Store\<close> models the interface over both allocators; the locale of a device store is interpreted on it.

  \<^bold>\<open>Engine\<close> (\<open>ops/engine.rs\<close> and the request types beside it).
  \<^item> \<open>Engine_State\<close> has the node as a record: index, device blocks, allocators, memory indexes, journal and the fault
    schedule \<open>en_io\<close>.  An operation is a function from a state to an error or a result and a state.  Every device
    access takes one entry of the schedule, and an empty schedule means that all accesses succeed.
  \<^item> \<open>Engine_Spend\<close>, \<open>Engine_Slots\<close>, \<open>Engine_Flags\<close>, \<open>Engine_Delete\<close>, \<open>Engine_Children\<close> and \<open>Engine_Create\<close> hold the operations, one
    definition per function of the code with its guards, writes and error exits in order.
  \<^item> \<open>Engine_Inv\<close>, \<open>Engine_Space\<close>, \<open>Engine_Rules\<close>, \<open>Engine_Safety\<close> and \<open>Engine_Lists\<close> hold the invariant of the store, the
    weakest-precondition rules and the per-operation lemmas.
  \<^item> \<open>Engine_Ledger\<close>, \<open>Engine_Moves\<close>, \<open>Engine_Batch\<close>, \<open>Engine_History\<close>, \<open>Engine_Exec\<close> and \<open>Engine_Runs\<close> say how each operation may
    move slots and counters, and lift this to runs: sequences of operations with arbitrary faults between and inside.
  \<^item> \<open>Engine_Contract\<close>, \<open>Engine_Example\<close> and \<open>Engine_Demo\<close> describe runs in which the device answers, and an example node.
  \<^item> \<open>Engine_Theorems\<close> holds the results: the store stays well formed, an output has at most one spender, the sweep
    deletes only settled records and does delete due ones, a spend does exactly its work and an unspend undoes it.

  \<^bold>\<open>Bounds and hypotheses.\<close>  Loops over lists are structural.  The append and remove loops of the lists of children take
  the code's own bound of 16 attempts as fuel.  A run has one operation at a time, as the striped lock of a transaction
  gives it; the children loops, which drop the lock, are modelled without another writer in between.  The runs assume
  that a created record fits its size field.  The result on the sweep also assumes that unspends have a readable mined
  state and a retention window that does not overflow: \<open>unspend_overflow_uncounted\<close> shows what happens otherwise.  The
  effects of a single spend and unspend are those of a store updated in place.  The block size of the space allocator is
  a power of two, and in packed mode its device ends a block below \<open>2 ^ 64\<close>.  The histories of a log-structured store
  take a backup pin only while every reusable segment lies below the append frontier and roll a batch back only if the
  segments it advanced over were unused before; its offset sums are exact
  as long as a device and one segment together stay below \<open>2 ^ 64\<close> bytes.

  \<^bold>\<open>Not modelled.\<close>  The network protocol, request dispatch, cluster coordination and replication, which are concurrent
  and asynchronous; devices, caches and the redo log files, represented by blocks, a journal and faults; whole-node
  recovery and checkpoints; the persistent index backends; the batched form of create and the one
  at a reserved offset (\<open>create_batch\<close>, \<open>create_at_offset\<close>),
  so the histories of the engine create records one at a time; compaction; the snapshot format of the mined index and the
  header of the log-structured allocator; the blob store, a parameter; metrics, configuration, backup files and clients.
\<close>

end
